(* ===== verification/Prelude.thy ===== *)
theory Prelude
  imports Main "HOL-Library.Word" "HOL-Library.Monad_Syntax" "HOL-Library.Product_Lexorder"
    "HOL-Library.AList"
begin

text \<open>
  Shared vocabulary of the development: the machine integer types, byte strings, fallible
  results, the little- and big-endian field readers and writers that the wire structures are
  built from, and the generic lemmas on lists, words and association lists that the component
  theories use.

  Conventions. A Rust \<open>u8\<close>/\<open>u16\<close>/\<open>u32\<close>/\<open>u64\<close> is a word of that width.
  A \<open>usize\<close> is a \<open>nat\<close>: every quantity the crate holds in one is a buffer
  length or an offset built from 16- and 32-bit fields, far below the \<open>2 ^ 64\<close> of the
  targets it is built for; where the source guards a \<open>usize\<close> computation the guard is
  modelled.  \<open>Result<T, E>\<close> is \<open>E + T\<close> (\<open>Inl\<close> the error), and
  \<open>rbind\<close> is the \<open>?\<close> operator.
\<close>

unbundle bit_operations_syntax

section \<open>Types\<close>

type_synonym u8 = "8 word"
type_synonym u16 = "16 word"
type_synonym u32 = "32 word"
type_synonym u64 = "64 word"
type_synonym bytes = "u8 list"

text \<open>A monotonic clock reading (\<open>tokio::time::Instant\<close>) and a span, both as ticks.\<close>

type_synonym instant = nat
type_synonym duration = nat

named_theorems codec_simps "field readers applied to field writers, and lengths of encodings"

named_theorems rd_total "a field reader succeeds where its field is there"

section \<open>Fallible results\<close>

definition rbind :: "'e + 'a \<Rightarrow> ('a \<Rightarrow> 'e + 'b) \<Rightarrow> 'e + 'b" where
  "rbind m f = (case m of Inl e \<Rightarrow> Inl e | Inr x \<Rightarrow> f x)"

lemma rbind_simps [simp]:
  "rbind (Inl e) f = Inl e"
  "rbind (Inr x) f = f x"
  by (simp_all add: rbind_def)

lemma rbind_Inr_iff: "rbind m f = Inr y \<longleftrightarrow> (\<exists>x. m = Inr x \<and> f x = Inr y)"
  by (cases m) simp_all

lemma rbind_Inl_iff:
  "rbind m f = Inl e \<longleftrightarrow> m = Inl e \<or> (\<exists>x. m = Inr x \<and> f x = Inl e)"
  by (cases m) auto

lemma rbind_cong: "m = m' \<Longrightarrow> (\<And>x. m' = Inr x \<Longrightarrow> f x = g x) \<Longrightarrow> rbind m f = rbind m' g"
  by (cases m') auto

text \<open>\<open>ok_or\<close>: an absent value becomes the given error.\<close>

definition ok_or :: "'e \<Rightarrow> 'a option \<Rightarrow> 'e + 'a" where
  "ok_or e m = (case m of None \<Rightarrow> Inl e | Some x \<Rightarrow> Inr x)"

lemma ok_or_simps [simp]:
  "ok_or e None = Inl e"
  "ok_or e (Some x) = Inr x"
  by (simp_all add: ok_or_def)

lemma ok_or_Inr_iff: "ok_or e m = Inr x \<longleftrightarrow> m = Some x"
  by (cases m) simp_all

lemma ok_or_Inl_iff: "ok_or e m = Inl e' \<longleftrightarrow> m = None \<and> e' = e"
  by (cases m) auto

definition is_ok :: "'e + 'a \<Rightarrow> bool" where
  "is_ok r = (case r of Inl _ \<Rightarrow> False | Inr _ \<Rightarrow> True)"

lemma is_ok_simps [simp]: "is_ok (Inr x)" "\<not> is_ok (Inl e)"
  by (simp_all add: is_ok_def)

section \<open>Slices\<close>

text \<open>
  \<open>bytes.get(from..from + n)\<close>: the block of \<open>n\<close> elements at \<open>from\<close>, absent
  when it does not lie inside the list.
\<close>

definition slice_at :: "'a list \<Rightarrow> nat \<Rightarrow> nat \<Rightarrow> 'a list option" where
  "slice_at xs from n = (if from + n \<le> length xs then Some (take n (drop from xs)) else None)"

lemma slice_at_Some_iff:
  "slice_at xs i n = Some ys \<longleftrightarrow> i + n \<le> length xs \<and> ys = take n (drop i xs)"
  by (auto simp: slice_at_def)

lemma slice_at_None_iff: "slice_at xs i n = None \<longleftrightarrow> length xs < i + n"
  by (auto simp: slice_at_def)

lemma slice_at_length: "slice_at xs i n = Some ys \<Longrightarrow> length ys = n"
  by (auto simp: slice_at_def split: if_splits)

lemma slice_at_append: "length xs = i \<Longrightarrow> length ys = n \<Longrightarrow> slice_at (xs @ ys @ zs) i n = Some ys"
  by (simp add: slice_at_def)

lemma slice_at_append_end: "length xs = i \<Longrightarrow> length ys = n \<Longrightarrow> slice_at (xs @ ys) i n = Some ys"
  by (simp add: slice_at_def)

text \<open>\<open>Vec::resize(n, 0)\<close> and \<open>buffer[at..at + len].copy_from_slice(payload)\<close>.\<close>

definition resize :: "nat \<Rightarrow> 'a \<Rightarrow> 'a list \<Rightarrow> 'a list" where
  "resize n z xs = take n xs @ replicate (n - length xs) z"

lemma length_resize [simp]: "length (resize n z xs) = n"
  by (simp add: resize_def)

lemma nth_resize: "i < n \<Longrightarrow> resize n z xs ! i = (if i < length xs then xs ! i else z)"
  by (simp add: resize_def nth_append)

definition write_at :: "nat \<Rightarrow> 'a list \<Rightarrow> 'a list \<Rightarrow> 'a list" where
  "write_at i ys xs = take i xs @ ys @ drop (i + length ys) xs"

lemma length_write_at [simp]:
  "i + length ys \<le> length xs \<Longrightarrow> length (write_at i ys xs) = length xs"
  by (simp add: write_at_def)

lemma nth_write_at:
  assumes "i + length ys \<le> length xs" "k < length xs"
  shows "write_at i ys xs ! k = (if i \<le> k \<and> k < i + length ys then ys ! (k - i) else xs ! k)"
proof (cases "k < i")
  case True
  then show ?thesis using assms by (simp add: write_at_def nth_append)
next
  case False
  then show ?thesis
    using assms
    by (auto simp: write_at_def nth_append min_def algebra_simps)
qed

text \<open>\<open>usize::next_multiple_of\<close>.\<close>

definition next_multiple_of :: "nat \<Rightarrow> nat \<Rightarrow> nat" where
  "next_multiple_of n k = (if n mod k = 0 then n else n + (k - n mod k))"

lemma next_multiple_of_ge: "n \<le> next_multiple_of n k"
  unfolding next_multiple_of_def
  by (cases "n mod k = 0") (simp_all only: if_True if_False le_add1 order_refl simp_thms)

lemma next_multiple_of_dvd: "0 < k \<Longrightarrow> k dvd next_multiple_of n k"
proof (cases "n mod k = 0")
  case False
  assume "0 < k"
  then have "n mod k < k" by simp
  moreover have "n + (k - n mod k) = k * (n div k) + (n mod k + (k - n mod k))"
    using mult_div_mod_eq [of k n] by linarith
  ultimately have "n + (k - n mod k) = k * (n div k) + k" by simp
  then show ?thesis using False by (simp add: next_multiple_of_def)
qed (auto simp: next_multiple_of_def)

lemma next_multiple_of_idem: "k dvd n \<Longrightarrow> next_multiple_of n k = n"
  by (simp add: next_multiple_of_def)

section \<open>Little-endian fields\<close>

text \<open>
  The wire structures are \<open>binrw\<close> derives with \<open>#[brw(little)]\<close>: their fields in
  declaration order, each little-endian.  A reader takes the bytes still unread and returns the
  field and the rest, or nothing where the input ends inside the field.
\<close>

definition le8 :: "u8 \<Rightarrow> bytes" where
  "le8 w = [w]"

definition le16 :: "u16 \<Rightarrow> bytes" where
  "le16 w = [ucast w, ucast (drop_bit 8 w)]"

definition le32 :: "u32 \<Rightarrow> bytes" where
  "le32 w = [ucast w, ucast (drop_bit 8 w), ucast (drop_bit 16 w), ucast (drop_bit 24 w)]"

definition u16_le :: "u8 \<Rightarrow> u8 \<Rightarrow> u16" where
  "u16_le a b = ucast a OR push_bit 8 (ucast b)"

definition u32_le :: "u8 \<Rightarrow> u8 \<Rightarrow> u8 \<Rightarrow> u8 \<Rightarrow> u32" where
  "u32_le a b c d =
     ucast a OR push_bit 8 (ucast b) OR push_bit 16 (ucast c) OR push_bit 24 (ucast d)"

fun rd8 :: "bytes \<Rightarrow> (u8 \<times> bytes) option" where
  "rd8 (a # bs) = Some (a, bs)"
| "rd8 _ = None"

fun rd16 :: "bytes \<Rightarrow> (u16 \<times> bytes) option" where
  "rd16 (a # b # bs) = Some (u16_le a b, bs)"
| "rd16 _ = None"

fun rd32 :: "bytes \<Rightarrow> (u32 \<times> bytes) option" where
  "rd32 (a # b # c # d # bs) = Some (u32_le a b c d, bs)"
| "rd32 _ = None"

definition rd_bytes :: "nat \<Rightarrow> bytes \<Rightarrow> (bytes \<times> bytes) option" where
  "rd_bytes n bs = (if n \<le> length bs then Some (take n bs, drop n bs) else None)"

lemma u16_le_le16: "u16_le (ucast w) (ucast (drop_bit 8 w)) = w"
  by (rule bit_word_eqI) (auto simp: u16_le_def bit_simps)

lemma u32_le_le32:
  "u32_le (ucast w) (ucast (drop_bit 8 w)) (ucast (drop_bit 16 w)) (ucast (drop_bit 24 w)) = w"
proof (rule bit_word_eqI)
  fix n
  assume "n < LENGTH(32)"
  then have "n < 8 \<or> (8 \<le> n \<and> n < 16) \<or> (16 \<le> n \<and> n < 24) \<or> (24 \<le> n \<and> n < 32)"
    by auto
  then show "bit (u32_le (ucast w) (ucast (drop_bit 8 w)) (ucast (drop_bit 16 w))
      (ucast (drop_bit 24 w))) n = bit w n"
    by (auto simp: u32_le_def bit_simps dest: bit_imp_le_length)
qed

lemma le16_u16_le: "le16 (u16_le a b) = [a, b]"
  by (auto simp: le16_def u16_le_def intro!: bit_word_eqI)
     (auto simp: bit_simps dest: bit_imp_le_length)

lemma le32_u32_le: "le32 (u32_le a b c d) = [a, b, c, d]"
  by (auto simp: le32_def u32_le_def intro!: bit_word_eqI)
     (auto simp: bit_simps dest: bit_imp_le_length)

lemma rd8_le8 [codec_simps]: "rd8 (le8 w @ bs) = Some (w, bs)"
  by (simp add: le8_def)

lemma rd16_le16 [codec_simps]: "rd16 (le16 w @ bs) = Some (w, bs)"
  by (simp add: le16_def u16_le_le16)

lemma rd32_le32 [codec_simps]: "rd32 (le32 w @ bs) = Some (w, bs)"
  by (simp add: le32_def u32_le_le32)

lemma rd_bytes_append [codec_simps]: "length xs = n \<Longrightarrow> rd_bytes n (xs @ bs) = Some (xs, bs)"
  by (simp add: rd_bytes_def)

lemma length_le [simp, codec_simps]:
  "length (le8 w) = 1" "length (le16 v) = 2" "length (le32 u) = 4"
  by (simp_all add: le8_def le16_def le32_def)

text \<open>Reading back: what a reader consumed is the encoding of what it returned.\<close>

lemma rd8_Some: "rd8 bs = Some (w, rest) \<Longrightarrow> bs = le8 w @ rest"
  by (cases bs) (auto simp: le8_def)

lemma rd16_Some: "rd16 bs = Some (w, rest) \<Longrightarrow> bs = le16 w @ rest"
  by (cases bs rule: rd16.cases) (auto simp: le16_u16_le)

lemma rd32_Some: "rd32 bs = Some (w, rest) \<Longrightarrow> bs = le32 w @ rest"
  by (cases bs rule: rd32.cases) (auto simp: le32_u32_le)

lemma rd_bytes_Some: "rd_bytes n bs = Some (xs, rest) \<Longrightarrow> bs = xs @ rest \<and> length xs = n"
  by (auto simp: rd_bytes_def split: if_splits)

text \<open>A reader succeeds exactly when its field is there.\<close>

lemma rd8_total [rd_total]: "1 \<le> length bs \<Longrightarrow> rd8 bs = Some (bs ! 0, drop 1 bs)"
  by (cases bs) auto

lemma rd16_total [rd_total]: "2 \<le> length bs \<Longrightarrow> rd16 bs = Some (u16_le (bs ! 0) (bs ! 1), drop 2 bs)"
  by (cases bs rule: rd16.cases) auto

lemma rd32_total [rd_total]:
  "4 \<le> length bs \<Longrightarrow> rd32 bs = Some (u32_le (bs ! 0) (bs ! 1) (bs ! 2) (bs ! 3), drop 4 bs)"
  by (cases bs rule: rd32.cases) (auto simp: eval_nat_numeral)

lemma rd_bytes_total [rd_total]: "n \<le> length bs \<Longrightarrow> rd_bytes n bs = Some (take n bs, drop n bs)"
  by (simp add: rd_bytes_def)

section \<open>Word bounds\<close>

lemma unat_u8: "unat (w :: u8) < 256"
  using unsigned_less [of w, where 'a = nat] by simp

lemma unat_u16: "unat (w :: u16) < 65536"
  using unsigned_less [of w, where 'a = nat] by simp

lemma unat_u32: "unat (w :: u32) < 4294967296"
  using unsigned_less [of w, where 'a = nat] by simp

section \<open>Splitting a wide integer across two fields\<close>

text \<open>
  \<open>len as u16\<close> beside \<open>(len >> 16) as u16\<close>, and
  \<open>usize::from(low) | usize::from(high) << 16\<close> reading the pair back.
\<close>

definition join16 :: "u16 \<Rightarrow> u16 \<Rightarrow> nat" where
  "join16 low high = unat low + 65536 * unat high"

lemma join16_split: "n < 2 ^ 32 \<Longrightarrow> join16 (of_nat n) (of_nat (n div 65536)) = n"
  by (simp add: join16_def unat_of_nat)

lemma join16_bound: "join16 low high < 2 ^ 32"
  using unat_u16 [of low] unat_u16 [of high] by (simp add: join16_def)

definition join32 :: "u32 \<Rightarrow> u32 \<Rightarrow> u64" where
  "join32 low high = ucast low OR push_bit 32 (ucast high)"

lemma join32_split: "join32 (ucast w) (ucast (drop_bit 32 w)) = w"
  by (rule bit_word_eqI) (auto simp: join32_def bit_simps dest: bit_imp_le_length)

text \<open>A little-endian \<open>u64\<close> field is its two halves, the low one first.\<close>

definition le64 :: "u64 \<Rightarrow> bytes" where
  "le64 w = le32 (ucast w) @ le32 (ucast (drop_bit 32 w))"

definition rd64 :: "bytes \<Rightarrow> (u64 \<times> bytes) option" where
  "rd64 bs = do { (low, bs) \<leftarrow> rd32 bs; (high, bs) \<leftarrow> rd32 bs; Some (join32 low high, bs) }"

lemma length_le64 [simp, codec_simps]: "length (le64 w) = 8"
  by (simp add: le64_def)

lemma rd64_le64 [codec_simps]: "rd64 (le64 w @ bs) = Some (w, bs)"
  by (simp add: le64_def rd64_def codec_simps join32_split)

lemma le32_join32: "le32 (ucast (join32 l h)) = le32 l" "le32 (ucast (drop_bit 32 (join32 l h))) = le32 h"
proof -
  have "ucast (join32 l h) = l" "ucast (drop_bit 32 (join32 l h)) = h"
    by (rule bit_word_eqI; auto simp: join32_def bit_simps dest: bit_imp_le_length)+
  then show "le32 (ucast (join32 l h)) = le32 l" "le32 (ucast (drop_bit 32 (join32 l h))) = le32 h"
    by simp_all
qed

lemma rd64_Some: "rd64 bs = Some (w, rest) \<Longrightarrow> bs = le64 w @ rest"
  by (auto simp: rd64_def le64_def le32_join32 dest!: rd32_Some split: Option.bind_splits)

lemma rd64_total [rd_total]:
  "8 \<le> length bs \<Longrightarrow> \<exists>w. rd64 bs = Some (w, drop 8 bs)"
  by (simp add: rd64_def rd32_total)

definition join16_u32 :: "u16 \<Rightarrow> u16 \<Rightarrow> u32" where
  "join16_u32 low high = ucast low OR push_bit 16 (ucast high)"

lemma join16_u32_split: "join16_u32 (ucast w) (ucast (drop_bit 16 w)) = w"
  by (rule bit_word_eqI) (auto simp: join16_u32_def bit_simps dest: bit_imp_le_length)

section \<open>Association lists as hash maps\<close>

lemma map_of_update: "map_of (AList.update k v al) = (map_of al)(k \<mapsto> v)"
  by (simp add: update_conv')

lemma map_of_delete: "map_of (AList.delete k al) = (map_of al)(k := None)"
  by (simp add: delete_conv')

lemma length_delete:
  "distinct (map fst al) \<Longrightarrow> map_of al k = Some v \<Longrightarrow> Suc (length (AList.delete k al)) = length al"
proof (induction al)
  case Nil
  then show ?case by simp
next
  case (Cons a al)
  show ?case
  proof (cases "fst a = k")
    case True
    with Cons.prems have "k \<notin> fst ` set al" by auto
    then have "AList.delete k al = al" by (rule delete_id)
    with True show ?thesis by (cases a) (simp add: AList.delete_eq)
  next
    case False
    with Cons show ?thesis by (auto simp: AList.delete_eq)
  qed
qed

end
