(* ===== verification/Unicode.thy ===== *)
theory Unicode
  imports Prelude
begin

text \<open>
  Rust strings and the encodings the crate puts them in.  A \<open>str\<close> is the list of its
  Unicode scalar values.  \<open>str::encode_utf16\<close>, \<open>String::from_utf16\<close>,
  \<open>str::as_bytes\<close> (UTF-8) and \<open>String::from_utf8_lossy\<close> are the standard
  library's; the wire layer's \<open>utf16z\<close> and \<open>from_utf16\<close> are built on them.
\<close>

type_synonym rstr = "nat list"

section \<open>Scalar values\<close>

definition scalar :: "nat \<Rightarrow> bool" where
  "scalar c \<longleftrightarrow> c < 0xD800 \<or> (0xDFFF < c \<and> c < 0x110000)"

definition valid_str :: "rstr \<Rightarrow> bool" where
  "valid_str cs \<longleftrightarrow> list_all scalar cs"

lemma valid_str_simps [simp]:
  "valid_str []"
  "valid_str (c # cs) \<longleftrightarrow> scalar c \<and> valid_str cs"
  "valid_str (xs @ ys) \<longleftrightarrow> valid_str xs \<and> valid_str ys"
  by (simp_all add: valid_str_def)

text \<open>A string literal of the source, all of whose characters are ASCII.\<close>

definition lit :: "string \<Rightarrow> rstr" where
  "lit s = map of_char s"

lemma scalar_of_char: "scalar (of_char c)"
proof -
  have "of_char c < (256 :: nat)" by simp
  then show ?thesis unfolding scalar_def by linarith
qed

lemma valid_str_lit [simp]: "valid_str (lit s)"
  by (induction s) (simp_all add: lit_def scalar_of_char)

section \<open>UTF-16\<close>

definition utf16_char :: "nat \<Rightarrow> u16 list" where
  "utf16_char c =
     (if c < 0x10000 then [of_nat c]
      else [of_nat (0xD800 + (c - 0x10000) div 1024), of_nat (0xDC00 + (c - 0x10000) mod 1024)])"

definition encode_utf16 :: "rstr \<Rightarrow> u16 list" where
  "encode_utf16 cs = concat (map utf16_char cs)"

fun decode_utf16 :: "u16 list \<Rightarrow> rstr option" where
  "decode_utf16 [] = Some []"
| "decode_utf16 (u # us) =
     (if unat u < 0xD800 \<or> 0xDFFF < unat u then map_option ((#) (unat u)) (decode_utf16 us)
      else if unat u < 0xDC00 then
        (case us of
           [] \<Rightarrow> None
         | v # vs \<Rightarrow>
             if 0xDC00 \<le> unat v \<and> unat v \<le> 0xDFFF
             then map_option
                    ((#) (0x10000 + (unat u - 0xD800) * 1024 + (unat v - 0xDC00)))
                    (decode_utf16 vs)
             else None)
      else None)"

lemma encode_utf16_simps [simp]:
  "encode_utf16 [] = []"
  "encode_utf16 (c # cs) = utf16_char c @ encode_utf16 cs"
  by (simp_all add: encode_utf16_def)

lemma decode_utf16_char:
  assumes "scalar c"
  shows "decode_utf16 (utf16_char c @ us) = map_option ((#) c) (decode_utf16 us)"
proof (cases "c < 0x10000")
  case True
  then have "unat (of_nat c :: u16) = c" by (simp add: unat_of_nat)
  with True assms show ?thesis by (simp add: utf16_char_def scalar_def)
next
  case False
  define d where "d = c - 0x10000"
  from assms False have d: "c = 0x10000 + d" "d < 0x100000"
    by (auto simp: d_def scalar_def)
  define hu :: u16 where "hu = of_nat (0xD800 + d div 1024)"
  define lu :: u16 where "lu = of_nat (0xDC00 + d mod 1024)"
  have uc: "utf16_char c = [hu, lu]"
    using False by (simp only: utf16_char_def d_def hu_def lu_def if_False)
  have hi: "unat hu = 0xD800 + d div 1024"
    unfolding hu_def using d(2) by (subst unat_of_nat) simp
  have lo: "unat lu = 0xDC00 + d mod 1024"
    unfolding lu_def by (subst unat_of_nat) simp
  have "d div 1024 < 0x400" using d(2) by simp
  moreover have "d mod 1024 \<le> 0x3FF" using mod_less_divisor [of 1024 d] by linarith
  moreover have "0x10000 + d div 1024 * 1024 + d mod 1024 = c"
    using d(1) by simp
  ultimately show ?thesis by (simp add: uc hi lo)
qed

lemma decode_encode_utf16: "valid_str cs \<Longrightarrow> decode_utf16 (encode_utf16 cs) = Some cs"
  by (induction cs) (auto simp: decode_utf16_char)

lemma utf16_char_of_pair:
  assumes u: "0xD800 \<le> unat u" "unat u < 0xDC00" and v: "0xDC00 \<le> unat v" "unat v \<le> 0xDFFF"
  shows "utf16_char (0x10000 + (unat u - 0xD800) * 1024 + (unat v - 0xDC00)) = [u, v]"
proof -
  define h l where "h = unat u - 0xD800" and "l = unat v - 0xDC00"
  have hl: "unat u = 0xD800 + h" "unat v = 0xDC00 + l" "l < 1024"
    using u v by (auto simp: h_def l_def)
  have "(0x10000 + h * 1024 + l - 0x10000) div 1024 = h" "(0x10000 + h * 1024 + l - 0x10000) mod 1024 = l"
    using hl(3) by simp_all
  then show ?thesis
    by (simp add: utf16_char_def h_def [symmetric] l_def [symmetric])
       (metis hl(1,2) of_nat_add of_nat_numeral of_nat_unat ucast_id)
qed

lemma encode_decode_utf16:
  "decode_utf16 us = Some cs \<Longrightarrow> valid_str cs \<and> encode_utf16 cs = us"
proof (induction us arbitrary: cs rule: decode_utf16.induct)
  case 1
  then show ?case by simp
next
  case (2 u us)
  show ?case
  proof (cases "unat u < 0xD800 \<or> 0xDFFF < unat u")
    case True
    with "2.prems" obtain cs' where "decode_utf16 us = Some cs'" "cs = unat u # cs'" by auto
    moreover have "scalar (unat u)" "utf16_char (unat u) = [u]"
      using True unat_u16 [of u] by (auto simp: scalar_def utf16_char_def)
    ultimately show ?thesis using "2.IH"(1) [OF True] by auto
  next
    case False
    with "2.prems" obtain v vs cs' where us: "us = v # vs"
      and u: "unat u < 0xDC00" and v: "0xDC00 \<le> unat v" "unat v \<le> 0xDFFF"
      and cs': "decode_utf16 vs = Some cs'"
      and cs: "cs = (0x10000 + (unat u - 0xD800) * 1024 + (unat v - 0xDC00)) # cs'"
      by (auto split: if_splits list.splits)
    have "valid_str cs' \<and> encode_utf16 cs' = vs"
      using "2.IH"(2) [OF False u us _ cs'] v by blast
    moreover have "scalar (0x10000 + (unat u - 0xD800) * 1024 + (unat v - 0xDC00))"
      using u v False by (auto simp: scalar_def)
    moreover have "utf16_char (0x10000 + (unat u - 0xD800) * 1024 + (unat v - 0xDC00)) = [u, v]"
      using False u v by (intro utf16_char_of_pair) auto
    ultimately show ?thesis by (simp add: cs us)
  qed
qed

text \<open>\<open>flat_map(u16::to_le_bytes)\<close>, and \<open>as_chunks::<2>()\<close> read as little-endian units.\<close>

definition units_le :: "u16 list \<Rightarrow> bytes" where
  "units_le us = concat (map le16 us)"

fun le_units :: "bytes \<Rightarrow> u16 list" where
  "le_units (a # b # bs) = u16_le a b # le_units bs"
| "le_units _ = []"

lemma units_le_simps [simp]: "units_le [] = []" "units_le (u # us) = le16 u @ units_le us"
  by (simp_all add: units_le_def)

lemma length_units_le [simp]: "length (units_le us) = 2 * length us"
  by (induction us) simp_all

lemma le_units_units_le [simp]: "le_units (units_le us) = us"
  by (induction us) (simp_all add: le16_def u16_le_le16)

lemma units_le_le_units: "even (length bs) \<Longrightarrow> units_le (le_units bs) = bs"
  by (induction bs rule: le_units.induct) (simp_all add: le16_u16_le)

lemma length_le_units: "length (le_units bs) = length bs div 2"
  by (induction bs rule: le_units.induct) simp_all

section \<open>UTF-8\<close>

definition utf8_char :: "nat \<Rightarrow> bytes" where
  "utf8_char c =
     (if c < 0x80 then [of_nat c]
      else if c < 0x800 then [of_nat (0xC0 + c div 64), of_nat (0x80 + c mod 64)]
      else if c < 0x10000 then
        [of_nat (0xE0 + c div 4096), of_nat (0x80 + c div 64 mod 64), of_nat (0x80 + c mod 64)]
      else
        [of_nat (0xF0 + c div 262144), of_nat (0x80 + c div 4096 mod 64),
         of_nat (0x80 + c div 64 mod 64), of_nat (0x80 + c mod 64)])"

definition utf8 :: "rstr \<Rightarrow> bytes" where
  "utf8 cs = concat (map utf8_char cs)"

definition cont :: "u8 \<Rightarrow> bool" where
  "cont b \<longleftrightarrow> 0x80 \<le> unat b \<and> unat b \<le> 0xBF"

text \<open>Which second bytes may follow a three- or four-byte lead.\<close>

definition second_ok :: "nat \<Rightarrow> u8 \<Rightarrow> bool" where
  "second_ok lead b \<longleftrightarrow>
     (if lead = 0xE0 then 0xA0 \<le> unat b \<and> unat b \<le> 0xBF
      else if lead = 0xED then 0x80 \<le> unat b \<and> unat b \<le> 0x9F
      else if lead = 0xF0 then 0x90 \<le> unat b \<and> unat b \<le> 0xBF
      else if lead = 0xF4 then 0x80 \<le> unat b \<and> unat b \<le> 0x8F
      else cont b)"

text \<open>
  One step of \<open>from_utf8_lossy\<close>: the scalar decoded (the replacement character for a
  maximal ill-formed subpart) and how many bytes it took.
\<close>

definition utf8_step :: "u8 \<Rightarrow> bytes \<Rightarrow> nat \<times> nat" where
  "utf8_step b bs =
     (let l = unat b in
      if l < 0x80 then (l, 1)
      else if 0xC2 \<le> l \<and> l \<le> 0xDF then
        (case bs of
           b2 # _ \<Rightarrow> if cont b2 then ((l - 0xC0) * 64 + (unat b2 - 0x80), 2) else (0xFFFD, 1)
         | [] \<Rightarrow> (0xFFFD, 1))
      else if 0xE0 \<le> l \<and> l \<le> 0xEF then
        (case bs of
           b2 # bs' \<Rightarrow>
             if \<not> second_ok l b2 then (0xFFFD, 1)
             else (case bs' of
                     b3 # _ \<Rightarrow>
                       if cont b3
                       then ((l - 0xE0) * 4096 + (unat b2 - 0x80) * 64 + (unat b3 - 0x80), 3)
                       else (0xFFFD, 2)
                   | [] \<Rightarrow> (0xFFFD, 2))
         | [] \<Rightarrow> (0xFFFD, 1))
      else if 0xF0 \<le> l \<and> l \<le> 0xF4 then
        (case bs of
           b2 # bs' \<Rightarrow>
             if \<not> second_ok l b2 then (0xFFFD, 1)
             else (case bs' of
                     b3 # bs'' \<Rightarrow>
                       if \<not> cont b3 then (0xFFFD, 2)
                       else (case bs'' of
                               b4 # _ \<Rightarrow>
                                 if cont b4
                                 then ((l - 0xF0) * 262144 + (unat b2 - 0x80) * 4096
                                        + (unat b3 - 0x80) * 64 + (unat b4 - 0x80), 4)
                                 else (0xFFFD, 3)
                             | [] \<Rightarrow> (0xFFFD, 3))
                   | [] \<Rightarrow> (0xFFFD, 2))
         | [] \<Rightarrow> (0xFFFD, 1))
      else (0xFFFD, 1))"

function from_utf8_lossy :: "bytes \<Rightarrow> rstr" where
  "from_utf8_lossy [] = []"
| "from_utf8_lossy (b # bs) =
     (let (c, n) = utf8_step b bs in c # from_utf8_lossy (drop (n - 1) bs))"
  by pat_completeness auto
termination
  by (relation "measure length") auto

lemma utf8_ascii: "list_all (\<lambda>c. c < 0x80) cs \<Longrightarrow> utf8 cs = map of_nat cs"
  by (induction cs) (simp_all add: utf8_def utf8_char_def)

lemma from_utf8_lossy_ascii:
  "list_all (\<lambda>c. c < 0x80) cs \<Longrightarrow> from_utf8_lossy (map of_nat cs) = cs"
  by (induction cs) (simp_all add: utf8_step_def unat_of_nat)

text \<open>
  \<open>str::from_utf8\<close>: the bytes are a string exactly when they are that string's encoding, which
  the lossy decoding then is.
\<close>

definition from_utf8 :: "bytes \<Rightarrow> rstr option" where
  "from_utf8 bs = (let cs = from_utf8_lossy bs in if utf8 cs = bs then Some cs else None)"

lemma from_utf8_ascii: "list_all (\<lambda>c. c < 0x80) cs \<Longrightarrow> from_utf8 (map of_nat cs) = Some cs"
  by (simp add: from_utf8_def from_utf8_lossy_ascii utf8_ascii)

lemma from_utf8_Some: "from_utf8 bs = Some cs \<Longrightarrow> utf8 cs = bs"
  by (auto simp: from_utf8_def Let_def split: if_splits)

end
