(* ===== verification/Status.thy ===== *)
theory Status
  imports Unicode
begin

text \<open>
  NT status codes (\<open>status.rs\<close>) and the wire layer's error type (\<open>wire/mod.rs\<close>).
  \<open>NtStatus\<close> is a newtype over a 32-bit code whose derived order is the code's.
\<close>

section \<open>Status codes\<close>

datatype nt_status = NtStatus (code: u32)

instantiation nt_status :: linorder
begin

definition less_eq_nt_status :: "nt_status \<Rightarrow> nt_status \<Rightarrow> bool" where
  "less_eq_nt_status a b \<longleftrightarrow> code a \<le> code b"

definition less_nt_status :: "nt_status \<Rightarrow> nt_status \<Rightarrow> bool" where
  "less_nt_status a b \<longleftrightarrow> code a < code b"

instance
  by standard (auto simp: less_eq_nt_status_def less_nt_status_def intro: nt_status.expand)

end

definition SUCCESS :: nt_status where "SUCCESS = NtStatus 0x00000000"
definition PENDING :: nt_status where "PENDING = NtStatus 0x00000103"
definition BUFFER_OVERFLOW :: nt_status where "BUFFER_OVERFLOW = NtStatus 0x80000005"
definition NO_MORE_FILES :: nt_status where "NO_MORE_FILES = NtStatus 0x80000006"
definition END_OF_FILE :: nt_status where "END_OF_FILE = NtStatus 0xC0000011"
definition MORE_PROCESSING_REQUIRED :: nt_status where
  "MORE_PROCESSING_REQUIRED = NtStatus 0xC0000016"
definition USER_SESSION_DELETED :: nt_status where "USER_SESSION_DELETED = NtStatus 0xC0000203"

lemmas status_defs =
  SUCCESS_def PENDING_def BUFFER_OVERFLOW_def NO_MORE_FILES_def END_OF_FILE_def
  MORE_PROCESSING_REQUIRED_def USER_SESSION_DELETED_def

section \<open>Wire errors\<close>

text \<open>
  What a \<open>binrw\<close> derive reports on a fixed layout: the magic did not match, or the input
  ended inside a field.
\<close>

datatype binrw_error = BadMagic | UnexpectedEof

datatype wire_error =
    UnknownNetbiosType u8
  | ReservedNetbiosBits u8
  | MessageTooLong nat
  | Malformed binrw_error
  | Truncated string nat nat
    \<comment> \<open>part, declared, length\<close>
  | UnexpectedCommand u8 u8
    \<comment> \<open>expected, actual\<close>
  | NoResponseBody u8 nt_status
  | UnexpectedWordCount u8 u8 string
    \<comment> \<open>command, actual, expected\<close>
  | ChainedCommand u8
  | BlockOutOfRange string nat nat nat
    \<comment> \<open>field, offset, length, message length\<close>
  | MisalignedName string nat
  | NoCommonDialect
  | UnsupportedDialectIndex u16
  | EntryOffsetTooSmall nat nat nat
    \<comment> \<open>offset, next, minimum\<close>
  | EntryCountMismatch nat u16
    \<comment> \<open>walked, search count\<close>
  | InvalidUtf16 string nat bytes
    \<comment> \<open>field, position, bytes\<close>
  | FieldTooLong string nat nat
    \<comment> \<open>field, length, limit\<close>

end
