(* ===== verification/Netbios.thy ===== *)
theory Netbios
  imports Status
begin

text \<open>
  NetBIOS Session Service framing (\<open>wire/netbios.rs\<close>): the four-byte header in front of
  every SMB message, whose length is read as 17 bits.
\<close>

definition NB_HEADER_LEN :: nat where "NB_HEADER_LEN = 4"
definition MAX_MESSAGE_LEN :: nat where "MAX_MESSAGE_LEN = 0x0001FFFF"
definition TYPE_SESSION_MESSAGE :: u8 where "TYPE_SESSION_MESSAGE = 0x00"
definition TYPE_SESSION_KEEP_ALIVE :: u8 where "TYPE_SESSION_KEEP_ALIVE = 0x85"

datatype message_type = SessionMessage | KeepAlive

text \<open>
  \<open>decode_header\<close> takes exactly four bytes (a Rust array), so they are four arguments.
  \<open>(b1 & 1) << 16 | be16(b2, b3)\<close> has disjoint bits, so it is the sum.
\<close>

definition decode_header ::
  "u8 \<Rightarrow> u8 \<Rightarrow> u8 \<Rightarrow> u8 \<Rightarrow> wire_error + (message_type \<times> nat)" where
  "decode_header b0 b1 b2 b3 =
     rbind (if b0 = TYPE_SESSION_MESSAGE then Inr SessionMessage
            else if b0 = TYPE_SESSION_KEEP_ALIVE then Inr KeepAlive
            else Inl (UnknownNetbiosType b0))
       (\<lambda>kind.
          if b1 AND 0xFE \<noteq> 0 then Inl (ReservedNetbiosBits b1)
          else Inr (kind, unat (b1 AND 0x01) * 65536 + unat b2 * 256 + unat b3))"

definition encode_header :: "nat \<Rightarrow> wire_error + bytes" where
  "encode_header len =
     (if MAX_MESSAGE_LEN < len then Inl (MessageTooLong len)
      else Inr [TYPE_SESSION_MESSAGE,
                of_nat (len div 65536 mod 2), of_nat (len div 256 mod 256), of_nat (len mod 256)])"

section \<open>Lemmas\<close>

lemma bit_reserved_mask: "bit (0xFE :: u8) n \<longleftrightarrow> 1 \<le> n \<and> n < 8"
proof -
  have "(0xFE :: u8) = NOT 1" by simp
  then show ?thesis by (simp only: bit_simps) auto
qed

lemma reserved_bits_zero_iff: "b AND 0xFE = (0 :: u8) \<longleftrightarrow> drop_bit 1 b = 0"
proof
  assume *: "b AND 0xFE = 0"
  show "drop_bit 1 b = 0"
  proof (rule bit_word_eqI)
    fix n
    assume "n < LENGTH(8)"
    from * have "\<not> bit (b AND 0xFE) (Suc n)" by simp
    then show "bit (drop_bit 1 b) n = bit (0 :: u8) n"
      using bit_reserved_mask [of "Suc n"]
      by (auto simp: bit_and_iff bit_drop_bit_eq dest: bit_imp_le_length)
  qed
next
  assume *: "drop_bit 1 b = 0"
  show "b AND 0xFE = 0"
  proof (rule bit_word_eqI)
    fix n
    assume "n < LENGTH(8)"
    from * have "\<not> bit (drop_bit 1 b) (n - 1)" by simp
    then have "1 \<le> n \<longrightarrow> \<not> bit b n" by (auto simp: bit_drop_bit_eq)
    then show "bit (b AND 0xFE) n = bit (0 :: u8) n"
      by (simp only: bit_and_iff bit_reserved_mask bit_0_eq) auto
  qed
qed

lemma reserved_bits_clear_iff: "b AND 0xFE = (0 :: u8) \<longleftrightarrow> unat b < 2"
proof -
  have "drop_bit 1 b = 0 \<longleftrightarrow> unat (drop_bit 1 b) = 0" by (rule unsigned_eq_0_iff [symmetric])
  also have "unat (drop_bit 1 b) = unat b div 2"
    by (simp only: unsigned_drop_bit_eq) (simp add: drop_bit_eq_div take_bit_nat_eq_self unat_u8)
  finally show ?thesis unfolding reserved_bits_zero_iff by auto
qed

lemma low_bit: "unat b < 2 \<Longrightarrow> b AND 1 = (b :: u8)"
  using reserved_bits_clear_iff [of b] reserved_bits_zero_iff [of b] bits_ident [of 1 b]
  by (simp add: take_bit_eq_mask)

lemma decode_header_Inr_iff:
  "decode_header b0 b1 b2 b3 = Inr (kind, len) \<longleftrightarrow>
     (b0 = TYPE_SESSION_MESSAGE \<and> kind = SessionMessage
        \<or> b0 = TYPE_SESSION_KEEP_ALIVE \<and> kind = KeepAlive)
     \<and> unat b1 < 2 \<and> len = unat b1 * 65536 + unat b2 * 256 + unat b3"
proof -
  have ne: "TYPE_SESSION_MESSAGE \<noteq> TYPE_SESSION_KEEP_ALIVE"
    by (simp add: TYPE_SESSION_MESSAGE_def TYPE_SESSION_KEEP_ALIVE_def)
  show ?thesis
    using ne
    by (auto simp: decode_header_def rbind_Inr_iff reserved_bits_clear_iff low_bit
        split: if_splits)
qed

lemma decode_header_bound:
  "decode_header b0 b1 b2 b3 = Inr (kind, len) \<Longrightarrow> len \<le> MAX_MESSAGE_LEN"
  using unat_u8 [of b2] unat_u8 [of b3]
  by (auto simp: decode_header_Inr_iff MAX_MESSAGE_LEN_def)

lemma length_encode_header: "encode_header n = Inr hdr \<Longrightarrow> length hdr = NB_HEADER_LEN"
  by (auto simp: encode_header_def NB_HEADER_LEN_def split: if_splits)

lemma encode_header_Inr:
  assumes "n \<le> MAX_MESSAGE_LEN"
  obtains b1 b2 b3 where "encode_header n = Inr [TYPE_SESSION_MESSAGE, b1, b2, b3]"
    and "decode_header TYPE_SESSION_MESSAGE b1 b2 b3 = Inr (SessionMessage, n)"
proof -
  have enc: "encode_header n = Inr [TYPE_SESSION_MESSAGE, of_nat (n div 65536 mod 2),
      of_nat (n div 256 mod 256), of_nat (n mod 256)]"
    using assms by (simp add: encode_header_def)
  have a: "unat (of_nat (n div 65536 mod 2) :: u8) = n div 65536 mod 2"
    by (subst unat_of_nat) simp
  have b: "unat (of_nat (n div 256 mod 256) :: u8) = n div 256 mod 256"
    by (subst unat_of_nat) simp
  have c: "unat (of_nat (n mod 256) :: u8) = n mod 256"
    by (subst unat_of_nat) simp
  have "n div 256 div 256 = n div 65536" by (simp add: div_mult2_eq [symmetric])
  moreover have "n div 65536 mod 2 = n div 65536"
    using assms by (intro mod_less) (simp add: MAX_MESSAGE_LEN_def)
  ultimately have "n = n div 65536 mod 2 * 65536 + n div 256 mod 256 * 256 + n mod 256"
    using div_mult_mod_eq [of n 256] div_mult_mod_eq [of "n div 256" 256] by linarith
  then have "decode_header TYPE_SESSION_MESSAGE (of_nat (n div 65536 mod 2))
      (of_nat (n div 256 mod 256)) (of_nat (n mod 256)) = Inr (SessionMessage, n)"
    unfolding decode_header_Inr_iff a b c
    by (intro conjI disjI1 refl mod_less_divisor zero_less_numeral)
  with enc show thesis by (rule that)
qed

text \<open>
  Every length the field can describe survives the four-byte header, a longer message is
  refused, and nothing the decoder accepts exceeds the 131,071-byte bound on an inbound frame.
\<close>

theorem netbios_header_roundtrip:
  "(n \<le> MAX_MESSAGE_LEN \<longrightarrow>
     (\<exists>b0 b1 b2 b3. encode_header n = Inr [b0, b1, b2, b3]
        \<and> decode_header b0 b1 b2 b3 = Inr (SessionMessage, n)))
   \<and> (MAX_MESSAGE_LEN < n \<longrightarrow> encode_header n = Inl (MessageTooLong n))
   \<and> (\<forall>b0 b1 b2 b3 kind len.
        decode_header b0 b1 b2 b3 = Inr (kind, len) \<longrightarrow> len \<le> MAX_MESSAGE_LEN)"
proof (intro conjI impI allI)
  assume "n \<le> MAX_MESSAGE_LEN"
  then show "\<exists>b0 b1 b2 b3. encode_header n = Inr [b0, b1, b2, b3]
      \<and> decode_header b0 b1 b2 b3 = Inr (SessionMessage, n)"
    by (rule encode_header_Inr) blast
qed (simp_all add: encode_header_def decode_header_bound)

theorem netbios_header_roundtrip_witness:
  "\<exists>b0 b1 b2 b3. encode_header 130108 = Inr [b0, b1, b2, b3]
     \<and> decode_header b0 b1 b2 b3 = Inr (SessionMessage, 130108)"
  using netbios_header_roundtrip [of 130108] by (simp add: MAX_MESSAGE_LEN_def)

end
