(* ===== verification/Header.thy ===== *)
theory Header
  imports Netbios
begin

text \<open>
  The 32-byte SMB1 header (\<open>wire/header.rs\<close>) and the AndX prologue
  (\<open>wire/andx.rs\<close>): the layout their \<open>binrw\<close> derives declare, the constants, and
  the rule that nothing chains.
\<close>

section \<open>The header\<close>

definition HEADER_LEN :: nat where "HEADER_LEN = 32"

record smb_header =
  h_command :: u8
  h_status :: nt_status
  h_flags :: u8
  h_flags2 :: u16
  h_pid_high :: u16
  h_security_features :: bytes
    \<comment> \<open>\<open>[u8; 8]\<close>\<close>
  h_reserved :: u16
  h_tid :: u16
  h_pid_low :: u16
  h_uid :: u16
  h_mid :: u16

definition FLAGS_CASE_INSENSITIVE :: u8 where "FLAGS_CASE_INSENSITIVE = 0x08"
definition FLAGS_CANONICALIZED_PATHS :: u8 where "FLAGS_CANONICALIZED_PATHS = 0x10"
definition FLAGS_CLIENT :: u8 where
  "FLAGS_CLIENT = FLAGS_CASE_INSENSITIVE OR FLAGS_CANONICALIZED_PATHS"
definition FLAGS2_KNOWS_LONG_NAMES :: u16 where "FLAGS2_KNOWS_LONG_NAMES = 0x0001"
definition FLAGS2_KNOWS_EAS :: u16 where "FLAGS2_KNOWS_EAS = 0x0002"
definition FLAGS2_EXTENDED_SECURITY :: u16 where "FLAGS2_EXTENDED_SECURITY = 0x0800"
definition FLAGS2_NT_STATUS :: u16 where "FLAGS2_NT_STATUS = 0x4000"
definition FLAGS2_UNICODE :: u16 where "FLAGS2_UNICODE = 0x8000"
definition FLAGS2_CLIENT :: u16 where
  "FLAGS2_CLIENT =
     FLAGS2_UNICODE OR FLAGS2_NT_STATUS OR FLAGS2_EXTENDED_SECURITY OR FLAGS2_KNOWS_LONG_NAMES"

definition CMD_CLOSE :: u8 where "CMD_CLOSE = 0x04"
definition CMD_RENAME :: u8 where "CMD_RENAME = 0x07"
definition CMD_TRANSACTION :: u8 where "CMD_TRANSACTION = 0x25"
definition CMD_ECHO :: u8 where "CMD_ECHO = 0x2B"
definition CMD_READ_ANDX :: u8 where "CMD_READ_ANDX = 0x2E"
definition CMD_WRITE_ANDX :: u8 where "CMD_WRITE_ANDX = 0x2F"
definition CMD_TRANSACTION2 :: u8 where "CMD_TRANSACTION2 = 0x32"
definition CMD_FIND_CLOSE2 :: u8 where "CMD_FIND_CLOSE2 = 0x34"
definition CMD_TREE_DISCONNECT :: u8 where "CMD_TREE_DISCONNECT = 0x71"
definition CMD_NEGOTIATE :: u8 where "CMD_NEGOTIATE = 0x72"
definition CMD_SESSION_SETUP_ANDX :: u8 where "CMD_SESSION_SETUP_ANDX = 0x73"
definition CMD_LOGOFF_ANDX :: u8 where "CMD_LOGOFF_ANDX = 0x74"
definition CMD_TREE_CONNECT_ANDX :: u8 where "CMD_TREE_CONNECT_ANDX = 0x75"
definition CMD_NT_CREATE_ANDX :: u8 where "CMD_NT_CREATE_ANDX = 0xA2"

lemmas command_defs =
  CMD_CLOSE_def CMD_RENAME_def CMD_TRANSACTION_def CMD_ECHO_def CMD_READ_ANDX_def
  CMD_WRITE_ANDX_def CMD_TRANSACTION2_def CMD_FIND_CLOSE2_def CMD_TREE_DISCONNECT_def
  CMD_NEGOTIATE_def CMD_SESSION_SETUP_ANDX_def CMD_LOGOFF_ANDX_def CMD_TREE_CONNECT_ANDX_def
  CMD_NT_CREATE_ANDX_def

definition header_request :: "u8 \<Rightarrow> smb_header" where
  "header_request command =
     \<lparr>h_command = command, h_status = SUCCESS, h_flags = FLAGS_CLIENT, h_flags2 = FLAGS2_CLIENT,
      h_pid_high = 0, h_security_features = replicate 8 0, h_reserved = 0, h_tid = 0,
      h_pid_low = 1, h_uid = 0, h_mid = 0\<rparr>"

definition magic :: bytes where "magic = [0xFF, 0x53, 0x4D, 0x42]"

definition write_header :: "smb_header \<Rightarrow> bytes" where
  "write_header h =
     magic @ le8 (h_command h) @ le32 (code (h_status h)) @ le8 (h_flags h) @ le16 (h_flags2 h)
     @ le16 (h_pid_high h) @ h_security_features h @ le16 (h_reserved h) @ le16 (h_tid h)
     @ le16 (h_pid_low h) @ le16 (h_uid h) @ le16 (h_mid h)"

definition read_header_fields :: "bytes \<Rightarrow> smb_header option" where
  "read_header_fields bs = do {
     (command, bs) \<leftarrow> rd8 bs;
     (status, bs) \<leftarrow> rd32 bs;
     (flags, bs) \<leftarrow> rd8 bs;
     (flags2, bs) \<leftarrow> rd16 bs;
     (pid_high, bs) \<leftarrow> rd16 bs;
     (security_features, bs) \<leftarrow> rd_bytes 8 bs;
     (reserved, bs) \<leftarrow> rd16 bs;
     (tid, bs) \<leftarrow> rd16 bs;
     (pid_low, bs) \<leftarrow> rd16 bs;
     (uid, bs) \<leftarrow> rd16 bs;
     (mid, bs) \<leftarrow> rd16 bs;
     Some \<lparr>h_command = command, h_status = NtStatus status, h_flags = flags, h_flags2 = flags2,
           h_pid_high = pid_high, h_security_features = security_features, h_reserved = reserved,
           h_tid = tid, h_pid_low = pid_low, h_uid = uid, h_mid = mid\<rparr>
   }"

definition read_header :: "bytes \<Rightarrow> binrw_error + smb_header" where
  "read_header bs =
     rbind (ok_or UnexpectedEof (rd_bytes 4 bs))
       (\<lambda>(m, rest).
          if m \<noteq> magic then Inl BadMagic
          else ok_or UnexpectedEof (read_header_fields rest))"

text \<open>A header the program can hold: its signature field is an eight-byte array.\<close>

definition wf_header :: "smb_header \<Rightarrow> bool" where
  "wf_header h \<longleftrightarrow> length (h_security_features h) = 8"

lemma wf_header_request [simp]: "wf_header (header_request c)"
  by (simp add: wf_header_def header_request_def)

lemma header_request_simps [simp]:
  "h_command (header_request c) = c"
  "h_status (header_request c) = SUCCESS"
  by (simp_all add: header_request_def)

lemma wf_header_update [simp]:
  "wf_header (h\<lparr>h_mid := m\<rparr>) = wf_header h"
  "wf_header (h\<lparr>h_tid := m\<rparr>) = wf_header h"
  "wf_header (h\<lparr>h_uid := m\<rparr>) = wf_header h"
  by (simp_all add: wf_header_def)

lemma length_magic [simp]: "length magic = 4"
  by (simp add: magic_def)

lemma length_write_header [codec_simps]: "wf_header h \<Longrightarrow> length (write_header h) = HEADER_LEN"
  by (simp add: write_header_def wf_header_def HEADER_LEN_def)

lemma read_write_header [codec_simps]:
  assumes "wf_header h"
  shows "read_header (write_header h @ bs) = Inr h"
proof -
  have "length (h_security_features h) = 8" using assms by (simp add: wf_header_def)
  then show ?thesis
    by (simp add: read_header_def write_header_def read_header_fields_def codec_simps)
qed

lemma read_header_Inr:
  assumes "read_header bs = Inr h"
  shows "wf_header h \<and> (\<exists>rest. bs = write_header h @ rest)"
proof -
  from assms obtain rest where bs: "bs = magic @ rest" and f: "read_header_fields rest = Some h"
    by (auto simp: read_header_def rbind_Inr_iff ok_or_Inr_iff dest!: rd_bytes_Some split: if_splits)
  from f show ?thesis
    unfolding bs read_header_fields_def
    by (auto simp: bind_eq_Some_conv write_header_def wf_header_def
        dest!: rd8_Some rd16_Some rd32_Some rd_bytes_Some)
qed

text \<open>
  The header codec is an exact inverse pair: a header survives encoding whatever follows it,
  and whatever the reader accepts begins with that header's own 32 bytes.
\<close>

theorem header_roundtrip:
  "(wf_header h \<longrightarrow> read_header (write_header h @ bs) = Inr h \<and> length (write_header h) = 32)
   \<and> (read_header bs = Inr h \<longrightarrow> wf_header h \<and> take 32 bs = write_header h)"
  by (auto simp: read_write_header length_write_header HEADER_LEN_def dest!: read_header_Inr)

theorem header_roundtrip_witness:
  "read_header (write_header (header_request CMD_ECHO) @ [1, 2, 3]) = Inr (header_request CMD_ECHO)
   \<and> take 32 (write_header (header_request CMD_ECHO) @ [1, 2, 3])
       = write_header (header_request CMD_ECHO)"
  using header_roundtrip [of "header_request CMD_ECHO" "[1, 2, 3]"]
    header_roundtrip [of "header_request CMD_ECHO"
      "write_header (header_request CMD_ECHO) @ [1, 2, 3]"]
  by simp

lemma read_header_total:
  assumes "HEADER_LEN \<le> length bs" "take 4 bs = magic"
  obtains h where "read_header bs = Inr h"
proof -
  have "28 \<le> length (drop 4 bs)" using assms(1) by (simp add: HEADER_LEN_def)
  then have "\<exists>h. read_header_fields (drop 4 bs) = Some h"
    by (simp add: read_header_fields_def rd_total)
  then show thesis
    using assms that by (auto simp: read_header_def rd_bytes_def HEADER_LEN_def)
qed

section \<open>The AndX prologue\<close>

definition NO_FURTHER_COMMAND :: u8 where "NO_FURTHER_COMMAND = 0xFF"

record andx =
  ax_command :: u8
  ax_reserved :: u8
  ax_offset :: u16

definition ANDX_NONE :: andx where
  "ANDX_NONE = \<lparr>ax_command = NO_FURTHER_COMMAND, ax_reserved = 0, ax_offset = 0\<rparr>"

definition refuse_chaining :: "andx \<Rightarrow> wire_error + unit" where
  "refuse_chaining a =
     (if ax_command a = NO_FURTHER_COMMAND then Inr () else Inl (ChainedCommand (ax_command a)))"

definition write_andx :: "andx \<Rightarrow> bytes" where
  "write_andx a = le8 (ax_command a) @ le8 (ax_reserved a) @ le16 (ax_offset a)"

definition rd_andx :: "bytes \<Rightarrow> (andx \<times> bytes) option" where
  "rd_andx bs = do {
     (command, bs) \<leftarrow> rd8 bs;
     (reserved, bs) \<leftarrow> rd8 bs;
     (off, bs) \<leftarrow> rd16 bs;
     Some (\<lparr>ax_command = command, ax_reserved = reserved, ax_offset = off\<rparr>, bs)
   }"

lemma length_write_andx [simp]: "length (write_andx a) = 4"
  by (simp add: write_andx_def)

lemma rd_andx_write_andx [codec_simps]: "rd_andx (write_andx a @ bs) = Some (a, bs)"
  by (simp add: write_andx_def rd_andx_def codec_simps)

end
