(* ===== verification/Offsets.thy ===== *)
theory Offsets
  imports Header
begin

text \<open>
  The byte area of a command under construction, tracking each block's absolute offset, and the
  bounded read of a block a server declared (\<open>wire/offsets.rs\<close>).
\<close>

record byte_area =
  area_start :: nat
  area_bytes :: bytes

definition area_at :: "nat \<Rightarrow> byte_area" where
  "area_at start = \<lparr>area_start = start, area_bytes = []\<rparr>"

definition for_word_count :: "nat \<Rightarrow> byte_area" where
  "for_word_count word_count = area_at (HEADER_LEN + 1 + word_count * 2 + 2)"

definition area_offset :: "byte_area \<Rightarrow> nat" where
  "area_offset a = area_start a + length (area_bytes a)"

definition area_len :: "byte_area \<Rightarrow> nat" where
  "area_len a = length (area_bytes a)"

text \<open>
  \<open>while !offset.is_multiple_of(align) { push(0) }\<close>.  The loop ends because one of the next
  \<open>align\<close> offsets is a multiple; with \<open>align = 0\<close> Rust's \<open>is_multiple_of\<close> holds
  of zero only, and every call site passes a literal 2, so the model requires a positive
  alignment to recurse.
\<close>

function align_to :: "nat \<Rightarrow> byte_area \<Rightarrow> byte_area" where
  "align_to align a =
     (if align = 0 \<or> area_offset a mod align = 0 then a
      else align_to align (a\<lparr>area_bytes := area_bytes a @ [0]\<rparr>))"
  by pat_completeness auto
termination
proof (relation "measure
    (\<lambda>(align, a). if area_offset a mod align = 0 then 0 else align - area_offset a mod align)",
    goal_cases)
  case 1
  then show ?case by simp
next
  case (2 align a)
  then have "area_offset a mod align < align" by simp
  then show ?case using 2 by (auto simp: area_offset_def mod_Suc)
qed

declare align_to.simps [simp del]

definition put :: "bytes \<Rightarrow> byte_area \<Rightarrow> nat \<times> byte_area" where
  "put block a = (area_offset a, a\<lparr>area_bytes := area_bytes a @ block\<rparr>)"

definition put_aligned :: "nat \<Rightarrow> bytes \<Rightarrow> byte_area \<Rightarrow> nat \<times> byte_area" where
  "put_aligned align block a = put block (align_to align a)"

text \<open>\<open>while area.offset() < to { area.put(&[0]) }\<close>, which three encoders write out.\<close>

function pad_until :: "nat \<Rightarrow> byte_area \<Rightarrow> byte_area" where
  "pad_until to a = (if area_offset a < to then pad_until to (snd (put [0] a)) else a)"
  by pat_completeness auto
termination
  by (relation "measure (\<lambda>(to, a). to - area_offset a)") (auto simp: area_offset_def put_def)

declare pad_until.simps [simp del]

definition NAME_ALIGNMENT :: nat where "NAME_ALIGNMENT = 2"

definition require_word_aligned :: "string \<Rightarrow> nat \<Rightarrow> wire_error + unit" where
  "require_word_aligned field off =
     (if off mod NAME_ALIGNMENT = 0 then Inr () else Inl (MisalignedName field off))"

text \<open>
  \<open>message.get(offset..)\<close> is absent past the end of the message, so an empty block at an
  offset beyond it is refused too.
\<close>

definition block_at :: "bytes \<Rightarrow> string \<Rightarrow> nat \<Rightarrow> nat \<Rightarrow> wire_error + bytes" where
  "block_at message field off len =
     ok_or (BlockOutOfRange field off len (length message)) (slice_at message off len)"

section \<open>Lemmas\<close>

lemma area_start_put [simp]: "area_start (snd (put b a)) = area_start a"
  by (simp add: put_def)

lemma area_bytes_put [simp]: "area_bytes (snd (put b a)) = area_bytes a @ b"
  by (simp add: put_def)

lemma fst_put [simp]: "fst (put b a) = area_offset a"
  by (simp add: put_def)

lemma area_offset_put [simp]: "area_offset (snd (put b a)) = area_offset a + length b"
  by (simp add: put_def area_offset_def)

text \<open>Two-byte alignment, the only one in use, adds one zero byte at an odd offset.\<close>

lemma align_to_2:
  "align_to 2 a = (if even (area_offset a) then a else a\<lparr>area_bytes := area_bytes a @ [0]\<rparr>)"
proof (cases "even (area_offset a)")
  case True
  then show ?thesis by (subst align_to.simps) auto
next
  case False
  then have "align_to 2 (a\<lparr>area_bytes := area_bytes a @ [0]\<rparr>) = a\<lparr>area_bytes := area_bytes a @ [0]\<rparr>"
    by (subst align_to.simps) (auto simp: area_offset_def)
  with False show ?thesis by (subst align_to.simps) (auto simp: even_iff_mod_2_eq_zero)
qed

lemma align_to_aligned: "0 < align \<Longrightarrow> area_offset (align_to align a) mod align = 0"
proof (induction align a rule: align_to.induct)
  case (1 align a)
  then show ?case by (subst align_to.simps) auto
qed

lemma pad_until_eq:
  "pad_until to a = a\<lparr>area_bytes := area_bytes a @ replicate (to - area_offset a) 0\<rparr>"
proof (induction to a rule: pad_until.induct)
  case (1 to a)
  show ?case
  proof (cases "area_offset a < to")
    case True
    then have "to - area_offset a = Suc (to - (area_offset a + 1))" by simp
    with True "1.IH" show ?thesis
      by (subst pad_until.simps) (simp add: put_def area_offset_def)
  next
    case False
    then show ?thesis by (subst pad_until.simps) simp
  qed
qed

lemma block_at_Inr_iff:
  "block_at m field off len = Inr b \<longleftrightarrow> off + len \<le> length m \<and> b = take len (drop off m)"
  by (simp add: block_at_def ok_or_Inr_iff slice_at_Some_iff)

lemma block_at_Inl_iff:
  "block_at m field off len = Inl e \<longleftrightarrow>
     length m < off + len \<and> e = BlockOutOfRange field off len (length m)"
  by (auto simp: block_at_def ok_or_Inl_iff slice_at_None_iff)

lemma block_at_length: "block_at m field off len = Inr b \<Longrightarrow> length b = len"
  by (auto simp: block_at_Inr_iff)

lemma block_at_append [simp]:
  "length xs = off \<Longrightarrow> length ys = len \<Longrightarrow> block_at (xs @ ys @ zs) field off len = Inr ys"
  by (simp add: block_at_Inr_iff)

lemma block_at_append_end [simp]:
  "length xs = off \<Longrightarrow> length ys = len \<Longrightarrow> block_at (xs @ ys) field off len = Inr ys"
  by (simp add: block_at_Inr_iff)

lemma for_word_count_simps [simp]:
  "area_bytes (for_word_count n) = []"
  "area_offset (for_word_count n) = HEADER_LEN + 3 + 2 * n"
  "area_start (for_word_count n) = HEADER_LEN + 3 + 2 * n"
  by (simp_all add: for_word_count_def area_at_def area_offset_def)

end
