(* ===== verification/Message.thy ===== *)
theory Message
  imports Offsets
begin

text \<open>
  One SMB1 message: parsing it out of a frame, the accessors the decoders work with, and the
  assembly of a message and its frame (\<open>wire/mod.rs\<close>).  \<open>ByteCount\<close> is carried and
  never used as a length.
\<close>

record message =
  header :: smb_header
  m_bytes :: bytes
  word_count :: u8
  byte_count :: u16

section \<open>Parsing\<close>

definition parse :: "bytes \<Rightarrow> wire_error + message" where
  "parse bs =
     rbind (case read_header bs of Inl e \<Rightarrow> Inl (Malformed e) | Inr h \<Rightarrow> Inr h) (\<lambda>h.
     rbind (if HEADER_LEN < length bs then Inr (bs ! HEADER_LEN)
            else Inl (Truncated ''WordCount'' (HEADER_LEN + 1) (length bs))) (\<lambda>wc.
     let byte_count_at = HEADER_LEN + 1 + unat wc * 2 in
     rbind (ok_or (Truncated ''words'' (byte_count_at + 2) (length bs))
              (slice_at bs byte_count_at 2)) (\<lambda>raw.
     Inr \<lparr>header = h, m_bytes = bs, word_count = wc, byte_count = u16_le (raw ! 0) (raw ! 1)\<rparr>)))"

definition as_bytes :: "message \<Rightarrow> bytes" where
  "as_bytes m = m_bytes m"

text \<open>
  \<open>&self.bytes[start..start + n]\<close> panics out of range; \<open>length_words\<close> below shows
  that it never is for a message \<open>parse\<close> returned.
\<close>

definition words :: "message \<Rightarrow> bytes" where
  "words m = take (unat (word_count m) * 2) (drop (HEADER_LEN + 1) (m_bytes m))"

definition byte_area_offset :: "message \<Rightarrow> nat" where
  "byte_area_offset m = HEADER_LEN + 1 + unat (word_count m) * 2 + 2"

definition block :: "message \<Rightarrow> string \<Rightarrow> nat \<Rightarrow> nat \<Rightarrow> wire_error + bytes" where
  "block m field off len = block_at (m_bytes m) field off len"

definition byte_area_of :: "message \<Rightarrow> wire_error + bytes" where
  "byte_area_of m = block m ''ByteCount'' (byte_area_offset m) (unat (byte_count m))"

definition byte_area_to_end :: "message \<Rightarrow> bytes" where
  "byte_area_to_end m = drop (byte_area_offset m) (m_bytes m)"

definition is_bodyless :: "message \<Rightarrow> bool" where
  "is_bodyless m \<longleftrightarrow> word_count m = 0"

definition expect_words :: "message \<Rightarrow> u8 \<Rightarrow> u8 list \<Rightarrow> string \<Rightarrow> wire_error + unit" where
  "expect_words m command accepted describe =
     (if h_command (header m) \<noteq> command
      then Inl (UnexpectedCommand command (h_command (header m)))
      else if word_count m \<in> set accepted then Inr ()
      else if is_bodyless m then Inl (NoResponseBody command (h_status (header m)))
      else Inl (UnexpectedWordCount command (word_count m) describe))"

text \<open>\<open>read_words\<close>: a derive's layout read out of a word block; what is left is ignored.\<close>

definition read_words :: "(bytes \<Rightarrow> ('a \<times> bytes) option) \<Rightarrow> bytes \<Rightarrow> wire_error + 'a" where
  "read_words rd ws = ok_or (Malformed UnexpectedEof) (map_option fst (rd ws))"

section \<open>Assembly\<close>

definition message_of :: "smb_header \<Rightarrow> bytes \<Rightarrow> wire_error + bytes" where
  "message_of h body = Inr (write_header h @ body)"

definition frame :: "bytes \<Rightarrow> wire_error + bytes" where
  "frame msg = rbind (encode_header (length msg)) (\<lambda>hdr. Inr (hdr @ msg))"

definition body :: "bytes \<Rightarrow> bytes \<Rightarrow> bytes" where
  "body ws area =
     le8 (of_nat (length ws div 2)) @ ws @ le16 (of_nat (length area)) @ area"

definition utf16z :: "rstr \<Rightarrow> bytes" where
  "utf16z text = units_le (encode_utf16 text) @ [0, 0]"

lemma length_utf16z [simp]: "length (utf16z text) = 2 * length (encode_utf16 text) + 2"
  by (simp add: utf16z_def)

definition from_utf16 :: "string \<Rightarrow> nat \<Rightarrow> bytes \<Rightarrow> wire_error + rstr" where
  "from_utf16 field position bs =
     (if odd (length bs) then Inl (InvalidUtf16 field position bs)
      else ok_or (InvalidUtf16 field position bs) (decode_utf16 (le_units bs)))"

section \<open>Well-formed messages\<close>

lemma parse_Inr_iff:
  "parse bs = Inr m \<longleftrightarrow>
     read_header bs = Inr (header m) \<and> m_bytes m = bs
     \<and> HEADER_LEN + 1 + unat (word_count m) * 2 + 2 \<le> length bs
     \<and> word_count m = bs ! HEADER_LEN
     \<and> byte_count m = u16_le (bs ! (HEADER_LEN + 1 + unat (word_count m) * 2))
                              (bs ! (HEADER_LEN + 2 + unat (word_count m) * 2))"
proof -
  have "message.more m = ()" by simp
  then have m: "m = \<lparr>header = h, m_bytes = b, word_count = w, byte_count = c\<rparr> \<longleftrightarrow>
      header m = h \<and> m_bytes m = b \<and> word_count m = w \<and> byte_count m = c" for h b w c
    by (cases m) auto
  show ?thesis
    by (cases "read_header bs")
       (auto simp: parse_def Let_def rbind_Inr_iff ok_or_Inr_iff slice_at_Some_iff m algebra_simps
         split: if_splits)
qed

lemma length_words: "parse bs = Inr m \<Longrightarrow> length (words m) = unat (word_count m) * 2"
  by (auto simp: parse_Inr_iff words_def)

lemma byte_area_offset_le: "parse bs = Inr m \<Longrightarrow> byte_area_offset m \<le> length (m_bytes m)"
  by (auto simp: parse_Inr_iff byte_area_offset_def)

text \<open>The message a header, a word block and a byte area make.\<close>

definition built :: "smb_header \<Rightarrow> bytes \<Rightarrow> bytes \<Rightarrow> message" where
  "built h ws area =
     \<lparr>header = h, m_bytes = write_header h @ body ws area,
      word_count = of_nat (length ws div 2), byte_count = of_nat (length area)\<rparr>"

definition wf_words :: "bytes \<Rightarrow> bool" where
  "wf_words ws \<longleftrightarrow> even (length ws) \<and> length ws \<le> 510"

lemma unat_word_count: "wf_words ws \<Longrightarrow> unat (of_nat (length ws div 2) :: u8) * 2 = length ws"
  by (auto simp: unat_of_nat wf_words_def)

lemma built_simps [simp]:
  "header (built h ws area) = h"
  "word_count (built h ws area) = of_nat (length ws div 2)"
  "byte_count (built h ws area) = of_nat (length area)"
  "m_bytes (built h ws area) = write_header h @ body ws area"
  by (simp_all add: built_def)

lemma length_body [simp]: "length (body ws area) = 3 + length ws + length area"
  by (simp add: body_def)

lemma parse_built:
  assumes "wf_header h" "wf_words ws"
  shows "parse (write_header h @ body ws area) = Inr (built h ws area)"
  unfolding parse_Inr_iff
  using assms unat_word_count [OF assms(2)]
  by (simp add: read_write_header body_def nth_append length_write_header le8_def le16_def
      u16_le_le16)

lemma words_built [simp]: "wf_header h \<Longrightarrow> wf_words ws \<Longrightarrow> words (built h ws area) = ws"
  by (simp add: words_def unat_word_count body_def length_write_header le8_def)

lemma byte_area_offset_built [simp]:
  "wf_words ws \<Longrightarrow> byte_area_offset (built h ws area) = HEADER_LEN + 1 + length ws + 2"
  by (simp add: byte_area_offset_def unat_word_count)

lemma block_built:
  assumes "wf_header h" "area = pre @ d @ post" "off = HEADER_LEN + 3 + length ws + length pre"
    "length d = len"
  shows "block (built h ws area) field off len = Inr d"
proof -
  have "write_header h @ body ws area
      = (write_header h @ le8 (of_nat (length ws div 2)) @ ws @ le16 (of_nat (length area)) @ pre)
        @ d @ post"
    by (simp add: body_def assms(2))
  then show ?thesis
    using assms
    unfolding block_def built_simps by (simp add: length_write_header del: append_assoc)
qed

lemma byte_area_to_end_built [simp]:
  "wf_header h \<Longrightarrow> wf_words ws \<Longrightarrow> byte_area_to_end (built h ws area) = area"
  by (simp add: byte_area_to_end_def body_def length_write_header)

text \<open>
  The interface between a command's codec and its word block: a fixed layout of \<open>n\<close> words
  that reads back what was written, whatever follows it.
\<close>

locale word_layout =
  fixes wr :: "'a \<Rightarrow> bytes"
    and rd :: "bytes \<Rightarrow> ('a \<times> bytes) option"
    and n :: nat
  assumes length_wr: "length (wr x) = 2 * n"
    and rd_wr: "rd (wr x @ rest) = Some (x, rest)"
    and n_bound: "n \<le> 255"
begin

lemma wf_words_wr: "even (length extra) \<Longrightarrow> 2 * n + length extra \<le> 510 \<Longrightarrow> wf_words (wr x @ extra)"
  by (simp add: wf_words_def length_wr)

lemma wf_words_plain: "wf_words (wr x)"
  using wf_words_wr [of "[]"] n_bound by simp

lemma read_words_wr: "read_words rd (wr x @ extra) = Inr x"
  by (simp add: read_words_def rd_wr)

lemma read_words_plain: "read_words rd (wr x) = Inr x"
  using read_words_wr [of x "[]"] by simp

lemma expect_words_built:
  "h_command h = c \<Longrightarrow> k = of_nat n \<Longrightarrow> expect_words (built h (wr x) area) c [k] d = Inr ()"
  by (simp add: expect_words_def length_wr)

end

text \<open>
  A message assembled from any header, a word block of at most 255 words and a byte area of
  any length parses back to that header and word block, its byte area starting where the encoder
  put it; its \<open>ByteCount\<close> is the area's length modulo 65,536, so it understates an area
  of 64 KiB or more.
\<close>

theorem message_roundtrip:
  assumes "wf_header h" "even (length ws)" "length ws \<le> 510"
  shows "\<exists>bs m. message_of h (body ws area) = Inr bs \<and> parse bs = Inr m
     \<and> header m = h \<and> words m = ws \<and> byte_area_to_end m = area
     \<and> byte_area_offset m = HEADER_LEN + 3 + length ws
     \<and> unat (byte_count m) = length area mod 65536"
  using assms
  by (intro exI [of _ "write_header h @ body ws area"] exI [of _ "built h ws area"])
     (simp add: message_of_def parse_built wf_words_def unat_of_nat)

theorem message_roundtrip_witness:
  "\<exists>bs m. message_of (header_request CMD_ECHO) (body [1, 0] (replicate 65537 7)) = Inr bs
     \<and> parse bs = Inr m \<and> header m = header_request CMD_ECHO \<and> words m = [1, 0]
     \<and> byte_area_to_end m = replicate 65537 7
     \<and> byte_area_offset m = HEADER_LEN + 3 + length [1 :: u8, 0]
     \<and> unat (byte_count m) = length (replicate 65537 (7 :: u8)) mod 65536"
  by (rule message_roundtrip) simp_all

lemma from_utf16_utf16:
  "valid_str cs \<Longrightarrow> from_utf16 field position (units_le (encode_utf16 cs)) = Inr cs"
  by (simp add: from_utf16_def decode_encode_utf16)

lemma from_utf16_Inr:
  "from_utf16 field position bs = Inr cs \<Longrightarrow> valid_str cs \<and> units_le (encode_utf16 cs) = bs"
  by (auto simp: from_utf16_def ok_or_Inr_iff units_le_le_units dest!: encode_decode_utf16
      split: if_splits)

lemma frame_Inr_iff:
  "frame msg = Inr f \<longleftrightarrow> (\<exists>hdr. encode_header (length msg) = Inr hdr \<and> f = hdr @ msg)"
  by (auto simp: frame_def rbind_Inr_iff)

text \<open>What the peer's decoder sees of an encoded body sent under a header.\<close>

definition delivered :: "smb_header \<Rightarrow> wire_error + bytes \<Rightarrow> (message \<Rightarrow> wire_error + 'a) \<Rightarrow> wire_error + 'a"
  where
  "delivered h encoded decode =
     rbind encoded (\<lambda>b. rbind (message_of h b) (\<lambda>bs. rbind (parse bs) decode))"

lemma delivered_body:
  "wf_header h \<Longrightarrow> wf_words ws \<Longrightarrow> delivered h (Inr (body ws area)) decode = decode (built h ws area)"
  by (simp add: delivered_def message_of_def parse_built)

lemma byte_area_built:
  "wf_header h \<Longrightarrow> wf_words ws \<Longrightarrow> length area < 65536 \<Longrightarrow> byte_area_of (built h ws area) = Inr area"
  unfolding byte_area_of_def
  by (rule block_built [where pre = "[]" and post = "[]"]) (simp_all add: unat_of_nat)

section \<open>Null-terminated names\<close>

text \<open>The index of the first null unit, of those \<open>as_chunks::<2>()\<close> gives.\<close>

fun nul_unit :: "u16 list \<Rightarrow> nat option" where
  "nul_unit [] = None"
| "nul_unit (u # us) = (if u = 0 then Some 0 else map_option Suc (nul_unit us))"

lemma le_units_append: "le_units (units_le us @ bs) = us @ le_units bs"
  by (induction us) (simp_all add: le16_def u16_le_le16)

lemma nul_unit_append: "0 \<notin> set us \<Longrightarrow> nul_unit (us @ 0 # vs) = Some (length us)"
  by (induction us) auto

text \<open>A name the null-terminated fields can carry.\<close>

definition name_ok :: "rstr \<Rightarrow> bool" where
  "name_ok text \<longleftrightarrow> valid_str text \<and> 0 \<notin> set text"

lemma utf16_char_nonzero: "scalar c \<Longrightarrow> c \<noteq> 0 \<Longrightarrow> 0 \<notin> set (utf16_char c)"
proof (cases "c < 0x10000")
  case True
  assume "c \<noteq> 0"
  moreover have "unat (of_nat c :: u16) = c" using True by (simp add: unat_of_nat)
  ultimately have "(of_nat c :: u16) \<noteq> 0" by (metis unat_0)
  then show ?thesis using True by (simp add: utf16_char_def)
next
  case False
  assume s: "scalar c"
  let ?h = "0xD800 + (c - 0x10000) div 1024" and ?l = "0xDC00 + (c - 0x10000) mod 1024"
  have "?h < 65536" using s False by (auto simp: scalar_def)
  moreover have "?l < 65536" using mod_less_divisor [of 1024 "c - 0x10000"] by linarith
  ultimately have "unat (of_nat ?h :: u16) = ?h" "unat (of_nat ?l :: u16) = ?l"
    by (simp_all only: unat_of_nat) simp_all
  then have "(of_nat ?h :: u16) \<noteq> 0" "(of_nat ?l :: u16) \<noteq> 0"
    by (metis add_is_0 unat_0 zero_neq_numeral)+
  then show ?thesis using False by (simp only: utf16_char_def) auto
qed

lemma encode_nonzero: "name_ok t \<Longrightarrow> 0 \<notin> set (encode_utf16 t)"
  by (induction t) (auto simp: name_ok_def utf16_char_nonzero)

end
