(* ===== verification/Io.thy ===== *)
theory Io
  imports Message
begin

text \<open>
  \<open>READ_ANDX\<close> and \<open>WRITE_ANDX\<close> (\<open>wire/io.rs\<close>), the commands whose payload may
  exceed what \<open>ByteCount\<close> can say, and \<open>SMB_COM_ECHO\<close> (\<open>wire/echo.rs\<close>).
\<close>

definition READ_WORDS :: u8 where "READ_WORDS = 12"
definition WRITE_REQUEST_WORDS :: u8 where "WRITE_REQUEST_WORDS = 14"
definition WRITE_RESPONSE_WORDS :: u8 where "WRITE_RESPONSE_WORDS = 6"

section \<open>Word blocks\<close>

record read_request_words =
  rq_andx :: andx
  rq_fid :: u16
  rq_offset :: u32
  rq_max_count :: u16
  rq_min_count :: u16
  rq_max_count_high :: u32
  rq_remaining :: u16
  rq_offset_high :: u32

definition wr_read_request_words :: "read_request_words \<Rightarrow> bytes" where
  "wr_read_request_words w =
     write_andx (rq_andx w) @ le16 (rq_fid w) @ le32 (rq_offset w) @ le16 (rq_max_count w)
     @ le16 (rq_min_count w) @ le32 (rq_max_count_high w) @ le16 (rq_remaining w)
     @ le32 (rq_offset_high w)"

definition rd_read_request_words :: "bytes \<Rightarrow> (read_request_words \<times> bytes) option" where
  "rd_read_request_words bs = do {
     (a, bs) \<leftarrow> rd_andx bs;
     (fid, bs) \<leftarrow> rd16 bs;
     (off, bs) \<leftarrow> rd32 bs;
     (max_count, bs) \<leftarrow> rd16 bs;
     (min_count, bs) \<leftarrow> rd16 bs;
     (max_count_high, bs) \<leftarrow> rd32 bs;
     (remaining, bs) \<leftarrow> rd16 bs;
     (offset_high, bs) \<leftarrow> rd32 bs;
     Some (\<lparr>rq_andx = a, rq_fid = fid, rq_offset = off, rq_max_count = max_count,
            rq_min_count = min_count, rq_max_count_high = max_count_high,
            rq_remaining = remaining, rq_offset_high = offset_high\<rparr>, bs)
   }"

interpretation read_request: word_layout wr_read_request_words rd_read_request_words 12
  by unfold_locales (simp_all add: wr_read_request_words_def rd_read_request_words_def codec_simps)

record read_response_words =
  rs_andx :: andx
  rs_available :: u16
  rs_data_compaction_mode :: u16
  rs_reserved :: u16
  rs_data_length :: u16
  rs_data_offset :: u16
  rs_data_length_high :: u16
  rs_reserved2 :: "u16 \<times> u16 \<times> u16 \<times> u16"

definition wr_read_response_words :: "read_response_words \<Rightarrow> bytes" where
  "wr_read_response_words w =
     write_andx (rs_andx w) @ le16 (rs_available w) @ le16 (rs_data_compaction_mode w)
     @ le16 (rs_reserved w) @ le16 (rs_data_length w) @ le16 (rs_data_offset w)
     @ le16 (rs_data_length_high w)
     @ (case rs_reserved2 w of (a, b, c, d) \<Rightarrow> le16 a @ le16 b @ le16 c @ le16 d)"

definition rd_read_response_words :: "bytes \<Rightarrow> (read_response_words \<times> bytes) option" where
  "rd_read_response_words bs = do {
     (a, bs) \<leftarrow> rd_andx bs;
     (available, bs) \<leftarrow> rd16 bs;
     (compaction, bs) \<leftarrow> rd16 bs;
     (reserved, bs) \<leftarrow> rd16 bs;
     (data_length, bs) \<leftarrow> rd16 bs;
     (data_offset, bs) \<leftarrow> rd16 bs;
     (data_length_high, bs) \<leftarrow> rd16 bs;
     (r0, bs) \<leftarrow> rd16 bs;
     (r1, bs) \<leftarrow> rd16 bs;
     (r2, bs) \<leftarrow> rd16 bs;
     (r3, bs) \<leftarrow> rd16 bs;
     Some (\<lparr>rs_andx = a, rs_available = available, rs_data_compaction_mode = compaction,
            rs_reserved = reserved, rs_data_length = data_length, rs_data_offset = data_offset,
            rs_data_length_high = data_length_high, rs_reserved2 = (r0, r1, r2, r3)\<rparr>, bs)
   }"

interpretation read_response: word_layout wr_read_response_words rd_read_response_words 12
  by unfold_locales
     (simp_all add: wr_read_response_words_def rd_read_response_words_def codec_simps
        split: prod.splits)

record write_request_words =
  wq_andx :: andx
  wq_fid :: u16
  wq_offset :: u32
  wq_timeout :: u32
  wq_write_mode :: u16
  wq_remaining :: u16
  wq_data_length_high :: u16
  wq_data_length :: u16
  wq_data_offset :: u16
  wq_offset_high :: u32

definition wr_write_request_words :: "write_request_words \<Rightarrow> bytes" where
  "wr_write_request_words w =
     write_andx (wq_andx w) @ le16 (wq_fid w) @ le32 (wq_offset w) @ le32 (wq_timeout w)
     @ le16 (wq_write_mode w) @ le16 (wq_remaining w) @ le16 (wq_data_length_high w)
     @ le16 (wq_data_length w) @ le16 (wq_data_offset w) @ le32 (wq_offset_high w)"

definition rd_write_request_words :: "bytes \<Rightarrow> (write_request_words \<times> bytes) option" where
  "rd_write_request_words bs = do {
     (a, bs) \<leftarrow> rd_andx bs;
     (fid, bs) \<leftarrow> rd16 bs;
     (off, bs) \<leftarrow> rd32 bs;
     (timeout, bs) \<leftarrow> rd32 bs;
     (write_mode, bs) \<leftarrow> rd16 bs;
     (remaining, bs) \<leftarrow> rd16 bs;
     (data_length_high, bs) \<leftarrow> rd16 bs;
     (data_length, bs) \<leftarrow> rd16 bs;
     (data_offset, bs) \<leftarrow> rd16 bs;
     (offset_high, bs) \<leftarrow> rd32 bs;
     Some (\<lparr>wq_andx = a, wq_fid = fid, wq_offset = off, wq_timeout = timeout,
            wq_write_mode = write_mode, wq_remaining = remaining,
            wq_data_length_high = data_length_high, wq_data_length = data_length,
            wq_data_offset = data_offset, wq_offset_high = offset_high\<rparr>, bs)
   }"

interpretation write_request: word_layout wr_write_request_words rd_write_request_words 14
  by unfold_locales (simp_all add: wr_write_request_words_def rd_write_request_words_def codec_simps)

record write_response_words =
  ws_andx :: andx
  ws_count :: u16
  ws_remaining :: u16
  ws_count_high :: u16
  ws_reserved :: u16

definition wr_write_response_words :: "write_response_words \<Rightarrow> bytes" where
  "wr_write_response_words w =
     write_andx (ws_andx w) @ le16 (ws_count w) @ le16 (ws_remaining w)
     @ le16 (ws_count_high w) @ le16 (ws_reserved w)"

definition rd_write_response_words :: "bytes \<Rightarrow> (write_response_words \<times> bytes) option" where
  "rd_write_response_words bs = do {
     (a, bs) \<leftarrow> rd_andx bs;
     (count, bs) \<leftarrow> rd16 bs;
     (remaining, bs) \<leftarrow> rd16 bs;
     (count_high, bs) \<leftarrow> rd16 bs;
     (reserved, bs) \<leftarrow> rd16 bs;
     Some (\<lparr>ws_andx = a, ws_count = count, ws_remaining = remaining,
            ws_count_high = count_high, ws_reserved = reserved\<rparr>, bs)
   }"

interpretation write_response: word_layout wr_write_response_words rd_write_response_words 6
  by unfold_locales (simp_all add: wr_write_response_words_def rd_write_response_words_def codec_simps)

section \<open>READ_ANDX\<close>

record read_request =
  rr_fid :: u16
  rr_offset :: u64
  rr_max_count :: u32
  rr_min_count :: u16
  rr_remaining :: u16

definition read_request_encode_body :: "read_request \<Rightarrow> wire_error + bytes" where
  "read_request_encode_body r =
     (let ws = \<lparr>rq_andx = ANDX_NONE, rq_fid = rr_fid r, rq_offset = ucast (rr_offset r),
                rq_max_count = ucast (rr_max_count r), rq_min_count = rr_min_count r,
                rq_max_count_high = drop_bit 16 (rr_max_count r), rq_remaining = rr_remaining r,
                rq_offset_high = ucast (drop_bit 32 (rr_offset r))\<rparr>
      in Inr (body (wr_read_request_words ws) []))"

definition read_request_decode :: "message \<Rightarrow> wire_error + read_request" where
  "read_request_decode m =
     rbind (expect_words m CMD_READ_ANDX [READ_WORDS] ''12'') (\<lambda>_.
     rbind (read_words rd_read_request_words (words m)) (\<lambda>w.
     Inr \<lparr>rr_fid = rq_fid w, rr_offset = join32 (rq_offset w) (rq_offset_high w),
          rr_max_count = ucast (rq_max_count w) OR push_bit 16 (rq_max_count_high w),
          rr_min_count = rq_min_count w, rr_remaining = rq_remaining w\<rparr>))"

record read_response =
  rp_andx :: andx
  rp_available :: u16
  rp_data_compaction_mode :: u16
  rp_data_offset :: u16
  rp_data :: bytes

definition read_response_decode :: "message \<Rightarrow> wire_error + read_response" where
  "read_response_decode m =
     rbind (expect_words m CMD_READ_ANDX [READ_WORDS] ''12'') (\<lambda>_.
     rbind (read_words rd_read_response_words (words m)) (\<lambda>w.
     rbind (refuse_chaining (rs_andx w)) (\<lambda>_.
     rbind (block m ''DataOffset'' (unat (rs_data_offset w))
              (join16 (rs_data_length w) (rs_data_length_high w))) (\<lambda>d.
     Inr \<lparr>rp_andx = rs_andx w, rp_available = rs_available w,
          rp_data_compaction_mode = rs_data_compaction_mode w,
          rp_data_offset = rs_data_offset w, rp_data = d\<rparr>))))"

definition read_response_encode_body :: "read_response \<Rightarrow> wire_error + bytes" where
  "read_response_encode_body r =
     (let area = for_word_count (unat READ_WORDS);
          area = pad_until (unat (rp_data_offset r)) area;
          area = snd (put (rp_data r) area);
          ws = \<lparr>rs_andx = rp_andx r, rs_available = rp_available r,
                rs_data_compaction_mode = rp_data_compaction_mode r, rs_reserved = 0,
                rs_data_length = of_nat (length (rp_data r)), rs_data_offset = rp_data_offset r,
                rs_data_length_high = of_nat (length (rp_data r) div 65536),
                rs_reserved2 = (0, 0, 0, 0)\<rparr>
      in Inr (body (wr_read_response_words ws) (area_bytes area)))"

section \<open>WRITE_ANDX\<close>

record write_request =
  wr_fid :: u16
  wr_offset :: u64
  wr_write_mode :: u16
  wr_remaining :: u16
  wr_data :: bytes

definition write_request_encode_body :: "write_request \<Rightarrow> wire_error + bytes" where
  "write_request_encode_body r =
     (let (data_offset, area) = put (wr_data r) (for_word_count (unat WRITE_REQUEST_WORDS));
          ws = \<lparr>wq_andx = ANDX_NONE, wq_fid = wr_fid r, wq_offset = ucast (wr_offset r),
                wq_timeout = 0, wq_write_mode = wr_write_mode r, wq_remaining = wr_remaining r,
                wq_data_length_high = of_nat (length (wr_data r) div 65536),
                wq_data_length = of_nat (length (wr_data r)), wq_data_offset = of_nat data_offset,
                wq_offset_high = ucast (drop_bit 32 (wr_offset r))\<rparr>
      in Inr (body (wr_write_request_words ws) (area_bytes area)))"

definition write_request_decode :: "message \<Rightarrow> wire_error + write_request" where
  "write_request_decode m =
     rbind (expect_words m CMD_WRITE_ANDX [WRITE_REQUEST_WORDS] ''14'') (\<lambda>_.
     rbind (read_words rd_write_request_words (words m)) (\<lambda>w.
     rbind (block m ''DataOffset'' (unat (wq_data_offset w))
              (join16 (wq_data_length w) (wq_data_length_high w))) (\<lambda>d.
     Inr \<lparr>wr_fid = wq_fid w, wr_offset = join32 (wq_offset w) (wq_offset_high w),
          wr_write_mode = wq_write_mode w, wr_remaining = wq_remaining w, wr_data = d\<rparr>)))"

record write_response =
  wp_andx :: andx
  wp_count :: u32
  wp_remaining :: u16

definition write_response_decode :: "message \<Rightarrow> wire_error + write_response" where
  "write_response_decode m =
     rbind (expect_words m CMD_WRITE_ANDX [WRITE_RESPONSE_WORDS] ''6'') (\<lambda>_.
     rbind (read_words rd_write_response_words (words m)) (\<lambda>w.
     rbind (refuse_chaining (ws_andx w)) (\<lambda>_.
     Inr \<lparr>wp_andx = ws_andx w, wp_count = join16_u32 (ws_count w) (ws_count_high w),
          wp_remaining = ws_remaining w\<rparr>)))"

definition write_response_encode_body :: "write_response \<Rightarrow> wire_error + bytes" where
  "write_response_encode_body r =
     (let ws = \<lparr>ws_andx = wp_andx r, ws_count = ucast (wp_count r), ws_remaining = wp_remaining r,
                ws_count_high = ucast (drop_bit 16 (wp_count r)), ws_reserved = 0\<rparr>
      in Inr (body (wr_write_response_words ws) []))"

section \<open>SMB_COM_ECHO\<close>

definition PROBE_ECHO_COUNT :: u16 where "PROBE_ECHO_COUNT = 1"

record echo_request =
  echo_count :: u16

definition echo_probe :: echo_request where
  "echo_probe = \<lparr>echo_count = PROBE_ECHO_COUNT\<rparr>"

definition echo_encode_body :: "echo_request \<Rightarrow> wire_error + bytes" where
  "echo_encode_body r = Inr (body (le16 (echo_count r)) [])"

section \<open>Round trips\<close>

lemmas io_word_counts = READ_WORDS_def WRITE_REQUEST_WORDS_def WRITE_RESPONSE_WORDS_def

lemma max_count_split: "ucast (ucast (w :: u32) :: u16) OR push_bit 16 (drop_bit 16 w) = w"
proof (rule bit_word_eqI)
  fix n
  assume "n < LENGTH(32)"
  then consider "n < 16" | "16 \<le> n" by linarith
  then show "bit (ucast (ucast w :: u16) OR push_bit 16 (drop_bit 16 w)) n = bit w n"
    by cases (auto simp: bit_simps dest: bit_imp_le_length)
qed

text \<open>
  A read reply of any length the two length fields can carry decodes to exactly the payload
  that was encoded, wherever the payload was placed past the words, though \<open>ByteCount\<close> wraps
  at 64 KiB.
\<close>

theorem read_response_roundtrip:
  assumes "wf_header h" "h_command h = CMD_READ_ANDX" "ax_command (rp_andx r) = NO_FURTHER_COMMAND"
    and "59 \<le> unat (rp_data_offset r)" "length (rp_data r) < 2 ^ 32"
  shows "delivered h (read_response_encode_body r) read_response_decode = Inr r"
proof -
  let ?n = "unat (rp_data_offset r) - 59"
  have blk: "block (built h (wr_read_response_words w) (replicate ?n 0 @ rp_data r)) f
      (unat (rp_data_offset r)) (length (rp_data r)) = Inr (rp_data r)" for w f
    using assms by (intro block_built [where post = "[]"]) (auto simp: read_response.length_wr HEADER_LEN_def)
  show ?thesis
    using assms
    by (simp add: read_response_encode_body_def pad_until_eq delivered_body
        read_response.wf_words_plain read_response_decode_def io_word_counts HEADER_LEN_def
        read_response.expect_words_built read_response.read_words_plain refuse_chaining_def
        join16_split blk)
qed

theorem read_response_roundtrip_witness:
  "let r = \<lparr>rp_andx = ANDX_NONE, rp_available = 0xFFFF, rp_data_compaction_mode = 0,
            rp_data_offset = 60, rp_data = replicate 130048 0xAB\<rparr>
   in delivered (header_request CMD_READ_ANDX) (read_response_encode_body r)
        read_response_decode = Inr r"
  unfolding Let_def
  by (rule read_response_roundtrip) (simp_all add: ANDX_NONE_def)

lemma read_request_roundtrip:
  assumes "wf_header h" "h_command h = CMD_READ_ANDX"
  shows "delivered h (read_request_encode_body r) read_request_decode = Inr r"
  using assms
  by (simp add: read_request_encode_body_def delivered_body read_request.wf_words_plain
      read_request_decode_def io_word_counts read_request.expect_words_built
      read_request.read_words_plain join32_split max_count_split)

lemma write_response_roundtrip:
  assumes "wf_header h" "h_command h = CMD_WRITE_ANDX"
    "ax_command (wp_andx r) = NO_FURTHER_COMMAND"
  shows "delivered h (write_response_encode_body r) write_response_decode = Inr r"
  using assms
  by (simp add: write_response_encode_body_def delivered_body write_response.wf_words_plain
      write_response_decode_def io_word_counts write_response.expect_words_built
      write_response.read_words_plain join16_u32_split refuse_chaining_def)

text \<open>
  A write request's payload is found whole by the decoder whatever its length, unpadded at
  byte 63, and its 64-bit file offset travels in two fields.
\<close>

theorem write_request_roundtrip:
  assumes "wf_header h" "h_command h = CMD_WRITE_ANDX" "length (wr_data r) < 2 ^ 32"
  shows "delivered h (write_request_encode_body r) write_request_decode = Inr r"
proof -
  have blk: "block (built h (wr_write_request_words w) (wr_data r)) f 63 (length (wr_data r))
      = Inr (wr_data r)" for w f
    using assms
    by (intro block_built [where pre = "[]" and post = "[]"])
       (auto simp: write_request.length_wr HEADER_LEN_def)
  show ?thesis
    using assms
    by (simp add: write_request_encode_body_def put_def delivered_body
        write_request.wf_words_plain write_request_decode_def io_word_counts HEADER_LEN_def
        write_request.expect_words_built write_request.read_words_plain join32_split
        join16_split blk)
qed

theorem write_request_roundtrip_witness:
  "let r = \<lparr>wr_fid = 0xCB69, wr_offset = 0x312345678, wr_write_mode = 0, wr_remaining = 0,
            wr_data = replicate 130048 0xAB\<rparr>
   in delivered (header_request CMD_WRITE_ANDX) (write_request_encode_body r)
        write_request_decode = Inr r"
  unfolding Let_def
  by (rule write_request_roundtrip) simp_all

end
