(* ===== verification/Coverage.thy ===== *)
theory Coverage
  imports Prelude
begin

text \<open>
  The coverage map (\<open>Coverage\<close> in \<open>connection/reassembly.rs\<close>): which bytes of a range
  have arrived, as sorted, disjoint, merged half-open ranges.  The reassembly tracks, the read
  fill loop and the write progress handle all use it, through the interface stated here as the
  locale \<open>byte_ranges\<close>.
\<close>

type_synonym coverage = "(nat \<times> nat) list"

definition cov_empty :: coverage where "cov_empty = []"

text \<open>\<open>partition_point\<close> on a list partitioned by the predicate, and \<open>Vec::remove\<close>.\<close>

definition partition_point :: "('a \<Rightarrow> bool) \<Rightarrow> 'a list \<Rightarrow> nat" where
  "partition_point P xs = length (takeWhile P xs)"

definition remove_at :: "nat \<Rightarrow> 'a list \<Rightarrow> 'a list" where
  "remove_at i xs = take i xs @ drop (Suc i) xs"

definition insert_at :: "nat \<Rightarrow> 'a \<Rightarrow> 'a list \<Rightarrow> 'a list" where
  "insert_at i x xs = take i xs @ x # drop i xs"

definition merge_right :: "nat \<Rightarrow> coverage \<Rightarrow> coverage" where
  "merge_right at rs =
     (if at + 1 < length rs \<and> snd (rs ! at) = fst (rs ! (at + 1))
      then remove_at (at + 1) (rs[at := (fst (rs ! at), snd (rs ! (at + 1)))])
      else rs)"

definition merge_left :: "nat \<Rightarrow> coverage \<Rightarrow> coverage" where
  "merge_left at rs =
     (if 0 < at \<and> snd (rs ! (at - 1)) = fst (rs ! at)
      then remove_at at (rs[at - 1 := (fst (rs ! (at - 1)), snd (rs ! at))])
      else rs)"

definition cover :: "nat \<Rightarrow> nat \<Rightarrow> coverage \<Rightarrow> bool \<times> coverage" where
  "cover start len rs =
     (if len = 0 then (True, rs)
      else
        let stop = start + len; at = partition_point (\<lambda>(from, _). from < start) rs in
        if 0 < at \<and> start < snd (rs ! (at - 1)) then (False, rs)
        else if at < length rs \<and> fst (rs ! at) < stop then (False, rs)
        else (True, merge_left at (merge_right at (insert_at at (start, stop) rs))))"

definition cov_truncate :: "nat \<Rightarrow> coverage \<Rightarrow> coverage" where
  "cov_truncate tot rs =
     (let kept = filter (\<lambda>(from, _). from < tot) rs in
      if kept = [] then []
      else butlast kept @ [(fst (last kept), min (snd (last kept)) tot)])"

fun gap_from :: "nat \<Rightarrow> nat \<Rightarrow> coverage \<Rightarrow> (nat \<times> nat) option" where
  "gap_from tot at [] = (if at < tot then Some (at, tot) else None)"
| "gap_from tot at ((from, to) # rs) =
     (if at < from then Some (at, min from tot)
      else if tot \<le> to then None
      else gap_from tot to rs)"

definition gap :: "nat \<Rightarrow> coverage \<Rightarrow> (nat \<times> nat) option" where
  "gap tot rs = gap_from tot 0 rs"

definition prefix_len :: "coverage \<Rightarrow> nat" where
  "prefix_len rs = (case rs of (from, stop) # _ \<Rightarrow> (if from = 0 then stop else 0) | [] \<Rightarrow> 0)"

definition covers :: "nat \<Rightarrow> coverage \<Rightarrow> bool" where
  "covers tot rs =
     (case rs of
        [] \<Rightarrow> tot = 0
      | [(from, stop)] \<Rightarrow> from = 0 \<and> stop = tot
      | _ \<Rightarrow> False)"

section \<open>Invariant and abstraction\<close>

definition cov_inv :: "coverage \<Rightarrow> bool" where
  "cov_inv rs \<longleftrightarrow> sorted_wrt (\<lambda>p q. snd p < fst q) rs \<and> (\<forall>p \<in> set rs. fst p < snd p)"

definition covered :: "coverage \<Rightarrow> nat set" where
  "covered rs = (\<Union>p \<in> set rs. {fst p..<snd p})"

lemma cov_inv_simps [simp]:
  "cov_inv []"
  "cov_inv (p # rs) \<longleftrightarrow> fst p < snd p \<and> (\<forall>q \<in> set rs. snd p < fst q) \<and> cov_inv rs"
  "cov_inv (xs @ ys) \<longleftrightarrow> cov_inv xs \<and> cov_inv ys \<and> (\<forall>p \<in> set xs. \<forall>q \<in> set ys. snd p < fst q)"
  by (auto simp: cov_inv_def sorted_wrt_append)

lemma covered_simps [simp]:
  "covered [] = {}"
  "covered (p # rs) = {fst p..<snd p} \<union> covered rs"
  "covered (xs @ ys) = covered xs \<union> covered ys"
  by (auto simp: covered_def)

lemma finite_covered [simp]: "finite (covered rs)"
  by (simp add: covered_def)

lemma covered_bounds:
  "i \<in> covered rs \<Longrightarrow> \<forall>p \<in> set rs. lo \<le> fst p \<and> snd p \<le> hi \<Longrightarrow> lo \<le> i \<and> i < hi"
  by (auto simp: covered_def)

text \<open>Where a position splits a map: everything before begins below it, everything after does not.\<close>

lemma cover_split:
  assumes inv: "cov_inv rs"
  obtains pre post where "rs = pre @ post" "\<forall>p \<in> set pre. fst p < start"
    "\<forall>p \<in> set post. start \<le> fst p"
    "partition_point (\<lambda>(from, _). from < start) rs = length pre"
proof
  let ?P = "\<lambda>(from, _). from < start"
  show "rs = takeWhile ?P rs @ dropWhile ?P rs" by simp
  show "\<forall>p \<in> set (takeWhile ?P rs). fst p < start" by (auto dest: set_takeWhileD)
  show "partition_point ?P rs = length (takeWhile ?P rs)" by (simp add: partition_point_def)
  show "\<forall>p \<in> set (dropWhile ?P rs). start \<le> fst p"
  proof (cases "dropWhile ?P rs")
    case Nil
    show ?thesis unfolding Nil by simp
  next
    case (Cons p ps)
    then have "\<not> fst p < start" using hd_dropWhile [of ?P rs] by (cases p) auto
    moreover have "cov_inv (p # ps)"
      using inv Cons takeWhile_dropWhile_id [of ?P rs] by (metis cov_inv_simps(3))
    ultimately show ?thesis unfolding Cons by auto
  qed
qed

lemma merge_right_at:
  "merge_right (length pre) (pre @ (a, b) # post) =
     (case post of
        (c, d) # post' \<Rightarrow> if b = c then pre @ (a, d) # post' else pre @ (a, b) # post
      | [] \<Rightarrow> pre @ [(a, b)])"
  by (cases post) (auto simp: merge_right_def remove_at_def nth_append list_update_append)

lemma merge_left_at:
  "merge_left (length pre) (pre @ (a, b) # post) =
     (if pre \<noteq> [] \<and> snd (last pre) = a
      then butlast pre @ (fst (last pre), b) # post
      else pre @ (a, b) # post)"
proof (cases pre rule: rev_cases)
  case Nil
  then show ?thesis by (simp add: merge_left_def)
next
  case (snoc ps p)
  then show ?thesis
    by (auto simp: merge_left_def remove_at_def nth_append list_update_append)
qed

lemma cover_refused_iff:
  assumes "cov_inv (pre @ post)" "\<forall>p \<in> set pre. fst p < start" "\<forall>p \<in> set post. start \<le> fst p"
    and "0 < len"
  shows "(pre \<noteq> [] \<and> start < snd (last pre)) \<or> (post \<noteq> [] \<and> fst (hd post) < start + len)
     \<longleftrightarrow> {start..<start + len} \<inter> covered (pre @ post) \<noteq> {}"
proof
  assume "(pre \<noteq> [] \<and> start < snd (last pre)) \<or> (post \<noteq> [] \<and> fst (hd post) < start + len)"
  then show "{start..<start + len} \<inter> covered (pre @ post) \<noteq> {}"
  proof
    assume *: "pre \<noteq> [] \<and> start < snd (last pre)"
    then have "start \<in> covered pre"
      using assms(2) last_in_set [of pre] by (auto simp: covered_def intro!: bexI [of _ "last pre"] less_imp_le)
    moreover have "start \<in> {start..<start + len}" using assms(4) by simp
    ultimately show ?thesis by (simp only: covered_simps) blast
  next
    assume *: "post \<noteq> [] \<and> fst (hd post) < start + len"
    then have "fst (hd post) \<in> covered post"
      using assms(1) by (cases post) auto
    moreover have "start \<le> fst (hd post)" using * assms(3) by (cases post) auto
    ultimately show ?thesis using * by auto
  qed
next
  assume "{start..<start + len} \<inter> covered (pre @ post) \<noteq> {}"
  then obtain i where "i \<in> {start..<start + len}" "i \<in> covered pre \<or> i \<in> covered post"
    unfolding covered_simps by blast
  then have i: "start \<le> i" "i < start + len" "i \<in> covered pre \<or> i \<in> covered post" by simp_all
  from i(3) show "(pre \<noteq> [] \<and> start < snd (last pre)) \<or> (post \<noteq> [] \<and> fst (hd post) < start + len)"
  proof
    assume "i \<in> covered pre"
    then obtain p where p: "p \<in> set pre" "i < snd p" by (auto simp: covered_def)
    have "snd p \<le> snd (last pre)"
      using p(1) assms(1) by (cases pre rule: rev_cases) (auto dest!: bspec)
    with p i show ?thesis by (auto intro: less_le_trans)
  next
    assume "i \<in> covered post"
    then obtain p where p: "p \<in> set post" "fst p \<le> i" by (auto simp: covered_def)
    have "fst (hd post) \<le> fst p"
      using p(1) assms(1) by (cases post) (auto dest!: bspec)
    with p i show ?thesis by auto
  qed
qed

lemma cover_eq:
  assumes inv: "cov_inv rs" and len: "0 < len"
  obtains pre post where "rs = pre @ post" "\<forall>p \<in> set pre. fst p < start"
    "\<forall>p \<in> set post. start \<le> fst p"
    "cover start len rs =
       (if (pre \<noteq> [] \<and> start < snd (last pre)) \<or> (post \<noteq> [] \<and> fst (hd post) < start + len)
        then (False, rs)
        else (True, merge_left (length pre)
                      (merge_right (length pre) (pre @ (start, start + len) # post))))"
proof -
  from cover_split [OF inv, of start] obtain pre post where
    s: "rs = pre @ post" "\<forall>p \<in> set pre. fst p < start" "\<forall>p \<in> set post. start \<le> fst p"
       "partition_point (\<lambda>(from, _). from < start) rs = length pre" .
  have l: "0 < length pre \<and> start < snd (rs ! (length pre - 1)) \<longleftrightarrow> pre \<noteq> [] \<and> start < snd (last pre)"
    by (auto simp: s(1) nth_append last_conv_nth)
  have r: "length pre < length rs \<and> fst (rs ! length pre) < start + len
      \<longleftrightarrow> post \<noteq> [] \<and> fst (hd post) < start + len"
    by (auto simp: s(1) nth_append hd_conv_nth)
  have ins: "insert_at (length pre) (start, start + len) rs = pre @ (start, start + len) # post"
    by (simp add: insert_at_def s(1))
  show thesis
    by (intro that [OF s(1-3)]) (simp only: cover_def Let_def s(4) l r ins, use len in auto)
qed

text \<open>An accepted range is merged with the neighbours it touches, and nothing else changes.\<close>

lemma merge_inv:
  assumes inv: "cov_inv (pre @ post)" and lt: "a < b"
    and l: "pre \<noteq> [] \<Longrightarrow> snd (last pre) \<le> a" and r: "post \<noteq> [] \<Longrightarrow> b \<le> fst (hd post)"
  shows "cov_inv (merge_left (length pre) (merge_right (length pre) (pre @ (a, b) # post)))
     \<and> covered (merge_left (length pre) (merge_right (length pre) (pre @ (a, b) # post)))
         = covered (pre @ post) \<union> {a..<b}"
proof -
  have right: "\<exists>d post'. merge_right (length pre) (pre @ (a, b) # post) = pre @ (a, d) # post'
      \<and> b \<le> d \<and> cov_inv ((a, d) # post') \<and> covered ((a, d) # post') = covered post \<union> {a..<b}
      \<and> set post' \<subseteq> set post"
  proof (cases post)
    case Nil
    then show ?thesis using lt by (simp add: merge_right_at)
  next
    case (Cons q post')
    obtain c d where q: "q = (c, d)" by (cases q)
    have "b \<le> c" "c < d" "cov_inv post'" "\<forall>q \<in> set post'. d < fst q"
      using r inv by (auto simp: Cons q)
    then show ?thesis
      using lt unfolding Cons q merge_right_at by (cases "b = c") (auto intro: less_trans)
  qed
  then obtain d post' where R: "merge_right (length pre) (pre @ (a, b) # post) = pre @ (a, d) # post'"
      "b \<le> d" "cov_inv ((a, d) # post')" "covered ((a, d) # post') = covered post \<union> {a..<b}"
      "set post' \<subseteq> set post" by blast
  show ?thesis
  proof (cases pre rule: rev_cases)
    case Nil
    then show ?thesis using R by (simp add: merge_left_at [of "[]", simplified])
  next
    case (snoc ps p)
    have before: "\<forall>q \<in> set post'. snd p < fst q \<and> (\<forall>x \<in> set ps. snd x < fst q)"
      using inv R(5) by (auto simp: snoc)
    have p: "fst p < snd p" "snd p \<le> a" "\<forall>x \<in> set ps. snd x < fst p" "cov_inv ps"
      using inv l by (auto simp: snoc)
    have ad: "a < d" "cov_inv post'" "\<forall>q \<in> set post'. d < fst q"
      using R(3) by auto
    have "cov_inv (merge_left (length pre) (pre @ (a, d) # post'))"
      unfolding merge_left_at using before p ad by (fastforce simp: snoc)
    moreover have "covered (merge_left (length pre) (pre @ (a, d) # post'))
        = covered pre \<union> covered ((a, d) # post')"
      unfolding merge_left_at using p ad by (auto simp: snoc)
    ultimately show ?thesis unfolding R(1) R(4) by auto
  qed
qed

lemma cover_spec:
  assumes inv: "cov_inv rs"
  shows "fst (cover start len rs) \<longleftrightarrow> {start..<start + len} \<inter> covered rs = {}"
    and "cov_inv (snd (cover start len rs))"
    and "covered (snd (cover start len rs)) =
      (if {start..<start + len} \<inter> covered rs = {} then covered rs \<union> {start..<start + len}
       else covered rs)"
proof -
  have "(fst (cover start len rs) \<longleftrightarrow> {start..<start + len} \<inter> covered rs = {})
    \<and> cov_inv (snd (cover start len rs))
    \<and> covered (snd (cover start len rs)) =
      (if {start..<start + len} \<inter> covered rs = {} then covered rs \<union> {start..<start + len}
       else covered rs)"
  proof (cases "len = 0")
    case True
    then show ?thesis using inv by (simp add: cover_def)
  next
    case False
    then have len: "0 < len" by simp
    obtain pre post where s: "rs = pre @ post" "\<forall>p \<in> set pre. fst p < start"
      "\<forall>p \<in> set post. start \<le> fst p"
      "cover start len rs =
         (if (pre \<noteq> [] \<and> start < snd (last pre)) \<or> (post \<noteq> [] \<and> fst (hd post) < start + len)
          then (False, rs)
          else (True, merge_left (length pre)
                      (merge_right (length pre) (pre @ (start, start + len) # post))))"
      using cover_eq [OF inv len] .
    note iff = cover_refused_iff [OF inv [unfolded s(1)] s(2,3) len]
    show ?thesis
    proof (cases "(pre \<noteq> [] \<and> start < snd (last pre)) \<or> (post \<noteq> [] \<and> fst (hd post) < start + len)")
      case True
      then have "cover start len rs = (False, rs)" using s(4) by simp
      moreover have "{start..<start + len} \<inter> covered rs \<noteq> {}" using True iff s(1) by simp
      ultimately show ?thesis using inv by simp
    next
      case False
      then have d: "{start..<start + len} \<inter> covered rs = {}" using iff s(1) by blast
      have "cov_inv (snd (cover start len rs))
          \<and> covered (snd (cover start len rs)) = covered (pre @ post) \<union> {start..<start + len}"
        unfolding s(4) if_not_P [OF False] snd_conv
        using False inv [unfolded s(1)] len by (intro merge_inv) auto
      moreover have "fst (cover start len rs)" using False s(4) by simp
      ultimately show ?thesis using d s(1) by simp
    qed
  qed
  then show "fst (cover start len rs) \<longleftrightarrow> {start..<start + len} \<inter> covered rs = {}"
    and "cov_inv (snd (cover start len rs))"
    and "covered (snd (cover start len rs)) =
      (if {start..<start + len} \<inter> covered rs = {} then covered rs \<union> {start..<start + len}
       else covered rs)"
    by blast+
qed

lemma filter_from:
  assumes "cov_inv rs"
  shows "cov_truncate tot rs = map (\<lambda>p. (fst p, min (snd p) tot)) (filter (\<lambda>p. fst p < tot) rs)"
  using assms
proof (induction rs rule: rev_induct)
  case Nil
  then show ?case by (simp add: cov_truncate_def)
next
  case (snoc p rs)
  show ?case
  proof (cases "fst p < tot")
    case True
    have "\<forall>q \<in> set rs. snd q < fst p" "\<forall>q \<in> set rs. fst q < snd q"
      using snoc.prems by (auto simp: cov_inv_def sorted_wrt_append)
    then have "\<forall>q \<in> set rs. fst q < tot \<and> min (snd q) tot = snd q"
      using True by (fastforce simp: min_def)
    then have "filter (\<lambda>p. fst p < tot) rs = rs" "map (\<lambda>p. (fst p, min (snd p) tot)) rs = rs"
      by (auto intro!: filter_True map_idI)
    then show ?thesis
      using True by (simp add: cov_truncate_def case_prod_unfold)
  next
    case False
    then have "cov_truncate tot (rs @ [p]) = cov_truncate tot rs" by (simp add: cov_truncate_def case_prod_unfold)
    with snoc False show ?thesis by simp
  qed
qed

lemma cov_truncate_spec:
  assumes "cov_inv rs"
  shows "cov_inv (cov_truncate tot rs)" and "covered (cov_truncate tot rs) = covered rs \<inter> {..<tot}"
proof -
  show "cov_inv (cov_truncate tot rs)"
    unfolding filter_from [OF assms] using assms
    by (induction rs) (auto simp: min_def intro: less_trans le_less_trans)
  show "covered (cov_truncate tot rs) = covered rs \<inter> {..<tot}"
    unfolding filter_from [OF assms] by (auto simp: covered_def)
qed

lemma covers_iff:
  assumes "cov_inv rs"
  shows "covers tot rs \<longleftrightarrow> covered rs = {..<tot}"
proof (cases rs)
  case Nil
  then show ?thesis by (auto simp: covers_def)
next
  case (Cons p ps)
  obtain a b where p: "p = (a, b)" by (cases p)
  have ab: "a < b" using assms by (simp add: Cons p)
  show ?thesis
  proof (cases ps)
    case Nil
    have "{a..<b} = {..<tot} \<longleftrightarrow> a = 0 \<and> b = tot"
    proof
      assume *: "{a..<b} = {..<tot}"
      then have "a \<in> {..<tot}" using ab by (metis atLeastLessThan_iff order_refl)
      then have "0 \<in> {a..<b}" using * by auto
      then have "a = 0" by simp
      with * show "a = 0 \<and> b = tot" by (simp add: lessThan_atLeast0 [symmetric])
    qed auto
    then show ?thesis by (simp add: covers_def Cons p Nil)
  next
    case (Cons q qs)
    have "b < fst q" "fst q < snd q" using assms by (simp_all add: \<open>rs = p # ps\<close> p Cons)
    moreover have "b \<notin> covered qs"
      using assms \<open>b < fst q\<close> \<open>fst q < snd q\<close>
      by (auto simp: \<open>rs = p # ps\<close> p Cons covered_def)
    ultimately have "b \<notin> covered rs" "fst q \<in> covered rs"
      by (auto simp: \<open>rs = p # ps\<close> p Cons)
    then have "covered rs \<noteq> {..<tot}" using \<open>b < fst q\<close> by (metis lessThan_iff less_trans)
    then show ?thesis by (simp add: covers_def \<open>rs = p # ps\<close> p Cons)
  qed
qed

lemma gap_from_spec:
  assumes "cov_inv rs" "\<forall>p \<in> set rs. lo \<le> fst p" "lo < tot"
  shows "case gap_from tot lo rs of
      None \<Rightarrow> {lo..<tot} \<subseteq> covered rs
    | Some (a, b) \<Rightarrow> lo \<le> a \<and> a < b \<and> b \<le> tot \<and> {lo..<a} \<subseteq> covered rs
        \<and> {a..<b} \<inter> covered rs = {} \<and> (b < tot \<longrightarrow> b \<in> covered rs)"
  using assms
proof (induction tot lo rs rule: gap_from.induct)
  case (1 tot at)
  then show ?case by simp
next
  case (2 tot at lo hi rs)
  have disj: "\<forall>q \<in> set rs. hi < fst q" and ft: "lo < hi" and inv: "cov_inv rs"
    using "2.prems" by auto
  consider "at < lo" | "at = lo" "tot \<le> hi" | "at = lo" "hi < tot"
    using "2.prems"(2) by fastforce
  then show ?case
  proof cases
    case 1
    have "{at..<min lo tot} \<inter> covered ((lo, hi) # rs) = {}"
      using disj ft by (auto simp: covered_def)
    moreover have "min lo tot < tot \<Longrightarrow> min lo tot \<in> covered ((lo, hi) # rs)"
      using ft by (auto simp: min_def split: if_splits)
    ultimately show ?thesis using 1 "2.prems"(3) by simp
  next
    case 2
    then show ?thesis by auto
  next
    case 3
    have IH: "case gap_from tot hi rs of
        None \<Rightarrow> {hi..<tot} \<subseteq> covered rs
      | Some (a, b) \<Rightarrow> hi \<le> a \<and> a < b \<and> b \<le> tot \<and> {hi..<a} \<subseteq> covered rs
          \<and> {a..<b} \<inter> covered rs = {} \<and> (b < tot \<longrightarrow> b \<in> covered rs)"
      using 3 disj inv by (intro "2.IH") (simp_all add: less_imp_le)
    have step: "gap_from tot at ((lo, hi) # rs) = gap_from tot hi rs" using 3 by simp
    have cov: "covered ((lo, hi) # rs) = {at..<hi} \<union> covered rs" using 3 by simp
    show ?thesis
    proof (cases "gap_from tot hi rs")
      case None
      have "{at..<tot} \<subseteq> {at..<hi} \<union> {hi..<tot}" by auto
      then show ?thesis using IH unfolding step cov None by auto
    next
      case (Some p)
      obtain a b where p: "p = (a, b)" by (cases p)
      have *: "hi \<le> a" "a < b" "b \<le> tot" "{hi..<a} \<subseteq> covered rs" "{a..<b} \<inter> covered rs = {}"
          "b < tot \<longrightarrow> b \<in> covered rs"
        using IH unfolding Some p by simp_all
      have "{at..<a} \<subseteq> {at..<hi} \<union> {hi..<a}" by auto
      moreover have "{a..<b} \<inter> {at..<hi} = {}" using *(1) by auto
      moreover have "at \<le> a" using *(1) 3 ft by simp
      ultimately show ?thesis using * unfolding step cov Some p option.case prod.case by blast
    qed
  qed
qed

lemma prefix_len_spec:
  assumes "cov_inv rs"
  shows "{..<prefix_len rs} \<subseteq> covered rs" and "prefix_len rs \<notin> covered rs"
proof -
  have "{..<prefix_len rs} \<subseteq> covered rs \<and> prefix_len rs \<notin> covered rs"
  proof (cases rs)
    case Nil
    then show ?thesis by (simp add: prefix_len_def)
  next
    case (Cons p ps)
    obtain a b where p: "p = (a, b)" by (cases p)
    have "a < b" "\<forall>q \<in> set ps. b < fst q" using assms by (auto simp: Cons p)
    then show ?thesis
      by (auto simp: Cons p prefix_len_def covered_def)
  qed
  then show "{..<prefix_len rs} \<subseteq> covered rs" "prefix_len rs \<notin> covered rs" by auto
qed

section \<open>The interface its clients rely on\<close>

text \<open>
  The reassembly tracks and the write progress see a coverage map only through these laws: an
  accepted range adds exactly its bytes, an overlapping one changes nothing, truncation forgets
  only what lies past the new total, completeness is every byte below the total and nothing else,
  and the prefix ends at the first byte not held.
\<close>

locale byte_ranges =
  fixes none :: 'c
    and add :: "nat \<Rightarrow> nat \<Rightarrow> 'c \<Rightarrow> bool \<times> 'c"
    and cut :: "nat \<Rightarrow> 'c \<Rightarrow> 'c"
    and whole :: "nat \<Rightarrow> 'c \<Rightarrow> bool"
    and front :: "'c \<Rightarrow> nat"
    and inv :: "'c \<Rightarrow> bool"
    and held :: "'c \<Rightarrow> nat set"
  assumes inv_none: "inv none"
    and held_none: "held none = {}"
    and finite_held: "finite (held c)"
    and add_ok: "inv c \<Longrightarrow> fst (add s n c) \<longleftrightarrow> {s..<s + n} \<inter> held c = {}"
    and inv_add: "inv c \<Longrightarrow> inv (snd (add s n c))"
    and held_add: "inv c \<Longrightarrow> held (snd (add s n c)) =
      (if {s..<s + n} \<inter> held c = {} then held c \<union> {s..<s + n} else held c)"
    and inv_cut: "inv c \<Longrightarrow> inv (cut t c)"
    and held_cut: "inv c \<Longrightarrow> held (cut t c) = held c \<inter> {..<t}"
    and whole_iff: "inv c \<Longrightarrow> whole t c \<longleftrightarrow> held c = {..<t}"
    and front_held: "inv c \<Longrightarrow> {..<front c} \<subseteq> held c"
    and front_free: "inv c \<Longrightarrow> front c \<notin> held c"
begin

lemma add_accepted:
  "inv c \<Longrightarrow> fst (add s n c) \<Longrightarrow>
     held (snd (add s n c)) = held c \<union> {s..<s + n} \<and> held c \<inter> {s..<s + n} = {}"
  by (auto simp: add_ok held_add)

lemma add_refused: "inv c \<Longrightarrow> \<not> fst (add s n c) \<Longrightarrow> held (snd (add s n c)) = held c"
  by (simp add: add_ok held_add)

lemma add_counts:
  assumes "inv c" "fst (add s n c)"
  shows "card (held (snd (add s n c))) = card (held c) + n"
  using add_accepted [OF assms] by (simp add: card_Un_disjoint finite_held)

lemma add_grows: "inv c \<Longrightarrow> held c \<subseteq> held (snd (add s n c))"
  by (simp add: held_add)

lemma whole_card: "inv c \<Longrightarrow> whole t c \<Longrightarrow> card (held c) = t"
  by (simp add: whole_iff)

lemma front_greatest: "inv c \<Longrightarrow> {..<k} \<subseteq> held c \<Longrightarrow> k \<le> front c"
  using front_free [of c] by (metis lessThan_iff not_le subsetD)

lemma front_mono: "inv c \<Longrightarrow> inv d \<Longrightarrow> held c \<subseteq> held d \<Longrightarrow> front c \<le> front d"
  using front_held [of c] by (intro front_greatest) blast+

lemma front_le_card: "inv c \<Longrightarrow> front c \<le> card (held c)"
  using card_mono [OF finite_held front_held [of c]] by simp

lemma replay_inv: "inv c \<Longrightarrow> inv (fold (\<lambda>(s, n) c. snd (add s n c)) ranges c)"
  by (induction ranges arbitrary: c) (auto simp: inv_add)

end

interpretation cov: byte_ranges cov_empty cover cov_truncate covers prefix_len cov_inv covered
  by unfold_locales
     (auto simp: cov_empty_def cover_spec cov_truncate_spec covers_iff prefix_len_spec
        dest: prefix_len_spec(1) [THEN subsetD])

text \<open>
  Covering a range is refused exactly when one of its bytes is already held; otherwise those
  bytes and no others become held, and the map stays sorted, disjoint and merged.
\<close>

theorem cover_exact:
  assumes "cov_inv rs"
  shows "(fst (cover start len rs) \<longleftrightarrow> (\<nexists>i. start \<le> i \<and> i < start + len \<and> i \<in> covered rs))
     \<and> (fst (cover start len rs) \<longrightarrow>
          covered (snd (cover start len rs)) = covered rs \<union> {start..<start + len})
     \<and> (\<not> fst (cover start len rs) \<longrightarrow> covered (snd (cover start len rs)) = covered rs)
     \<and> cov_inv (snd (cover start len rs))"
proof -
  have "{start..<start + len} \<inter> covered rs = {}
      \<longleftrightarrow> (\<nexists>i. start \<le> i \<and> i < start + len \<and> i \<in> covered rs)" by auto
  then show ?thesis
    using cov.add_ok [OF assms] cov.add_accepted [OF assms] cov.add_refused [OF assms]
      cov.inv_add [OF assms] by metis
qed

theorem cover_exact_witness:
  "\<not> fst (cover 150 100 [(0, 100), (200, 300)])
   \<and> covered (snd (cover 100 100 [(0, 100), (200, 300)])) = {0..<300}"
proof -
  let ?rs = "[(0, 100), (200, 300)] :: coverage"
  have inv: "cov_inv ?rs" by simp
  have held: "covered ?rs = {0..<100} \<union> {200..<300}" by simp
  have "\<exists>i. 150 \<le> i \<and> i < 150 + 100 \<and> i \<in> covered ?rs" by (rule exI [of _ 200]) simp
  moreover have "\<nexists>i. 100 \<le> i \<and> i < 100 + 100 \<and> i \<in> covered ?rs" unfolding held by auto
  moreover have "{0..<100} \<union> {200..<300} \<union> {100..<100 + 100} = {0..<300 :: nat}" by auto
  ultimately show ?thesis
    using cover_exact [OF inv, of 150 100] cover_exact [OF inv, of 100 100] held by metis
qed

text \<open>
  The gap a fill loop asks for is the first stretch still missing below a positive total: it
  is non-empty, nothing before it is missing and nothing in it is held; there is none exactly when
  everything below the total has arrived, and a map of nothing past the total is then whole.
\<close>

theorem gap_first_missing:
  assumes "cov_inv rs" "0 < tot"
  shows "(gap tot rs = None \<longleftrightarrow> {..<tot} \<subseteq> covered rs)
     \<and> (\<forall>a b. gap tot rs = Some (a, b) \<longrightarrow>
          a < b \<and> b \<le> tot \<and> {..<a} \<subseteq> covered rs \<and> {a..<b} \<inter> covered rs = {}
          \<and> (b < tot \<longrightarrow> b \<in> covered rs))
     \<and> (covers tot rs \<longleftrightarrow> covered rs = {..<tot})"
proof -
  have spec: "case gap tot rs of
      None \<Rightarrow> {0..<tot} \<subseteq> covered rs
    | Some (a, b) \<Rightarrow> 0 \<le> a \<and> a < b \<and> b \<le> tot \<and> {0..<a} \<subseteq> covered rs
        \<and> {a..<b} \<inter> covered rs = {} \<and> (b < tot \<longrightarrow> b \<in> covered rs)"
    unfolding gap_def using assms by (intro gap_from_spec) auto
  have "gap tot rs = Some (a, b) \<Longrightarrow> \<not> {..<tot} \<subseteq> covered rs" for a b
    using spec by (auto simp: subset_eq disjoint_iff)
  then show ?thesis
    using spec covers_iff [OF assms(1)]
    by (cases "gap tot rs") (auto simp: lessThan_atLeast0 split: prod.splits)
qed

theorem gap_first_missing_witness:
  "gap 300 [(0, 100), (200, 300)] = Some (100, 200)
   \<and> {..<100} \<subseteq> covered [(0, 100), (200, 300)] \<and> {100..<200} \<inter> covered [(0, 100), (200, 300)] = {}"
proof -
  have "gap 300 [(0, 100), (200, 300)] = Some (100, 200)" by (simp add: gap_def)
  then show ?thesis using gap_first_missing [of "[(0, 100), (200, 300)]" 300] by simp
qed

end
