(* ===== verification/Transaction.thy ===== *)
theory Transaction
  imports Io
begin

text \<open>
  \<open>SMB_COM_TRANSACTION2\<close> and \<open>SMB_COM_TRANSACTION\<close> (\<open>wire/transaction.rs\<close>): one
  word layout, the back-patched block offsets, the transaction name's two spellings, and the
  limits checked before anything reaches the wire.
\<close>

definition REQUEST_FIXED_WORDS :: u8 where "REQUEST_FIXED_WORDS = 14"
definition RESPONSE_FIXED_WORDS :: u8 where "RESPONSE_FIXED_WORDS = 10"
definition BLOCK_ALIGNMENT :: nat where "BLOCK_ALIGNMENT = 2"
definition MAX_RETURN_SUM :: nat where "MAX_RETURN_SUM = 66524"
definition MIN_MAX_PARAMETER_COUNT :: u16 where "MIN_MAX_PARAMETER_COUNT = 64"
definition MAX_DATA_COUNT :: u16 where "MAX_DATA_COUNT = 65472"
definition PIPE_LANMAN :: rstr where "PIPE_LANMAN = 92 # lit ''PIPE'' @ 92 # lit ''LANMAN''"
definition PIPE_TRANSACT_NAME :: rstr where "PIPE_TRANSACT_NAME = 92 # lit ''PIPE'' @ [92]"
definition TRANS_TRANSACT_NMPIPE :: u16 where "TRANS_TRANSACT_NMPIPE = 0x0026"

section \<open>Word blocks\<close>

record request_words =
  tq_total_parameter_count :: u16
  tq_total_data_count :: u16
  tq_max_parameter_count :: u16
  tq_max_data_count :: u16
  tq_max_setup_count :: u8
  tq_reserved :: u8
  tq_flags :: u16
  tq_timeout :: u32
  tq_reserved2 :: u16
  tq_parameter_count :: u16
  tq_parameter_offset :: u16
  tq_data_count :: u16
  tq_data_offset :: u16
  tq_setup_count :: u8
  tq_reserved3 :: u8

definition wr_request_words :: "request_words \<Rightarrow> bytes" where
  "wr_request_words w =
     le16 (tq_total_parameter_count w) @ le16 (tq_total_data_count w)
     @ le16 (tq_max_parameter_count w) @ le16 (tq_max_data_count w) @ le8 (tq_max_setup_count w)
     @ le8 (tq_reserved w) @ le16 (tq_flags w) @ le32 (tq_timeout w) @ le16 (tq_reserved2 w)
     @ le16 (tq_parameter_count w) @ le16 (tq_parameter_offset w) @ le16 (tq_data_count w)
     @ le16 (tq_data_offset w) @ le8 (tq_setup_count w) @ le8 (tq_reserved3 w)"

definition rd_request_words :: "bytes \<Rightarrow> (request_words \<times> bytes) option" where
  "rd_request_words bs = do {
     (total_parameter_count, bs) \<leftarrow> rd16 bs;
     (total_data_count, bs) \<leftarrow> rd16 bs;
     (max_parameter_count, bs) \<leftarrow> rd16 bs;
     (max_data_count, bs) \<leftarrow> rd16 bs;
     (max_setup_count, bs) \<leftarrow> rd8 bs;
     (reserved, bs) \<leftarrow> rd8 bs;
     (flags, bs) \<leftarrow> rd16 bs;
     (timeout, bs) \<leftarrow> rd32 bs;
     (reserved2, bs) \<leftarrow> rd16 bs;
     (parameter_count, bs) \<leftarrow> rd16 bs;
     (parameter_offset, bs) \<leftarrow> rd16 bs;
     (data_count, bs) \<leftarrow> rd16 bs;
     (data_offset, bs) \<leftarrow> rd16 bs;
     (setup_count, bs) \<leftarrow> rd8 bs;
     (reserved3, bs) \<leftarrow> rd8 bs;
     Some (\<lparr>tq_total_parameter_count = total_parameter_count,
            tq_total_data_count = total_data_count,
            tq_max_parameter_count = max_parameter_count, tq_max_data_count = max_data_count,
            tq_max_setup_count = max_setup_count, tq_reserved = reserved, tq_flags = flags,
            tq_timeout = timeout, tq_reserved2 = reserved2,
            tq_parameter_count = parameter_count, tq_parameter_offset = parameter_offset,
            tq_data_count = data_count, tq_data_offset = data_offset,
            tq_setup_count = setup_count, tq_reserved3 = reserved3\<rparr>, bs)
   }"

interpretation trans_request: word_layout wr_request_words rd_request_words 14
  by unfold_locales (simp_all add: wr_request_words_def rd_request_words_def codec_simps)

record response_words =
  ts_total_parameter_count :: u16
  ts_total_data_count :: u16
  ts_reserved :: u16
  ts_parameter_count :: u16
  ts_parameter_offset :: u16
  ts_parameter_displacement :: u16
  ts_data_count :: u16
  ts_data_offset :: u16
  ts_data_displacement :: u16
  ts_setup_count :: u8
  ts_reserved2 :: u8

definition wr_response_words :: "response_words \<Rightarrow> bytes" where
  "wr_response_words w =
     le16 (ts_total_parameter_count w) @ le16 (ts_total_data_count w) @ le16 (ts_reserved w)
     @ le16 (ts_parameter_count w) @ le16 (ts_parameter_offset w)
     @ le16 (ts_parameter_displacement w) @ le16 (ts_data_count w) @ le16 (ts_data_offset w)
     @ le16 (ts_data_displacement w) @ le8 (ts_setup_count w) @ le8 (ts_reserved2 w)"

definition rd_response_words :: "bytes \<Rightarrow> (response_words \<times> bytes) option" where
  "rd_response_words bs = do {
     (total_parameter_count, bs) \<leftarrow> rd16 bs;
     (total_data_count, bs) \<leftarrow> rd16 bs;
     (reserved, bs) \<leftarrow> rd16 bs;
     (parameter_count, bs) \<leftarrow> rd16 bs;
     (parameter_offset, bs) \<leftarrow> rd16 bs;
     (parameter_displacement, bs) \<leftarrow> rd16 bs;
     (data_count, bs) \<leftarrow> rd16 bs;
     (data_offset, bs) \<leftarrow> rd16 bs;
     (data_displacement, bs) \<leftarrow> rd16 bs;
     (setup_count, bs) \<leftarrow> rd8 bs;
     (reserved2, bs) \<leftarrow> rd8 bs;
     Some (\<lparr>ts_total_parameter_count = total_parameter_count,
            ts_total_data_count = total_data_count, ts_reserved = reserved,
            ts_parameter_count = parameter_count, ts_parameter_offset = parameter_offset,
            ts_parameter_displacement = parameter_displacement, ts_data_count = data_count,
            ts_data_offset = data_offset, ts_data_displacement = data_displacement,
            ts_setup_count = setup_count, ts_reserved2 = reserved2\<rparr>, bs)
   }"

interpretation trans_response: word_layout wr_response_words rd_response_words 10
  by unfold_locales (simp_all add: wr_response_words_def rd_response_words_def codec_simps)

section \<open>Setup words and names\<close>

definition setup_words :: "message \<Rightarrow> u8 \<Rightarrow> u8 \<Rightarrow> wire_error + u16 list" where
  "setup_words m fixed declared =
     (let start = unat fixed * 2; stop = start + unat declared * 2 in
      rbind (ok_or (Truncated ''setup words'' stop (length (words m)))
               (slice_at (words m) start (unat declared * 2)))
        (\<lambda>raw. Inr (le_units raw)))"

datatype name_encoding = EncUnicode | EncAscii

record transaction_name =
  tn_text :: rstr
  tn_encoding :: name_encoding

definition unicode_name :: "rstr \<Rightarrow> transaction_name" where
  "unicode_name text = \<lparr>tn_text = text, tn_encoding = EncUnicode\<rparr>"

text \<open>The guard of the UTF-16 reading: an even run ending in a null unit, with none before it.\<close>

definition unicode_region :: "bytes \<Rightarrow> bool" where
  "unicode_region units \<longleftrightarrow>
     2 \<le> length units \<and> even (length units) \<and> drop (length units - 2) units = [0, 0]
     \<and> 0 \<notin> set (le_units (take (length units - 2) units))"

definition decode_name :: "nat \<Rightarrow> bytes \<Rightarrow> wire_error + transaction_name" where
  "decode_name area_off region =
     (let pad = (if area_off mod NAME_ALIGNMENT = 0 then 0 else 1) in
      if pad \<le> length region \<and> unicode_region (drop pad region) then
        rbind (from_utf16 ''Name'' 0 (take (length (drop pad region) - 2) (drop pad region)))
          (\<lambda>text. Inr \<lparr>tn_text = text, tn_encoding = EncUnicode\<rparr>)
      else
        Inr \<lparr>tn_text = from_utf8_lossy (takeWhile (\<lambda>b. b \<noteq> 0) region), tn_encoding = EncAscii\<rparr>)"

section \<open>Requests\<close>

record trans_request =
  tr_command :: u8
  tr_max_parameter_count :: u16
  tr_max_data_count :: u16
  tr_max_setup_count :: u8
  tr_flags :: u16
  tr_timeout :: u32
  tr_setup :: "u16 list"
  tr_name :: "transaction_name option"
  tr_parameters :: bytes
  tr_data :: bytes

definition trans2_request :: "u16 \<Rightarrow> bytes \<Rightarrow> bytes \<Rightarrow> trans_request" where
  "trans2_request subcommand parameters data =
     \<lparr>tr_command = CMD_TRANSACTION2, tr_max_parameter_count = MIN_MAX_PARAMETER_COUNT,
      tr_max_data_count = MAX_DATA_COUNT, tr_max_setup_count = 0, tr_flags = 0, tr_timeout = 0,
      tr_setup = [subcommand], tr_name = None, tr_parameters = parameters, tr_data = data\<rparr>"

definition rap_request :: "bytes \<Rightarrow> bytes \<Rightarrow> trans_request" where
  "rap_request parameters data =
     \<lparr>tr_command = CMD_TRANSACTION, tr_max_parameter_count = MIN_MAX_PARAMETER_COUNT,
      tr_max_data_count = MAX_DATA_COUNT, tr_max_setup_count = 0, tr_flags = 0, tr_timeout = 0,
      tr_setup = [], tr_name = Some (unicode_name PIPE_LANMAN), tr_parameters = parameters,
      tr_data = data\<rparr>"

definition pipe_transact_request :: "u16 \<Rightarrow> bytes \<Rightarrow> trans_request" where
  "pipe_transact_request fid data =
     \<lparr>tr_command = CMD_TRANSACTION, tr_max_parameter_count = MIN_MAX_PARAMETER_COUNT,
      tr_max_data_count = MAX_DATA_COUNT, tr_max_setup_count = 0, tr_flags = 0, tr_timeout = 0,
      tr_setup = [TRANS_TRANSACT_NMPIPE, fid], tr_name = Some (unicode_name PIPE_TRANSACT_NAME),
      tr_parameters = [], tr_data = data\<rparr>"

definition put_name :: "transaction_name option \<Rightarrow> byte_area \<Rightarrow> wire_error + byte_area" where
  "put_name name area =
     (case name of
        None \<Rightarrow> Inr area
      | Some n \<Rightarrow>
          (case tn_encoding n of
             EncUnicode \<Rightarrow>
               (let area = align_to NAME_ALIGNMENT area in
                rbind (require_word_aligned ''Name'' (area_offset area))
                  (\<lambda>_. Inr (snd (put (utf16z (tn_text n)) area))))
           | EncAscii \<Rightarrow> Inr (snd (put [0] (snd (put (utf8 (tn_text n)) area))))))"

definition put_parameters :: "bytes \<Rightarrow> byte_area \<Rightarrow> nat \<times> byte_area" where
  "put_parameters parameters area =
     (if parameters = [] then (0, area)
      else (let (at, area) = put_aligned BLOCK_ALIGNMENT parameters area
            in (at, align_to BLOCK_ALIGNMENT area)))"

definition trans_request_encode_body :: "trans_request \<Rightarrow> wire_error + bytes" where
  "trans_request_encode_body r =
     rbind (put_name (tr_name r)
              (for_word_count (unat REQUEST_FIXED_WORDS + length (tr_setup r)))) (\<lambda>area.
     let (parameter_offset, area) = put_parameters (tr_parameters r) area;
         (data_offset, area) = put (tr_data r) area;
         ws = \<lparr>tq_total_parameter_count = of_nat (length (tr_parameters r)),
               tq_total_data_count = of_nat (length (tr_data r)),
               tq_max_parameter_count = tr_max_parameter_count r,
               tq_max_data_count = tr_max_data_count r,
               tq_max_setup_count = tr_max_setup_count r, tq_reserved = 0,
               tq_flags = tr_flags r, tq_timeout = tr_timeout r, tq_reserved2 = 0,
               tq_parameter_count = of_nat (length (tr_parameters r)),
               tq_parameter_offset = of_nat parameter_offset,
               tq_data_count = of_nat (length (tr_data r)), tq_data_offset = of_nat data_offset,
               tq_setup_count = of_nat (length (tr_setup r)), tq_reserved3 = 0\<rparr>
     in Inr (body (wr_request_words ws @ units_le (tr_setup r)) (area_bytes area)))"

definition check_limits :: "trans_request \<Rightarrow> u32 \<Rightarrow> wire_error + unit" where
  "check_limits r max_buffer_size =
     (let sum = unat (tr_max_parameter_count r) + unat (tr_max_data_count r) in
      if MAX_RETURN_SUM < sum
      then Inl (FieldTooLong ''MaxParameterCount + MaxDataCount'' sum MAX_RETURN_SUM)
      else rbind (trans_request_encode_body r) (\<lambda>b.
        let encoded = length b + HEADER_LEN in
        if unat max_buffer_size < encoded
        then Inl (FieldTooLong ''transaction request'' encoded (unat max_buffer_size))
        else Inr ()))"

text \<open>The smallest of the two offsets that is not zero, or zero where both are.\<close>

definition first_offset :: "u16 \<Rightarrow> u16 \<Rightarrow> nat" where
  "first_offset p d =
     (case filter (\<lambda>off. off \<noteq> 0) [unat p, unat d] of [] \<Rightarrow> 0 | x # xs \<Rightarrow> foldl min x xs)"

definition decode_request_name :: "message \<Rightarrow> request_words \<Rightarrow> wire_error + transaction_name option" where
  "decode_request_name m w =
     (if h_command (header m) = CMD_TRANSACTION then
        (let first = first_offset (tq_parameter_offset w) (tq_data_offset w) in
         if byte_area_offset m < first then
           (let area = byte_area_to_end m; stop = first - byte_area_offset m in
            rbind (ok_or (Truncated ''transaction Name'' stop (length area)) (slice_at area 0 stop))
              (\<lambda>raw. rbind (decode_name (byte_area_offset m) raw) (\<lambda>n. Inr (Some n))))
         else Inr None)
      else Inr None)"

definition trans_request_decode :: "message \<Rightarrow> wire_error + trans_request" where
  "trans_request_decode m =
     (let command = h_command (header m) in
      if command \<noteq> CMD_TRANSACTION2 \<and> command \<noteq> CMD_TRANSACTION
      then Inl (UnexpectedCommand CMD_TRANSACTION2 command)
      else if word_count m < REQUEST_FIXED_WORDS
      then Inl (UnexpectedWordCount command (word_count m) ''at least 14'')
      else
        rbind (read_words rd_request_words (words m)) (\<lambda>w.
        rbind (setup_words m REQUEST_FIXED_WORDS (tq_setup_count w)) (\<lambda>setup.
        rbind (decode_request_name m w) (\<lambda>name.
        rbind (block m ''ParameterOffset'' (unat (tq_parameter_offset w))
                 (unat (tq_parameter_count w))) (\<lambda>parameters.
        rbind (block m ''DataOffset'' (unat (tq_data_offset w)) (unat (tq_data_count w))) (\<lambda>data.
        Inr \<lparr>tr_command = command, tr_max_parameter_count = tq_max_parameter_count w,
             tr_max_data_count = tq_max_data_count w, tr_max_setup_count = tq_max_setup_count w,
             tr_flags = tq_flags w, tr_timeout = tq_timeout w, tr_setup = setup, tr_name = name,
             tr_parameters = parameters, tr_data = data\<rparr>))))))"

section \<open>Responses\<close>

record trans_response =
  tp_total_parameter_count :: u16
  tp_total_data_count :: u16
  tp_parameter_displacement :: u16
  tp_data_displacement :: u16
  tp_parameter_offset :: u16
  tp_data_offset :: u16
  tp_setup :: "u16 list"
  tp_parameters :: bytes
  tp_data :: bytes

definition trans_response_decode :: "message \<Rightarrow> wire_error + trans_response" where
  "trans_response_decode m =
     (let command = h_command (header m) in
      if command \<noteq> CMD_TRANSACTION2 \<and> command \<noteq> CMD_TRANSACTION
      then Inl (UnexpectedCommand CMD_TRANSACTION2 command)
      else if word_count m < RESPONSE_FIXED_WORDS
      then Inl (if is_bodyless m then NoResponseBody command (h_status (header m))
                else UnexpectedWordCount command (word_count m) ''at least 10'')
      else
        rbind (read_words rd_response_words (words m)) (\<lambda>w.
        rbind (setup_words m RESPONSE_FIXED_WORDS (ts_setup_count w)) (\<lambda>setup.
        rbind (block m ''ParameterOffset'' (unat (ts_parameter_offset w))
                 (unat (ts_parameter_count w))) (\<lambda>parameters.
        rbind (block m ''DataOffset'' (unat (ts_data_offset w)) (unat (ts_data_count w))) (\<lambda>data.
        Inr \<lparr>tp_total_parameter_count = ts_total_parameter_count w,
             tp_total_data_count = ts_total_data_count w,
             tp_parameter_displacement = ts_parameter_displacement w,
             tp_data_displacement = ts_data_displacement w,
             tp_parameter_offset = ts_parameter_offset w, tp_data_offset = ts_data_offset w,
             tp_setup = setup, tp_parameters = parameters, tp_data = data\<rparr>)))))"

definition trans_response_encode_body :: "trans_response \<Rightarrow> wire_error + bytes" where
  "trans_response_encode_body r =
     (let area = for_word_count (unat RESPONSE_FIXED_WORDS + length (tp_setup r));
          area = pad_until (unat (tp_parameter_offset r)) area;
          area = snd (put (tp_parameters r) area);
          area = pad_until (unat (tp_data_offset r)) area;
          area = snd (put (tp_data r) area);
          ws = \<lparr>ts_total_parameter_count = tp_total_parameter_count r,
                ts_total_data_count = tp_total_data_count r, ts_reserved = 0,
                ts_parameter_count = of_nat (length (tp_parameters r)),
                ts_parameter_offset = tp_parameter_offset r,
                ts_parameter_displacement = tp_parameter_displacement r,
                ts_data_count = of_nat (length (tp_data r)), ts_data_offset = tp_data_offset r,
                ts_data_displacement = tp_data_displacement r,
                ts_setup_count = of_nat (length (tp_setup r)), ts_reserved2 = 0\<rparr>
      in Inr (body (wr_response_words ws @ units_le (tp_setup r)) (area_bytes area)))"

section \<open>Round trips\<close>

lemma unat_of_nat_u8: "n < 256 \<Longrightarrow> unat (of_nat n :: u8) = n"
  by (simp add: unat_of_nat)

lemma unat_of_nat_u16: "n < 65536 \<Longrightarrow> unat (of_nat n :: u16) = n"
  by (simp add: unat_of_nat)

lemma setup_words_built:
  assumes "wf_header h" "wf_words (pre @ units_le setup)" "length pre = unat fixed * 2"
    "length setup \<le> 255"
  shows "setup_words (built h (pre @ units_le setup) area) fixed (of_nat (length setup)) = Inr setup"
  using assms by (simp add: setup_words_def unat_of_nat_u8 slice_at_append_end)

lemma word_count_ge: "k + length setup \<le> 255 \<Longrightarrow> \<not> of_nat ((2 * k + 2 * length setup) div 2) < (of_nat k :: u8)"
proof -
  assume *: "k + length setup \<le> 255"
  have "(2 * k + 2 * length setup) div 2 = k + length setup" by simp
  moreover have "unat (of_nat (k + length setup) :: u8) = k + length setup"
    using * by (intro unat_of_nat_u8) simp
  moreover have "unat (of_nat k :: u8) = k" using * by (intro unat_of_nat_u8) simp
  ultimately show ?thesis unfolding word_less_nat_alt by presburger
qed

lemmas trans_consts =
  REQUEST_FIXED_WORDS_def RESPONSE_FIXED_WORDS_def BLOCK_ALIGNMENT_def NAME_ALIGNMENT_def
  HEADER_LEN_def

text \<open>
  One message of a transaction reply survives the wire whatever padding its server chose:
  the blocks are read from the offsets the message declares.
\<close>

theorem trans_response_roundtrip:
  assumes h: "wf_header h" "h_command h = CMD_TRANSACTION2 \<or> h_command h = CMD_TRANSACTION"
    and su: "length (tp_setup r) \<le> 245"
    and p: "55 + 2 * length (tp_setup r) \<le> unat (tp_parameter_offset r)"
    and d: "unat (tp_parameter_offset r) + length (tp_parameters r) \<le> unat (tp_data_offset r)"
    and len: "length (tp_data r) < 65536"
  shows "delivered h (trans_response_encode_body r) trans_response_decode = Inr r"
proof -
  define n where "n = length (tp_setup r)"
  define z1 where "z1 = unat (tp_parameter_offset r) - (55 + 2 * n)"
  define z2 where "z2 = unat (tp_data_offset r) - (unat (tp_parameter_offset r) + length (tp_parameters r))"
  define area where "area = replicate z1 0 @ tp_parameters r @ replicate z2 0 @ tp_data r"
  have plen: "length (tp_parameters r) < 65536" using d unat_u16 [of "tp_data_offset r"] by linarith
  have wfw: "wf_words (wr_response_words w @ units_le (tp_setup r))" for w
    using su by (intro trans_response.wf_words_wr) auto
  have lenw: "length (wr_response_words w) = 20" for w by (simp add: trans_response.length_wr)
  have pblk: "block (built h (wr_response_words w @ units_le (tp_setup r)) area) f
      (unat (tp_parameter_offset r)) (length (tp_parameters r)) = Inr (tp_parameters r)" for w f
    using h p by (intro block_built [where pre = "replicate z1 0"])
      (auto simp: area_def lenw HEADER_LEN_def z1_def n_def)
  have dblk: "block (built h (wr_response_words w @ units_le (tp_setup r)) area) f
      (unat (tp_data_offset r)) (length (tp_data r)) = Inr (tp_data r)" for w f
    using h p d by (intro block_built [where pre = "replicate z1 0 @ tp_parameters r @ replicate z2 0"
        and post = "[]"]) (auto simp: area_def lenw HEADER_LEN_def z1_def z2_def n_def)
  obtain w where w: "trans_response_encode_body r
        = Inr (body (wr_response_words w @ units_le (tp_setup r)) area)"
      "w = \<lparr>ts_total_parameter_count = tp_total_parameter_count r,
                ts_total_data_count = tp_total_data_count r, ts_reserved = 0,
                ts_parameter_count = of_nat (length (tp_parameters r)),
                ts_parameter_offset = tp_parameter_offset r,
                ts_parameter_displacement = tp_parameter_displacement r,
                ts_data_count = of_nat (length (tp_data r)), ts_data_offset = tp_data_offset r,
                ts_data_displacement = tp_data_displacement r,
                ts_setup_count = of_nat (length (tp_setup r)), ts_reserved2 = 0\<rparr>"
    using p d
    by (simp add: trans_response_encode_body_def pad_until_eq area_def z1_def z2_def n_def
        area_offset_def trans_consts)
  have sw: "setup_words (built h (wr_response_words w @ units_le (tp_setup r)) area)
      RESPONSE_FIXED_WORDS (of_nat (length (tp_setup r))) = Inr (tp_setup r)"
    using su by (intro setup_words_built h wfw) (auto simp: lenw RESPONSE_FIXED_WORDS_def)
  have wc: "\<not> of_nat ((20 + 2 * length (tp_setup r)) div 2) < (10 :: u8)"
    using word_count_ge [of 10 "tp_setup r"] su by simp
  show ?thesis
    unfolding w(1) delivered_body [OF h(1) wfw] trans_response_decode_def
    using h plen len wc sw
    by (auto simp: Let_def lenw RESPONSE_FIXED_WORDS_def words_built [OF h(1) wfw]
        trans_response.read_words_wr) (auto simp: w(2) unat_of_nat_u16 pblk dblk)
qed

lemma surrogate_nonzero: "unat (x :: u16) = 55296 + k \<Longrightarrow> x \<noteq> 0"
  by auto

lemma zero_in_utf16_char:
  assumes c: "scalar c"
  shows "0 \<in> set (utf16_char c) \<longleftrightarrow> c = 0"
proof (cases "c < 0x10000")
  case True
  then have "unat (of_nat c :: u16) = c" by (intro unat_of_nat_u16) simp
  then have "(of_nat c :: u16) = 0 \<longleftrightarrow> c = 0" by auto
  with True show ?thesis by (auto simp: utf16_char_def)
next
  case False
  define d where "d = c - 0x10000"
  have d: "d < 0x100000" using c False by (auto simp: scalar_def d_def)
  define hu :: u16 where "hu = of_nat (0xD800 + d div 1024)"
  define lu :: u16 where "lu = of_nat (0xDC00 + d mod 1024)"
  have "unat hu = 55296 + d div 1024"
    unfolding hu_def using d by (subst unat_of_nat) simp
  moreover have "unat lu = 55296 + (1024 + d mod 1024)"
    unfolding lu_def by (subst unat_of_nat) simp
  moreover have "utf16_char c = [hu, lu]"
    using False by (simp only: utf16_char_def d_def hu_def lu_def if_False)
  ultimately show ?thesis using False surrogate_nonzero [of hu] surrogate_nonzero [of lu] by auto
qed

lemma zero_in_encode_utf16: "valid_str cs \<Longrightarrow> 0 \<in> set (encode_utf16 cs) \<longleftrightarrow> 0 \<in> set cs"
  by (induction cs) (auto simp: zero_in_utf16_char)

lemma decode_name_utf16z:
  assumes "odd at" "valid_str text" "0 \<notin> set text"
  shows "decode_name at (0 # utf16z text) = Inr (unicode_name text)"
  using assms
  by (simp add: decode_name_def trans_consts unicode_region_def unicode_name_def
      zero_in_encode_utf16 from_utf16_utf16 odd_iff_mod_2_eq_one utf16z_def)

text \<open>
  What this crate builds: no name on TRANS2; on \<open>SMB_COM_TRANSACTION\<close> a UTF-16 name without a
  null, or no name and then no parameter block.
\<close>

definition wf_trans_request :: "trans_request \<Rightarrow> bool" where
  "wf_trans_request r \<longleftrightarrow>
     length (tr_setup r) \<le> 241
     \<and> (tr_command r = CMD_TRANSACTION2 \<and> tr_name r = None
        \<or> tr_command r = CMD_TRANSACTION
          \<and> (case tr_name r of
               None \<Rightarrow> tr_parameters r = []
             | Some n \<Rightarrow> tn_encoding n = EncUnicode \<and> valid_str (tn_text n) \<and> 0 \<notin> set (tn_text n)))"

text \<open>The parts of a request's byte area, and where its two blocks land.\<close>

definition name_part :: "trans_request \<Rightarrow> bytes" where
  "name_part r = (case tr_name r of None \<Rightarrow> [] | Some n \<Rightarrow> 0 # utf16z (tn_text n))"

definition gap_part :: "trans_request \<Rightarrow> bytes" where
  "gap_part r = (if tr_parameters r \<noteq> [] \<and> tr_name r = None then [0] else [])"

definition tail_part :: "trans_request \<Rightarrow> bytes" where
  "tail_part r = (if odd (length (tr_parameters r)) then [0] else [])"

definition parameters_at :: "trans_request \<Rightarrow> nat" where
  "parameters_at r =
     (if tr_parameters r = [] then 0
      else 63 + 2 * length (tr_setup r) + length (name_part r) + length (gap_part r))"

definition data_at :: "trans_request \<Rightarrow> nat" where
  "data_at r = 63 + 2 * length (tr_setup r) + length (name_part r) + length (gap_part r)
     + length (tr_parameters r) + length (tail_part r)"

definition request_area :: "trans_request \<Rightarrow> bytes" where
  "request_area r = name_part r @ gap_part r @ tr_parameters r @ tail_part r @ tr_data r"

definition request_word_block :: "trans_request \<Rightarrow> request_words" where
  "request_word_block r =
     \<lparr>tq_total_parameter_count = of_nat (length (tr_parameters r)),
      tq_total_data_count = of_nat (length (tr_data r)),
      tq_max_parameter_count = tr_max_parameter_count r, tq_max_data_count = tr_max_data_count r,
      tq_max_setup_count = tr_max_setup_count r, tq_reserved = 0, tq_flags = tr_flags r,
      tq_timeout = tr_timeout r, tq_reserved2 = 0,
      tq_parameter_count = of_nat (length (tr_parameters r)),
      tq_parameter_offset = of_nat (parameters_at r),
      tq_data_count = of_nat (length (tr_data r)), tq_data_offset = of_nat (data_at r),
      tq_setup_count = of_nat (length (tr_setup r)), tq_reserved3 = 0\<rparr>"

lemma request_word_block_fields:
  "tq_setup_count (request_word_block r) = of_nat (length (tr_setup r))"
  "tq_parameter_offset (request_word_block r) = of_nat (parameters_at r)"
  "tq_data_offset (request_word_block r) = of_nat (data_at r)"
  by (simp_all add: request_word_block_def)

lemma put_name_part:
  assumes "wf_trans_request r"
  shows "\<exists>a. put_name (tr_name r) (for_word_count (14 + length (tr_setup r))) = Inr a
     \<and> area_start a = 63 + 2 * length (tr_setup r) \<and> area_bytes a = name_part r"
  using assms
  by (auto simp: put_name_def name_part_def wf_trans_request_def trans_consts align_to_2
      require_word_aligned_def area_offset_def split: option.splits)

lemma trans_request_encode_body_eq:
  assumes "wf_trans_request r"
  shows "trans_request_encode_body r =
     Inr (body (wr_request_words (request_word_block r) @ units_le (tr_setup r)) (request_area r))"
proof -
  obtain a where a: "put_name (tr_name r) (for_word_count (14 + length (tr_setup r))) = Inr a"
      "area_start a = 63 + 2 * length (tr_setup r)" "area_bytes a = name_part r"
    using put_name_part [OF assms] by blast
  have ev: "even (area_offset a) \<longleftrightarrow> tr_name r \<noteq> None"
    by (simp add: area_offset_def a(2,3) name_part_def split: option.splits)
  have "put_parameters (tr_parameters r) a =
      (parameters_at r, a\<lparr>area_bytes := area_bytes a @ gap_part r @ tr_parameters r @ tail_part r\<rparr>)"
    using ev
    by (auto simp: put_parameters_def put_aligned_def put_def align_to_2 trans_consts
        parameters_at_def gap_part_def tail_part_def area_offset_def a(2,3))
  moreover have "put (tr_data r)
      (a\<lparr>area_bytes := area_bytes a @ gap_part r @ tr_parameters r @ tail_part r\<rparr>)
      = (data_at r, a\<lparr>area_bytes := request_area r\<rparr>)"
    by (simp add: put_def area_offset_def a(2,3) data_at_def request_area_def)
  ultimately show ?thesis
    by (simp add: trans_request_encode_body_def REQUEST_FIXED_WORDS_def a(1) request_word_block_def)
qed

lemma decode_request_name_built:
  assumes wf: "wf_trans_request r" and h: "wf_header h" "h_command h = tr_command r"
    and small: "data_at r < 65536"
    and wfw: "wf_words (wr_request_words (request_word_block r) @ units_le (tr_setup r))"
  shows "decode_request_name
     (built h (wr_request_words (request_word_block r) @ units_le (tr_setup r)) (request_area r))
     (request_word_block r) = Inr (tr_name r)"
proof (cases "tr_command r = CMD_TRANSACTION")
  case False
  with wf h show ?thesis by (auto simp: decode_request_name_def wf_trans_request_def)
next
  case True
  have pd: "parameters_at r \<le> data_at r" by (simp add: parameters_at_def data_at_def)
  have offs: "unat (of_nat (parameters_at r) :: u16) = parameters_at r"
      "unat (of_nat (data_at r) :: u16) = data_at r"
    using small pd by (simp_all add: unat_of_nat_u16)
  have first: "first_offset (of_nat (parameters_at r)) (of_nat (data_at r))
      = (if tr_parameters r = [] then data_at r else parameters_at r)"
  proof -
    have "tr_parameters r = [] \<longleftrightarrow> parameters_at r = 0" by (auto simp: parameters_at_def)
    moreover have "0 < data_at r" by (simp add: data_at_def)
    ultimately show ?thesis using pd by (auto simp: first_offset_def offs)
  qed
  have lenw: "length (wr_request_words (request_word_block r)) = 28"
    by (simp add: trans_request.length_wr)
  have ne: "CMD_TRANSACTION \<noteq> CMD_TRANSACTION2" by (simp add: command_defs)
  show ?thesis
  proof (cases "tr_name r")
    case None
    then have "tr_parameters r = []" using wf True ne by (auto simp: wf_trans_request_def)
    then show ?thesis
      using None True h wfw first lenw
      by (simp add: decode_request_name_def request_word_block_def data_at_def name_part_def
          gap_part_def tail_part_def HEADER_LEN_def)
  next
    case (Some n)
    then have n: "n = unicode_name (tn_text n)" "valid_str (tn_text n)" "0 \<notin> set (tn_text n)"
      using wf True ne by (auto simp: wf_trans_request_def unicode_name_def)
    have gap: "gap_part r = []" by (simp add: gap_part_def Some)
    have "first_offset (of_nat (parameters_at r)) (of_nat (data_at r))
        = 63 + 2 * length (tr_setup r) + length (name_part r)"
      unfolding first using gap by (simp add: parameters_at_def data_at_def tail_part_def)
    moreover have "decode_name (63 + 2 * length (tr_setup r)) (name_part r) = Inr n"
    proof -
      have "decode_name (63 + 2 * length (tr_setup r)) (0 # utf16z (tn_text n))
          = Inr (unicode_name (tn_text n))"
        using n(2,3) by (intro decode_name_utf16z) simp_all
      with n(1) show ?thesis by (simp add: name_part_def Some)
    qed
    moreover have "slice_at (request_area r) 0 (length (name_part r)) = Some (name_part r)"
      by (simp add: slice_at_def request_area_def)
    moreover have "0 < length (name_part r)" by (simp add: name_part_def Some)
    ultimately show ?thesis
      using Some True h wfw lenw 
      by (simp add: decode_request_name_def HEADER_LEN_def request_word_block_fields)
  qed
qed

lemma check_limits_iff:
  assumes "wf_trans_request r"
  shows "check_limits r max_buffer_size = Inr () \<longleftrightarrow>
     unat (tr_max_parameter_count r) + unat (tr_max_data_count r) \<le> MAX_RETURN_SUM
     \<and> data_at r + length (tr_data r) \<le> unat max_buffer_size"
  by (auto simp: check_limits_def trans_request_encode_body_eq [OF assms] Let_def data_at_def
      request_area_def trans_request.length_wr HEADER_LEN_def)

text \<open>
  C40. A transaction request that passes the limits check at a negotiated buffer no larger than
  65,535 bytes goes out as one message and decodes to itself: setup words, name, and both blocks,
  found through the offsets the encoder back-patched.
\<close>

theorem trans_request_roundtrip:
  assumes wf: "wf_trans_request r" and lim: "check_limits r max_buffer_size = Inr ()"
    and mbs: "unat max_buffer_size \<le> 65535"
    and h: "wf_header h" "h_command h = tr_command r"
  shows "delivered h (trans_request_encode_body r) trans_request_decode = Inr r"
proof -
  let ?w = "request_word_block r"
  let ?ws = "wr_request_words ?w @ units_le (tr_setup r)"
  note enc = trans_request_encode_body_eq [OF wf]
  have su: "length (tr_setup r) \<le> 241" using wf by (simp add: wf_trans_request_def)
  have lenw: "length (wr_request_words ?w) = 28" by (simp add: trans_request.length_wr)
  have "length (body ?ws (request_area r)) + HEADER_LEN \<le> 65535"
    using lim mbs by (auto simp: check_limits_def enc Let_def split: if_splits)
  then have small: "data_at r + length (tr_data r) < 65536"
    by (simp add: lenw HEADER_LEN_def request_area_def data_at_def)
  have plen: "length (tr_parameters r) < 65536" using small by (simp add: data_at_def)
  have poff: "parameters_at r \<le> data_at r" by (simp add: parameters_at_def data_at_def)
  have wfw: "wf_words ?ws" using su by (intro trans_request.wf_words_wr) auto
  have pblk: "block (built h ?ws (request_area r)) f (parameters_at r) (length (tr_parameters r))
      = Inr (tr_parameters r)" for f
  proof (cases "tr_parameters r = []")
    case True
    then show ?thesis by (simp add: parameters_at_def block_def block_at_Inr_iff)
  next
    case False
    then show ?thesis
      using h by (intro block_built [where pre = "name_part r @ gap_part r"])
        (auto simp: request_area_def parameters_at_def lenw HEADER_LEN_def)
  qed
  have dblk: "block (built h ?ws (request_area r)) f (data_at r) (length (tr_data r))
      = Inr (tr_data r)" for f
    using h by (intro block_built
        [where pre = "name_part r @ gap_part r @ tr_parameters r @ tail_part r" and post = "[]"])
      (auto simp: request_area_def data_at_def lenw HEADER_LEN_def)
  have sw: "setup_words (built h ?ws (request_area r)) REQUEST_FIXED_WORDS
      (of_nat (length (tr_setup r))) = Inr (tr_setup r)"
    using su by (intro setup_words_built h wfw) (auto simp: lenw REQUEST_FIXED_WORDS_def)
  have wc: "\<not> of_nat ((28 + 2 * length (tr_setup r)) div 2) < (14 :: u8)"
    using word_count_ge [of 14 "tr_setup r"] su by simp
  have cmd: "tr_command r = CMD_TRANSACTION2 \<or> tr_command r = CMD_TRANSACTION"
    using wf by (auto simp: wf_trans_request_def)
  have nm: "decode_request_name (built h ?ws (request_area r)) ?w = Inr (tr_name r)"
    using small by (intro decode_request_name_built wf h wfw) simp
  have fields: "tq_setup_count ?w = of_nat (length (tr_setup r))"
      "unat (tq_parameter_offset ?w) = parameters_at r"
      "unat (tq_parameter_count ?w) = length (tr_parameters r)"
      "unat (tq_data_offset ?w) = data_at r" "unat (tq_data_count ?w) = length (tr_data r)"
    using small plen poff by (simp_all add: request_word_block_def unat_of_nat_u16)
  have "\<not> word_count (built h ?ws (request_area r)) < REQUEST_FIXED_WORDS"
    using wc by (simp add: lenw REQUEST_FIXED_WORDS_def)
  then show ?thesis
    unfolding enc delivered_body [OF h(1) wfw] trans_request_decode_def
    using h cmd
    by (auto simp: Let_def words_built [OF h(1) wfw] trans_request.read_words_wr fields sw nm
        pblk dblk simp del: built_simps(2)) (auto simp: request_word_block_def)
qed

theorem trans_request_roundtrip_witness:
  "let r = pipe_transact_request 0x4003 [5, 0, 11, 3] in
   delivered (header_request CMD_TRANSACTION) (trans_request_encode_body r) trans_request_decode
     = Inr r"
proof -
  let ?r = "pipe_transact_request 0x4003 [5, 0, 11, 3]"
  have wf: "wf_trans_request ?r"
    by (simp add: wf_trans_request_def pipe_transact_request_def unicode_name_def
        PIPE_TRANSACT_NAME_def scalar_def) (simp add: lit_def)
  have "check_limits ?r 4356 = Inr ()"
    unfolding check_limits_iff [OF wf]
    by (simp add: pipe_transact_request_def unicode_name_def PIPE_TRANSACT_NAME_def data_at_def
        name_part_def gap_part_def tail_part_def lit_def utf16_char_def MAX_RETURN_SUM_def
        MIN_MAX_PARAMETER_COUNT_def MAX_DATA_COUNT_def)
  then show ?thesis
    using trans_request_roundtrip [OF wf, of 4356 "header_request CMD_TRANSACTION"]
    by (simp add: pipe_transact_request_def)
qed

theorem trans_response_roundtrip_witness:
  "let r = \<lparr>tp_total_parameter_count = 2, tp_total_data_count = 5, tp_parameter_displacement = 0,
            tp_data_displacement = 2, tp_parameter_offset = 56, tp_data_offset = 60, tp_setup = [],
            tp_parameters = [1, 2], tp_data = [7, 8, 9]\<rparr>
   in delivered (header_request CMD_TRANSACTION2) (trans_response_encode_body r)
        trans_response_decode = Inr r"
  unfolding Let_def by (rule trans_response_roundtrip) simp_all

end
