(* ===== verification/Reassembly.thy ===== *)
theory Reassembly
  imports Coverage Transaction
begin

text \<open>
  Transaction reassembly (\<open>Track\<close> and \<open>Assembly\<close> in
  \<open>connection/reassembly.rs\<close>): the totals a message declares, its bytes placed at their
  displacement, and completion by coverage of both declared ranges.

  On an error the source's partly updated reassembly is dropped by its only caller
  (\<open>Entry::accept\<close> reports corruption and \<open>retire\<close> clears it), so the model
  returns the error alone.
\<close>

definition FRAGMENT_CAP :: nat where "FRAGMENT_CAP = 64"
definition EMPTY_TOLERANCE :: nat where "EMPTY_TOLERANCE = 1"

datatype reassembly_error =
    RevisedUpward string nat nat
    \<comment> \<open>block, declared, revised\<close>
  | OutsideDeclaredRange string nat nat nat
    \<comment> \<open>block, displacement, length, total\<close>
  | Overlapping string nat nat
    \<comment> \<open>block, displacement, length\<close>
  | MoreThanAsked string nat nat
    \<comment> \<open>block, total, asked\<close>
  | TooManyFragments nat
  | NoProgress

section \<open>One block\<close>

record track =
  tk_block :: string
  tk_total :: nat
  tk_asked :: nat
  tk_declared :: bool
  tk_covered :: coverage
  tk_bytes :: "bytes option"

definition track_new :: "string \<Rightarrow> nat \<Rightarrow> track" where
  "track_new blk asked =
     \<lparr>tk_block = blk, tk_total = 0, tk_asked = asked, tk_declared = False,
      tk_covered = cov_empty, tk_bytes = Some []\<rparr>"

definition track_declare :: "nat \<Rightarrow> track \<Rightarrow> reassembly_error + track" where
  "track_declare tot t =
     (if tk_declared t \<and> tk_total t < tot
      then Inl (RevisedUpward (tk_block t) (tk_total t) tot)
      else if tk_asked t < tot then Inl (MoreThanAsked (tk_block t) tot (tk_asked t))
      else Inr (t\<lparr>tk_covered := (if tot < tk_total t then cov_truncate tot (tk_covered t)
                                 else tk_covered t),
                 tk_bytes := map_option (resize tot 0) (tk_bytes t),
                 tk_total := tot, tk_declared := True\<rparr>))"

definition track_accept :: "nat \<Rightarrow> bytes \<Rightarrow> track \<Rightarrow> reassembly_error + track" where
  "track_accept disp payload t =
     (if payload = [] then Inr t
      else if tk_total t < disp + length payload
      then Inl (OutsideDeclaredRange (tk_block t) disp (length payload) (tk_total t))
      else
        (case cover disp (length payload) (tk_covered t) of
           (False, _) \<Rightarrow> Inl (Overlapping (tk_block t) disp (length payload))
         | (True, cov) \<Rightarrow>
             Inr (t\<lparr>tk_covered := cov,
                    tk_bytes := map_option (write_at disp payload) (tk_bytes t)\<rparr>)))"

definition track_complete :: "track \<Rightarrow> bool" where
  "track_complete t \<longleftrightarrow> tk_declared t \<and> covers (tk_total t) (tk_covered t)"

definition track_release :: "track \<Rightarrow> track" where
  "track_release t = t\<lparr>tk_bytes := None\<rparr>"

definition track_take :: "track \<Rightarrow> bytes" where
  "track_take t = (case tk_bytes t of None \<Rightarrow> [] | Some b \<Rightarrow> b)"

section \<open>The whole reply\<close>

datatype progress = Continuing | Complete

record assembly =
  as_parameters :: track
  as_data :: track
  as_setup :: "u16 list"
  as_fragments :: nat
  as_empty :: nat
  as_buffered :: bool

definition assembly_new :: "u16 \<Rightarrow> u16 \<Rightarrow> assembly" where
  "assembly_new max_parameter_count max_data_count =
     \<lparr>as_parameters = track_new ''parameter'' (unat max_parameter_count),
      as_data = track_new ''data'' (unat max_data_count), as_setup = [], as_fragments = 0,
      as_empty = 0, as_buffered = True\<rparr>"

definition assembly_release :: "assembly \<Rightarrow> assembly" where
  "assembly_release a =
     a\<lparr>as_parameters := track_release (as_parameters a), as_data := track_release (as_data a),
       as_setup := [], as_buffered := False\<rparr>"

definition count_fragment :: "assembly \<Rightarrow> reassembly_error + assembly" where
  "count_fragment a =
     (if as_buffered a then
        (let a = a\<lparr>as_fragments := as_fragments a + 1\<rparr> in
         if FRAGMENT_CAP < as_fragments a then Inl (TooManyFragments FRAGMENT_CAP) else Inr a)
      else Inr a)"

definition count_empty :: "trans_response \<Rightarrow> assembly \<Rightarrow> reassembly_error + assembly" where
  "count_empty r a =
     (if as_buffered a \<and> tp_parameters r = [] \<and> tp_data r = [] then
        (let a = a\<lparr>as_empty := as_empty a + 1\<rparr> in
         if EMPTY_TOLERANCE < as_empty a then Inl NoProgress else Inr a)
      else Inr a)"

definition progress_of :: "assembly \<Rightarrow> progress" where
  "progress_of a =
     (if track_complete (as_parameters a) \<and> track_complete (as_data a) then Complete
      else Continuing)"

definition assembly_accept :: "trans_response \<Rightarrow> assembly \<Rightarrow> reassembly_error + (assembly \<times> progress)" where
  "assembly_accept r a =
     rbind (count_fragment a) (\<lambda>a.
     rbind (track_declare (unat (tp_total_parameter_count r)) (as_parameters a)) (\<lambda>ps.
     rbind (track_declare (unat (tp_total_data_count r)) (as_data a)) (\<lambda>ds.
     rbind (track_accept (unat (tp_parameter_displacement r)) (tp_parameters r) ps) (\<lambda>ps.
     rbind (track_accept (unat (tp_data_displacement r)) (tp_data r) ds) (\<lambda>ds.
     let a = a\<lparr>as_parameters := ps, as_data := ds,
               as_setup := (if tp_setup r = [] then as_setup a else tp_setup r)\<rparr> in
     rbind (count_empty r a) (\<lambda>a. Inr (a, progress_of a)))))))"

definition assembly_finish :: "assembly \<Rightarrow> u16 list \<times> bytes \<times> bytes" where
  "assembly_finish a = (as_setup a, track_take (as_parameters a), track_take (as_data a))"

text \<open>A run of messages reaching one reassembly, ended by the first error.\<close>

fun assembly_run :: "trans_response list \<Rightarrow> assembly \<times> progress \<Rightarrow> reassembly_error + (assembly \<times> progress)" where
  "assembly_run [] s = Inr s"
| "assembly_run (r # rs) s = rbind (assembly_accept r (fst s)) (assembly_run rs)"

section \<open>What a track knows about the messages it took\<close>

text \<open>
  \<open>hist\<close> is the list of (displacement, payload) pairs accepted so far.  The bytes covered are
  exactly those some accepted payload put below the current total, and the buffer, where it is
  still held, has that total's length and agrees with every payload on them.
\<close>

definition spans :: "(nat \<times> bytes) list \<Rightarrow> nat set" where
  "spans hist = (\<Union>(d, p) \<in> set hist. {d..<d + length p})"

definition agrees :: "(nat \<times> bytes) list \<Rightarrow> bytes \<Rightarrow> bool" where
  "agrees hist b \<longleftrightarrow>
     (\<forall>(d, p) \<in> set hist. \<forall>i < length p. d + i < length b \<longrightarrow> b ! (d + i) = p ! i)"

definition track_inv :: "(nat \<times> bytes) list \<Rightarrow> track \<Rightarrow> bool" where
  "track_inv hist t \<longleftrightarrow>
     cov_inv (tk_covered t) \<and> covered (tk_covered t) = spans hist \<inter> {..<tk_total t}
     \<and> tk_total t \<le> tk_asked t
     \<and> (\<not> tk_declared t \<longrightarrow> spans hist = {} \<and> tk_total t = 0)
     \<and> (\<forall>b. tk_bytes t = Some b \<longrightarrow> length b = tk_total t \<and> agrees hist b)"

lemma spans_simps [simp]:
  "spans [] = {}"
  "spans (h # hs) = {fst h..<fst h + length (snd h)} \<union> spans hs"
  "spans (xs @ ys) = spans xs \<union> spans ys"
  by (auto simp: spans_def case_prod_unfold)

lemma in_spansI: "(d, p) \<in> set hist \<Longrightarrow> i < length p \<Longrightarrow> d + i \<in> spans hist"
  unfolding spans_def by (rule UN_I [of "(d, p)"]) simp_all

lemma agrees_simps [simp]:
  "agrees [] b"
  "agrees (xs @ ys) b \<longleftrightarrow> agrees xs b \<and> agrees ys b"
  by (auto simp: agrees_def)

lemma agrees_single: "agrees [(d, p)] b \<longleftrightarrow> (\<forall>i < length p. d + i < length b \<longrightarrow> b ! (d + i) = p ! i)"
  by (simp add: agrees_def)

lemma track_inv_new: "track_inv [] (track_new blk asked)"
  by (simp add: track_inv_def track_new_def cov.held_none cov.inv_none)

lemma agrees_resize: "agrees hist b \<Longrightarrow> tot \<le> length b \<or> spans hist = {} \<Longrightarrow> agrees hist (resize tot z b)"
  by (fastforce simp: agrees_def nth_resize spans_def)

lemma track_declare_inv:
  assumes inv: "track_inv hist t" and ok: "track_declare tot t = Inr t'"
  shows "track_inv hist t' \<and> tk_total t' = tot \<and> tk_declared t' \<and> tk_asked t' = tk_asked t
     \<and> (tk_bytes t' = None \<longleftrightarrow> tk_bytes t = None)"
proof -
  have *: "\<not> (tk_declared t \<and> tk_total t < tot)" "tot \<le> tk_asked t"
    and t': "t' = t\<lparr>tk_covered := (if tot < tk_total t then cov_truncate tot (tk_covered t)
                                 else tk_covered t),
                 tk_bytes := map_option (resize tot 0) (tk_bytes t),
                 tk_total := tot, tk_declared := True\<rparr>"
    using ok by (auto simp: track_declare_def split: if_splits)
  have shrink: "tot \<le> tk_total t \<or> spans hist = {}"
    using * inv by (auto simp: track_inv_def)
  have "covered (tk_covered t') = spans hist \<inter> {..<tot}"
    using inv shrink by (auto simp: t' track_inv_def cov.held_cut)
  moreover have "cov_inv (tk_covered t')"
    using inv by (auto simp: t' track_inv_def cov.inv_cut)
  moreover have "\<forall>b. tk_bytes t' = Some b \<longrightarrow> length b = tot \<and> agrees hist b"
    using inv shrink by (auto simp: t' track_inv_def intro!: agrees_resize)
  ultimately show ?thesis using *(2) by (simp add: t' track_inv_def)
qed

lemma agrees_write_at:
  assumes "agrees hist b" "spans hist \<inter> {d..<d + length p} \<inter> {..<length b} = {}"
    "d + length p \<le> length b"
  shows "agrees hist (write_at d p b)" "agrees [(d, p)] (write_at d p b)"
proof -
  have "write_at d p b ! (e + i) = q ! i"
    if "(e, q) \<in> set hist" "i < length q" "e + i < length (write_at d p b)" for e q i
  proof -
    have "e + i \<in> spans hist" using that(1,2) by (intro in_spansI)
    then have "\<not> (d \<le> e + i \<and> e + i < d + length p)" using assms(2,3) by auto
    then have "write_at d p b ! (e + i) = b ! (e + i)" "e + i < length b"
      using assms(3) that(3) by (auto simp: nth_write_at)
    then show ?thesis using assms(1) that(1,2) by (fastforce simp: agrees_def)
  qed
  then show "agrees hist (write_at d p b)" unfolding agrees_def by blast
  show "agrees [(d, p)] (write_at d p b)"
    using assms(3) by (simp add: agrees_single nth_write_at)
qed

lemma track_accept_inv:
  assumes inv: "track_inv hist t" and ok: "track_accept d p t = Inr t'" and dec: "tk_declared t"
  shows "track_inv (hist @ [(d, p)]) t' \<and> tk_total t' = tk_total t \<and> tk_declared t'
     \<and> tk_asked t' = tk_asked t \<and> (tk_bytes t' = None \<longleftrightarrow> tk_bytes t = None)
     \<and> {d..<d + length p} \<inter> spans hist \<inter> {..<tk_total t} = {}"
proof (cases "p = []")
  case True
  then show ?thesis using assms by (simp add: track_accept_def track_inv_def agrees_single)
next
  case False
  obtain cv where le: "d + length p \<le> tk_total t"
    and cv: "cover d (length p) (tk_covered t) = (True, cv)"
    and t': "t' = t\<lparr>tk_covered := cv, tk_bytes := map_option (write_at d p) (tk_bytes t)\<rparr>"
    using ok False by (auto simp: track_accept_def split: if_splits prod.splits bool.splits)
  have ci: "cov_inv (tk_covered t)" and ch: "covered (tk_covered t) = spans hist \<inter> {..<tk_total t}"
    using inv by (auto simp: track_inv_def)
  have "covered cv = covered (tk_covered t) \<union> {d..<d + length p}"
      "covered (tk_covered t) \<inter> {d..<d + length p} = {}" "cov_inv cv"
    using cov.add_accepted [OF ci, of d "length p"] cov.inv_add [OF ci, of d "length p"] cv by auto
  moreover from this have "covered cv = spans (hist @ [(d, p)]) \<inter> {..<tk_total t}"
    using le ch by auto
  moreover have "length b = tk_total t \<and> agrees (hist @ [(d, p)]) b" if held: "tk_bytes t' = Some b" for b
  proof -
    obtain c where c: "tk_bytes t = Some c" "b = write_at d p c" using held by (auto simp: t')
    then have len: "length c = tk_total t" "agrees hist c" using inv by (auto simp: track_inv_def)
    have dis: "spans hist \<inter> {d..<d + length p} \<inter> {..<length c} = {}"
      using \<open>covered (tk_covered t) \<inter> {d..<d + length p} = {}\<close> ch len(1) by auto
    show ?thesis using agrees_write_at [OF len(2) dis] le len(1) c(2) by simp
  qed
  ultimately show ?thesis using inv dec ch by (auto simp: t' track_inv_def)
qed

lemma track_complete_bytes:
  assumes inv: "track_inv hist t" and "track_complete t" and b: "tk_bytes t = Some b"
  shows "length b = tk_total t \<and> {..<tk_total t} \<subseteq> spans hist \<and> agrees hist b"
proof -
  have "covered (tk_covered t) = {..<tk_total t}"
    using assms by (auto simp: track_complete_def track_inv_def cov.whole_iff)
  then show ?thesis using inv b by (auto simp: track_inv_def)
qed

lemma track_declare_ok:
  assumes "tot \<le> tk_asked t" "tk_declared t \<Longrightarrow> tot \<le> tk_total t"
  shows "\<exists>t'. track_declare tot t = Inr t'"
  using assms by (auto simp: track_declare_def)

lemma track_accept_ok:
  assumes inv: "track_inv hist t" and "d + length p \<le> tk_total t"
    and "{d..<d + length p} \<inter> spans hist = {}"
  shows "\<exists>t'. track_accept d p t = Inr t'"
proof -
  have "fst (cover d (length p) (tk_covered t))"
    using assms by (auto simp: track_inv_def cov.add_ok)
  then show ?thesis using assms(2) by (auto simp: track_accept_def split: prod.split bool.split)
qed

section \<open>What the whole reassembly knows\<close>

definition placed_parameters :: "trans_response \<Rightarrow> nat \<times> bytes" where
  "placed_parameters r = (unat (tp_parameter_displacement r), tp_parameters r)"

definition placed_data :: "trans_response \<Rightarrow> nat \<times> bytes" where
  "placed_data r = (unat (tp_data_displacement r), tp_data r)"

definition carries_nothing :: "trans_response \<Rightarrow> bool" where
  "carries_nothing r \<longleftrightarrow> tp_parameters r = [] \<and> tp_data r = []"

text \<open>The setup words a run ends with: the last non-empty ones.\<close>

fun setup_after :: "u16 list \<Rightarrow> trans_response list \<Rightarrow> u16 list" where
  "setup_after ws [] = ws"
| "setup_after ws (r # rs) = setup_after (if tp_setup r = [] then ws else tp_setup r) rs"

definition assembly_inv :: "trans_response list \<Rightarrow> assembly \<Rightarrow> bool" where
  "assembly_inv rs a \<longleftrightarrow>
     track_inv (map placed_parameters rs) (as_parameters a)
     \<and> track_inv (map placed_data rs) (as_data a)
     \<and> as_buffered a \<and> tk_bytes (as_parameters a) \<noteq> None \<and> tk_bytes (as_data a) \<noteq> None
     \<and> as_fragments a = length rs \<and> as_empty a = length (filter carries_nothing rs)
     \<and> as_fragments a \<le> FRAGMENT_CAP \<and> as_empty a \<le> EMPTY_TOLERANCE
     \<and> as_setup a = setup_after [] rs"

lemma setup_after_append: "setup_after ws (xs @ ys) = setup_after (setup_after ws xs) ys"
  by (induction xs arbitrary: ws) auto

lemma assembly_inv_new: "assembly_inv [] (assembly_new mp md)"
  by (simp add: assembly_inv_def assembly_new_def track_inv_new) (simp add: track_new_def)

lemma assembly_run_append:
  "assembly_run (xs @ ys) s = rbind (assembly_run xs s) (assembly_run ys)"
  by (induction xs arbitrary: s) (auto simp: rbind_def split: sum.splits)

lemma count_fragment_Inr_iff:
  "count_fragment a = Inr a' \<longleftrightarrow>
     (if as_buffered a
      then as_fragments a < FRAGMENT_CAP \<and> a' = a\<lparr>as_fragments := as_fragments a + 1\<rparr>
      else a' = a)"
  by (auto simp: count_fragment_def Let_def split: if_splits)

lemma count_empty_Inr_iff:
  "count_empty r a = Inr a' \<longleftrightarrow>
     (if as_buffered a \<and> carries_nothing r
      then as_empty a < EMPTY_TOLERANCE \<and> a' = a\<lparr>as_empty := as_empty a + 1\<rparr>
      else a' = a)"
  by (auto simp: count_empty_def carries_nothing_def Let_def split: if_splits)

lemma assembly_accept_cases:
  assumes "assembly_accept r a = Inr (a', pr)"
  obtains ps ds ps' ds' where
    "track_declare (unat (tp_total_parameter_count r)) (as_parameters a) = Inr ps"
    "track_declare (unat (tp_total_data_count r)) (as_data a) = Inr ds"
    "track_accept (fst (placed_parameters r)) (snd (placed_parameters r)) ps = Inr ps'"
    "track_accept (fst (placed_data r)) (snd (placed_data r)) ds = Inr ds'"
    "as_parameters a' = ps'" "as_data a' = ds'" "as_buffered a' = as_buffered a"
    "as_setup a' = (if tp_setup r = [] then as_setup a else tp_setup r)"
    "as_buffered a \<Longrightarrow> as_fragments a < FRAGMENT_CAP \<and> as_fragments a' = as_fragments a + 1"
    "as_buffered a \<Longrightarrow> as_empty a' = as_empty a + (if carries_nothing r then 1 else 0)"
    "as_buffered a \<Longrightarrow> carries_nothing r \<Longrightarrow> as_empty a < EMPTY_TOLERANCE"
    "pr = progress_of a'"
proof -
  from assms obtain a1 ps ds ps' ds' a2 where
      a1: "count_fragment a = Inr a1"
    and ps: "track_declare (unat (tp_total_parameter_count r)) (as_parameters a1) = Inr ps"
    and ds: "track_declare (unat (tp_total_data_count r)) (as_data a1) = Inr ds"
    and ps': "track_accept (unat (tp_parameter_displacement r)) (tp_parameters r) ps = Inr ps'"
    and ds': "track_accept (unat (tp_data_displacement r)) (tp_data r) ds = Inr ds'"
    and a2: "count_empty r (a1\<lparr>as_parameters := ps', as_data := ds',
               as_setup := (if tp_setup r = [] then as_setup a1 else tp_setup r)\<rparr>) = Inr a'"
    and pr: "pr = progress_of a'"
    unfolding assembly_accept_def Let_def rbind_Inr_iff by blast
  show thesis
    using that [of ps ds ps' ds'] a1 ps ds ps' ds' a2 pr
    unfolding count_fragment_Inr_iff count_empty_Inr_iff
    by (simp add: placed_parameters_def placed_data_def split: if_splits)
qed

lemma assembly_accept_inv:
  assumes inv: "assembly_inv rs a" and ok: "assembly_accept r a = Inr (a', pr)"
  shows "assembly_inv (rs @ [r]) a' \<and> pr = progress_of a'
     \<and> tk_total (as_parameters a') = unat (tp_total_parameter_count r)
     \<and> tk_total (as_data a') = unat (tp_total_data_count r)
     \<and> tk_declared (as_parameters a') \<and> tk_declared (as_data a')
     \<and> tk_asked (as_parameters a') = tk_asked (as_parameters a)
     \<and> tk_asked (as_data a') = tk_asked (as_data a)"
  using ok
proof (cases rule: assembly_accept_cases)
  case (1 ps ds ps' ds')
  have i: "track_inv (map placed_parameters rs) (as_parameters a)"
      "track_inv (map placed_data rs) (as_data a)" "as_buffered a"
    using inv by (simp_all add: assembly_inv_def)
  note p = track_declare_inv [OF i(1) 1(1)] and d = track_declare_inv [OF i(2) 1(2)]
  note p' = track_accept_inv [OF conjunct1 [OF p] 1(3)]
    and d' = track_accept_inv [OF conjunct1 [OF d] 1(4)]
  have "setup_after [] (rs @ [r]) = as_setup a'"
    using inv 1(8) by (simp add: setup_after_append assembly_inv_def)
  moreover have "as_fragments a' = length (rs @ [r])" "as_fragments a' \<le> FRAGMENT_CAP"
      "as_empty a' = length (filter carries_nothing (rs @ [r]))" "as_empty a' \<le> EMPTY_TOLERANCE"
    using inv 1(9) [OF i(3)] 1(10,11) [OF i(3)] by (auto simp: assembly_inv_def)
  ultimately show ?thesis
    using p d p' d' inv 1(5,6,7,12) by (simp add: assembly_inv_def)
qed

lemma assembly_run_inv:
  assumes "assembly_run rs (assembly_new mp md, Continuing) = Inr (a, pr)"
  shows "assembly_inv rs a
     \<and> tk_asked (as_parameters a) = unat mp \<and> tk_asked (as_data a) = unat md
     \<and> (rs = [] \<longrightarrow> pr = Continuing)
     \<and> (rs \<noteq> [] \<longrightarrow> pr = progress_of a
          \<and> tk_declared (as_parameters a) \<and> tk_declared (as_data a)
          \<and> tk_total (as_parameters a) = unat (tp_total_parameter_count (last rs))
          \<and> tk_total (as_data a) = unat (tp_total_data_count (last rs)))"
  using assms
proof (induction rs arbitrary: a pr rule: rev_induct)
  case Nil
  then show ?case using assembly_inv_new [of mp md] by (auto simp: assembly_new_def track_new_def)
next
  case (snoc r rs)
  from snoc.prems obtain b q where b: "assembly_run rs (assembly_new mp md, Continuing) = Inr (b, q)"
    and r: "assembly_accept r b = Inr (a, pr)"
    by (auto simp: assembly_run_append rbind_Inr_iff)
  note IH = snoc.IH [OF b]
  show ?case using IH assembly_accept_inv [OF conjunct1 [OF IH] r] by simp
qed

lemma progress_complete_iff:
  "progress_of a = Complete \<longleftrightarrow> track_complete (as_parameters a) \<and> track_complete (as_data a)"
  by (simp add: progress_of_def)

text \<open>What a block of a finished reply is, said of the messages alone.\<close>

definition rebuilt :: "(nat \<times> bytes) list \<Rightarrow> nat \<Rightarrow> bytes \<Rightarrow> bool" where
  "rebuilt hist tot b \<longleftrightarrow> length b = tot \<and> {..<tot} \<subseteq> spans hist \<and> agrees hist b"

text \<open>
  C2. No partial reply is delivered: when a run of messages completes, each block has exactly the
  length the last message declared, never more than the request asked for; every one of its bytes
  was carried by some message at that displacement, and it agrees with every message that carried
  a byte below the total, so no hole is delivered zero-filled.  At most 64 messages took part, at
  most one of them empty, and the setup words are the last non-empty ones.
\<close>

theorem reassembly_no_partial:
  assumes "assembly_run rs (assembly_new mp md, Continuing) = Inr (a, Complete)"
  shows "case assembly_finish a of (su, ps, ds) \<Rightarrow>
       rebuilt (map placed_parameters rs) (unat (tp_total_parameter_count (last rs))) ps
     \<and> rebuilt (map placed_data rs) (unat (tp_total_data_count (last rs))) ds
     \<and> length ps \<le> unat mp \<and> length ds \<le> unat md
     \<and> su = setup_after [] rs
     \<and> length rs \<le> FRAGMENT_CAP \<and> length (filter carries_nothing rs) \<le> EMPTY_TOLERANCE"
proof -
  note run = assembly_run_inv [OF assms]
  then have ne: "rs \<noteq> []" by auto
  have i: "assembly_inv rs a" and c: "track_complete (as_parameters a)" "track_complete (as_data a)"
    using run ne progress_complete_iff [of a] by auto
  obtain ps ds where b: "tk_bytes (as_parameters a) = Some ps" "tk_bytes (as_data a) = Some ds"
    using i by (auto simp: assembly_inv_def)
  have t: "track_inv (map placed_parameters rs) (as_parameters a)"
      "track_inv (map placed_data rs) (as_data a)"
    using i by (simp_all add: assembly_inv_def)
  then have "tk_total (as_parameters a) \<le> unat mp" "tk_total (as_data a) \<le> unat md"
    using run by (auto simp: track_inv_def)
  then show ?thesis
    using track_complete_bytes [OF t(1) c(1) b(1)] track_complete_bytes [OF t(2) c(2) b(2)] run ne i b
    by (simp add: assembly_finish_def track_take_def rebuilt_def assembly_inv_def)
qed

theorem reassembly_no_partial_witness:
  "let frag = (\<lambda>d p. \<lparr>tp_total_parameter_count = 0, tp_total_data_count = 3,
       tp_parameter_displacement = 0, tp_data_displacement = d, tp_parameter_offset = 0,
       tp_data_offset = 0, tp_setup = [], tp_parameters = [], tp_data = p\<rparr>);
     rs = [frag 2 [12], frag 0 [10, 11]] in
   \<exists>a. assembly_run rs (assembly_new 10 64, Continuing) = Inr (a, Complete)
      \<and> assembly_finish a = ([], [], [10, 11, 12])
      \<and> rebuilt (map placed_data rs) 3 [10, 11, 12]"
proof -
  let ?frag = "\<lambda>d p. \<lparr>tp_total_parameter_count = 0, tp_total_data_count = 3,
       tp_parameter_displacement = 0, tp_data_displacement = d, tp_parameter_offset = 0,
       tp_data_offset = 0, tp_setup = [], tp_parameters = [], tp_data = p\<rparr>"
  let ?rs = "[?frag 2 [12], ?frag 0 [10, 11]]"
  let ?a = "fst (projr (assembly_run ?rs (assembly_new 10 64, Continuing)))"
  have run: "assembly_run ?rs (assembly_new 10 64, Continuing) = Inr (?a, Complete)"
    by code_simp
  have fin: "assembly_finish ?a = ([], [], [10, 11, 12])" by code_simp
  have "rebuilt (map placed_data ?rs) 3 [10, 11, 12]"
    using reassembly_no_partial [OF run] unfolding fin by simp
  then show ?thesis using run fin unfolding Let_def by blast
qed

text \<open>
  The converse: what a faithful server sends.  A message carries part of a reply when it declares
  the reply's lengths and its bytes are the reply's own at the displacement it names.
\<close>

definition carries_part :: "bytes \<Rightarrow> bytes \<Rightarrow> trans_response \<Rightarrow> bool" where
  "carries_part ps ds r \<longleftrightarrow>
     unat (tp_total_parameter_count r) = length ps \<and> unat (tp_total_data_count r) = length ds
     \<and> (case placed_parameters r of (d, p) \<Rightarrow> d + length p \<le> length ps \<and> p = take (length p) (drop d ps))
     \<and> (case placed_data r of (d, p) \<Rightarrow> d + length p \<le> length ds \<and> p = take (length p) (drop d ds))"

fun disjoint_parts :: "(nat \<times> bytes) list \<Rightarrow> bool" where
  "disjoint_parts [] \<longleftrightarrow> True"
| "disjoint_parts ((d, p) # hs) \<longleftrightarrow>
     (\<forall>(e, q) \<in> set hs. p = [] \<or> q = [] \<or> d + length p \<le> e \<or> e + length q \<le> d) \<and> disjoint_parts hs"

lemma atLeastLessThan_disjoint:
  "{a..<a + m} \<inter> {b..<b + n} = {} \<longleftrightarrow> m = 0 \<or> n = 0 \<or> a + m \<le> b \<or> b + n \<le> (a :: nat)"
proof
  assume *: "{a..<a + m} \<inter> {b..<b + n} = {}"
  have "max a b \<in> {a..<a + m} \<inter> {b..<b + n}"
    if "\<not> (m = 0 \<or> n = 0 \<or> a + m \<le> b \<or> b + n \<le> a)" using that by auto
  with * show "m = 0 \<or> n = 0 \<or> a + m \<le> b \<or> b + n \<le> a" by blast
qed auto

lemma disjoint_parts_snoc:
  "disjoint_parts (hs @ [(d, p)]) \<longleftrightarrow>
     disjoint_parts hs \<and> {d..<d + length p} \<inter> spans hs = {}"
proof (induction hs)
  case (Cons h hs)
  obtain e q where h: "h = (e, q)" by (cases h)
  have "(p = [] \<or> q = [] \<or> d + length p \<le> e \<or> e + length q \<le> d)
      \<longleftrightarrow> {d..<d + length p} \<inter> {e..<e + length q} = {}"
    unfolding atLeastLessThan_disjoint by auto
  then have "disjoint_parts ((h # hs) @ [(d, p)]) \<longleftrightarrow>
      disjoint_parts (h # hs) \<and> {d..<d + length p} \<inter> {e..<e + length q} = {}
      \<and> {d..<d + length p} \<inter> spans hs = {}"
    using Cons by (auto simp: h)
  then show ?case by (simp add: h Int_Un_distrib)
qed simp

lemma assembly_accept_part:
  assumes inv: "assembly_inv rs a" and part: "carries_part ps ds r"
    and room: "length ps \<le> tk_asked (as_parameters a)" "length ds \<le> tk_asked (as_data a)"
    and mono: "tk_declared (as_parameters a) \<longrightarrow> tk_total (as_parameters a) = length ps"
      "tk_declared (as_data a) \<longrightarrow> tk_total (as_data a) = length ds"
    and fresh: "disjoint_parts (map placed_parameters (rs @ [r]))"
      "disjoint_parts (map placed_data (rs @ [r]))"
    and caps: "length rs < FRAGMENT_CAP"
      "length (filter carries_nothing (rs @ [r])) \<le> EMPTY_TOLERANCE"
  shows "\<exists>s. assembly_accept r a = Inr s"
proof -
  have i: "track_inv (map placed_parameters rs) (as_parameters a)"
      "track_inv (map placed_data rs) (as_data a)"
    using inv by (simp_all add: assembly_inv_def)
  obtain pd pp dd dp where pl: "placed_parameters r = (pd, pp)" "placed_data r = (dd, dp)"
    by (metis surj_pair)
  have tot: "unat (tp_total_parameter_count r) = length ps" "unat (tp_total_data_count r) = length ds"
    and le: "pd + length pp \<le> length ps" "dd + length dp \<le> length ds"
    using part by (auto simp: carries_part_def pl)
  obtain p1 where p1: "track_declare (length ps) (as_parameters a) = Inr p1"
    using track_declare_ok room(1) mono(1) by (metis order_refl)
  obtain d1 where d1: "track_declare (length ds) (as_data a) = Inr d1"
    using track_declare_ok room(2) mono(2) by (metis order_refl)
  have "\<exists>p2. track_accept pd pp p1 = Inr p2" "\<exists>d2. track_accept dd dp d1 = Inr d2"
    using track_declare_inv [OF i(1) p1] track_declare_inv [OF i(2) d1] le fresh
    by (auto simp: pl disjoint_parts_snoc intro!: track_accept_ok)
  then obtain p2 d2 where p2: "track_accept pd pp p1 = Inr p2" and d2: "track_accept dd dp d1 = Inr d2"
    by blast
  have "carries_nothing r \<longrightarrow> as_empty a < EMPTY_TOLERANCE" "as_fragments a < FRAGMENT_CAP"
    using inv caps by (auto simp: assembly_inv_def)
  then show ?thesis
    using p1 d1 p2 d2 pl inv
    by (auto simp: assembly_accept_def tot placed_parameters_def placed_data_def Let_def
          count_fragment_def count_empty_def carries_nothing_def assembly_inv_def)
qed

lemma disjoint_parts_prefix: "disjoint_parts (xs @ ys) \<Longrightarrow> disjoint_parts xs"
  by (induction xs rule: disjoint_parts.induct) auto

lemma assembly_run_parts:
  assumes "\<forall>r \<in> set rs. carries_part ps ds r"
    and "length ps \<le> unat mp" "length ds \<le> unat md"
    and "disjoint_parts (map placed_parameters rs)" "disjoint_parts (map placed_data rs)"
    and "length rs \<le> FRAGMENT_CAP" "length (filter carries_nothing rs) \<le> EMPTY_TOLERANCE"
  shows "\<exists>s. assembly_run rs (assembly_new mp md, Continuing) = Inr s"
  using assms
proof (induction rs rule: rev_induct)
  case (snoc r rs)
  have "\<exists>s. assembly_run rs (assembly_new mp md, Continuing) = Inr s"
    using snoc.prems by (intro snoc.IH) (auto dest: disjoint_parts_prefix)
  then obtain a q where b: "assembly_run rs (assembly_new mp md, Continuing) = Inr (a, q)" by auto
  note run = assembly_run_inv [OF b]
  have tot: "rs \<noteq> [] \<Longrightarrow> tk_total (as_parameters a) = length ps \<and> tk_total (as_data a) = length ds"
    using run snoc.prems(1) last_in_set [of rs] by (auto simp: carries_part_def)
  have undeclared: "rs = [] \<Longrightarrow> \<not> tk_declared (as_parameters a) \<and> \<not> tk_declared (as_data a)"
    using b by (auto simp: assembly_new_def track_new_def)
  have mono: "tk_declared (as_parameters a) \<longrightarrow> tk_total (as_parameters a) = length ps"
      "tk_declared (as_data a) \<longrightarrow> tk_total (as_data a) = length ds"
    using tot undeclared by blast+
  have "\<exists>s. assembly_accept r a = Inr s"
    using run snoc.prems
    by (intro assembly_accept_part [of rs a ps ds] mono) auto
  then show ?case using b by (auto simp: assembly_run_append)
qed simp

lemma rebuilt_unique:
  assumes "rebuilt hist (length ps) b"
    and "\<forall>(d, p) \<in> set hist. d + length p \<le> length ps \<and> p = take (length p) (drop d ps)"
  shows "b = ps"
proof (rule nth_equalityI)
  show len: "length b = length ps" using assms(1) by (simp add: rebuilt_def)
  fix k assume k: "k < length b"
  then have "k \<in> spans hist" using assms(1) by (auto simp: rebuilt_def)
  then obtain d p where h: "(d, p) \<in> set hist" "d \<le> k" "k < d + length p"
    by (auto simp: spans_def)
  obtain i where i: "k = d + i" "i < length p" using h by (metis le_add_diff_inverse nat_add_left_cancel_less)
  have "b ! (d + i) = p ! i"
    using assms(1) h(1) i k unfolding rebuilt_def agrees_def by blast
  moreover have "p ! i = take (length p) (drop d ps) ! i"
    using assms(2) h(1) by auto
  ultimately show "b ! k = ps ! k" using i k len by simp
qed

text \<open>
  C5. Every faithful split is reassembled, whatever order its messages arrive in: at most 64
  messages, at most one of them empty, whose parts are disjoint and together make up a reply that
  fits what was asked, complete with exactly that reply's bytes.
\<close>

theorem reassembly_complete:
  assumes "rs \<noteq> []" "\<forall>r \<in> set rs. carries_part ps ds r"
    and "length ps \<le> unat mp" "length ds \<le> unat md"
    and "disjoint_parts (map placed_parameters rs)" "disjoint_parts (map placed_data rs)"
    and "spans (map placed_parameters rs) = {..<length ps}"
      "spans (map placed_data rs) = {..<length ds}"
    and "length rs \<le> FRAGMENT_CAP" "length (filter carries_nothing rs) \<le> EMPTY_TOLERANCE"
  shows "\<exists>a. assembly_run rs (assembly_new mp md, Continuing) = Inr (a, Complete)
     \<and> assembly_finish a = (setup_after [] rs, ps, ds)"
proof -
  obtain a q where run: "assembly_run rs (assembly_new mp md, Continuing) = Inr (a, q)"
    using assembly_run_parts [OF assms(2-6,9,10)] by auto
  note inv = assembly_run_inv [OF run]
  have last: "carries_part ps ds (last rs)" using assms(1,2) by simp
  have tot: "tk_total (as_parameters a) = length ps" "tk_total (as_data a) = length ds"
    using inv assms(1) last by (auto simp: carries_part_def)
  have t: "track_inv (map placed_parameters rs) (as_parameters a)"
      "track_inv (map placed_data rs) (as_data a)"
    using inv by (simp_all add: assembly_inv_def)
  have c: "track_complete (as_parameters a)" "track_complete (as_data a)"
    using t inv assms(1,7,8) tot by (auto simp: track_complete_def track_inv_def cov.whole_iff)
  then have q: "q = Complete" using inv assms(1) progress_complete_iff [of a] by simp
  obtain bp bd where b: "tk_bytes (as_parameters a) = Some bp" "tk_bytes (as_data a) = Some bd"
    using inv by (auto simp: assembly_inv_def)
  have "rebuilt (map placed_parameters rs) (length ps) bp" "rebuilt (map placed_data rs) (length ds) bd"
    using track_complete_bytes [OF t(1) c(1) b(1)] track_complete_bytes [OF t(2) c(2) b(2)] tot
    by (simp_all add: rebuilt_def)
  moreover have "\<forall>(d, p) \<in> set (map placed_parameters rs).
        d + length p \<le> length ps \<and> p = take (length p) (drop d ps)"
      "\<forall>(d, p) \<in> set (map placed_data rs).
        d + length p \<le> length ds \<and> p = take (length p) (drop d ds)"
    using assms(2) by (auto simp: carries_part_def split: prod.splits)
  ultimately have "bp = ps" "bd = ds" using rebuilt_unique by blast+
  then show ?thesis
    using run q b inv by (simp add: assembly_finish_def track_take_def assembly_inv_def)
qed

theorem reassembly_complete_witness:
  "let frag = (\<lambda>d p. \<lparr>tp_total_parameter_count = 0, tp_total_data_count = 3,
       tp_parameter_displacement = 0, tp_data_displacement = d, tp_parameter_offset = 0,
       tp_data_offset = 0, tp_setup = [], tp_parameters = [], tp_data = p\<rparr>);
     rs = [frag 2 [12], frag 0 [], frag 0 [10, 11]] in
   \<exists>a. assembly_run rs (assembly_new 10 64, Continuing) = Inr (a, Complete)
      \<and> assembly_finish a = ([], [], [10, 11, 12])"
proof -
  let ?frag = "\<lambda>d p. \<lparr>tp_total_parameter_count = 0, tp_total_data_count = 3,
       tp_parameter_displacement = 0, tp_data_displacement = d, tp_parameter_offset = 0,
       tp_data_offset = 0, tp_setup = [], tp_parameters = [], tp_data = p\<rparr>"
  let ?rs = "[?frag 2 [12], ?frag 0 [], ?frag 0 [10, 11]]"
  have "\<exists>a. assembly_run ?rs (assembly_new 10 64, Continuing) = Inr (a, Complete)
      \<and> assembly_finish a = (setup_after [] ?rs, [], [10, 11, 12])"
    by (rule reassembly_complete)
       (auto simp: carries_part_def placed_parameters_def placed_data_def FRAGMENT_CAP_def
          EMPTY_TOLERANCE_def carries_nothing_def)
  then show ?thesis by (simp add: Let_def)
qed

section \<open>A lapsed request tracks the same progress\<close>

text \<open>What is left of a reassembly when its buffers are dropped: everything but the bytes, the setup and the guards' counts.\<close>

definition tracking :: "assembly \<Rightarrow> track \<times> track" where
  "tracking a = (track_release (as_parameters a), track_release (as_data a))"

lemma track_declare_release:
  "track_declare tot (track_release t) = map_sum id track_release (track_declare tot t)"
  by (simp add: track_declare_def track_release_def)

lemma track_accept_release:
  "track_accept d p (track_release t) = map_sum id track_release (track_accept d p t)"
  by (simp add: track_accept_def track_release_def split: prod.split bool.split)

lemma track_complete_release: "track_complete (track_release t) = track_complete t"
  by (simp add: track_complete_def track_release_def)

text \<open>
  Dropping the buffer does not change what the reassembly tells of the reply: every message the
  buffered reassembly takes is taken after a release with the same progress, leaving the same
  coverage, so a lapsed request sees its reply complete exactly when a live one would.
\<close>

theorem release_keeps_tracking:
  assumes "assembly_accept r a = Inr (a', pr)" "tracking b = tracking a" "\<not> as_buffered b"
  shows "\<exists>b'. assembly_accept r b = Inr (b', pr) \<and> tracking b' = tracking a' \<and> \<not> as_buffered b'"
  using assms(1)
proof (cases rule: assembly_accept_cases)
  case (1 ps ds ps' ds')
  have rel: "track_release (as_parameters b) = track_release (as_parameters a)"
      "track_release (as_data b) = track_release (as_data a)"
    using assms(2) by (simp_all add: tracking_def)
  have step: "\<exists>s'. f t = Inr s' \<and> track_release s' = track_release s"
    if "\<And>t. f (track_release t) = map_sum id track_release (f t)" "f u = Inr s"
      "track_release t = track_release u" for f :: "track \<Rightarrow> reassembly_error + track" and t u s
  proof -
    have "map_sum id track_release (f t) = Inr (track_release s)"
      using that(1) [of t] that(1) [of u] that(2,3) by simp
    then show ?thesis by (cases "f t") auto
  qed
  obtain p1 where p1: "track_declare (unat (tp_total_parameter_count r)) (as_parameters b) = Inr p1"
      "track_release p1 = track_release ps"
    using step [OF track_declare_release 1(1) rel(1)] by blast
  obtain d1 where d1: "track_declare (unat (tp_total_data_count r)) (as_data b) = Inr d1"
      "track_release d1 = track_release ds"
    using step [OF track_declare_release 1(2) rel(2)] by blast
  obtain p2 where p2: "track_accept (unat (tp_parameter_displacement r)) (tp_parameters r) p1 = Inr p2"
      "track_release p2 = track_release ps'"
    using step [OF track_accept_release 1(3) p1(2)] by (auto simp: placed_parameters_def)
  obtain d2 where d2: "track_accept (unat (tp_data_displacement r)) (tp_data r) d1 = Inr d2"
      "track_release d2 = track_release ds'"
    using step [OF track_accept_release 1(4) d1(2)] by (auto simp: placed_data_def)
  have "track_complete p2 = track_complete ps'" "track_complete d2 = track_complete ds'"
    using p2(2) d2(2) track_complete_release by metis+
  then show ?thesis
    using p1 d1 p2 d2 1(5,6,12) assms(3)
    by (simp add: assembly_accept_def count_fragment_def count_empty_def tracking_def progress_of_def)
qed

theorem release_keeps_tracking_witness:
  "let r = \<lparr>tp_total_parameter_count = 0, tp_total_data_count = 3,
       tp_parameter_displacement = 0, tp_data_displacement = 0, tp_parameter_offset = 0,
       tp_data_offset = 0, tp_setup = [], tp_parameters = [], tp_data = [1, 2, 3]\<rparr> in
   \<exists>b. assembly_accept r (assembly_release (assembly_new 10 64)) = Inr (b, Complete)"
proof -
  let ?r = "\<lparr>tp_total_parameter_count = 0, tp_total_data_count = 3,
       tp_parameter_displacement = 0, tp_data_displacement = 0, tp_parameter_offset = 0,
       tp_data_offset = 0, tp_setup = [], tp_parameters = [], tp_data = [1, 2, 3]\<rparr>"
  let ?a = "fst (projr (assembly_accept ?r (assembly_new 10 64)))"
  have "assembly_accept ?r (assembly_new 10 64) = Inr (?a, Complete)" by code_simp
  moreover have "tracking (assembly_release (assembly_new 10 64)) = tracking (assembly_new 10 64)"
      "\<not> as_buffered (assembly_release (assembly_new 10 64))"
    by code_simp+
  ultimately show ?thesis using release_keeps_tracking unfolding Let_def by blast
qed

end
