(* ===== verification/Table.thy ===== *)
theory Table
  imports Reassembly "HOL-Library.AList" "HOL-Library.Product_Lexorder" "HOL-Library.Multiset"
begin

text \<open>
  The request table (\<open>connection/table.rs\<close>): every request in exactly one state, the multiplex ids
  and the capacity as facets of that state.  The hash map of entries is an association list with
  distinct keys, the ordered set of deadlines a sorted list without repetitions.  A caller's
  one-shot channel and the hook arranged to outlive a request are names; what is sent on the one
  and applied to the other is a list of events.  Instants and durations are natural numbers, so
  the overflow of the platform's clock is not modelled.

  A failed \<open>expect\<close>, \<open>unreachable!\<close> or checked subtraction is the outcome \<open>Panic\<close>, which the
  theorems below show the table never reaches.
\<close>

type_synonym mid = u16
type_synonym caller = nat
type_synonym hook = nat

definition POOL :: nat where "POOL = 65535"
definition LAST_MID :: u16 where "LAST_MID = 0xFFFE"
definition RETIREMENT_BUDGET :: nat where "RETIREMENT_BUDGET = 1024"
definition GIVE_UP_DEADLINES :: nat where "GIVE_UP_DEADLINES = 8"

record timeouts =
  per_request :: duration
  overall :: duration

section \<open>Outcomes and events\<close>

datatype conn_error =
    Io string
  | Wire wire_error
  | Timeout
  | Reassembly reassembly_error
  | Lost
  | Unroutable mid u8
  | ChainedResponse u8
  | SessionDeleted
  | Silent
  | RetirementBudget nat
  | PoolExhausted

record transaction_body =
  bd_setup :: "u16 list"
  bd_parameters :: bytes
  bd_data :: bytes

record reply =
  rp_message :: message
  rp_transaction :: "transaction_body option"

type_synonym outcome = "conn_error + reply"

datatype event =
    Ended hook outcome
  | Replied caller outcome

datatype halt = Failed conn_error | Panic string

section \<open>Requests\<close>

datatype req_state =
    OnWire "caller option" instant instant
    \<comment> \<open>reply, silence_at, overall_at\<close>
  | Lapsed instant
    \<comment> \<open>give_up_at\<close>
  | Retired

record entry =
  en_command :: u8
  en_assembly :: "assembly option"
  en_outcome :: "hook option"
  en_state :: req_state

datatype table_step = StepContinuing | StepCompleted | StepCorrupted

datatype arrival =
    Interim
  | Fragment trans_response
  | CompleteResponse "transaction_body option"

definition body_of_response :: "trans_response \<Rightarrow> transaction_body" where
  "body_of_response r = \<lparr>bd_setup = tp_setup r, bd_parameters = tp_parameters r, bd_data = tp_data r\<rparr>"

definition classify :: "message \<Rightarrow> bool \<Rightarrow> conn_error + arrival" where
  "classify m reassembles =
     (let status = h_status (header m) in
      if status = PENDING then Inr Interim
      else if \<not> reassembles then Inr (CompleteResponse None)
      else if status = SUCCESS then
        (case trans_response_decode m of
           Inl e \<Rightarrow> Inl (Wire e)
         | Inr r \<Rightarrow> Inr (Fragment r))
      else
        (case trans_response_decode m of
           Inr r \<Rightarrow> Inr (CompleteResponse (Some (body_of_response r)))
         | Inl _ \<Rightarrow> Inr (CompleteResponse None)))"

definition expires_at :: "entry \<Rightarrow> instant option" where
  "expires_at e =
     (case en_state e of
        OnWire _ silence_at overall_at \<Rightarrow> Some (min silence_at overall_at)
      | Lapsed give_up_at \<Rightarrow> Some give_up_at
      | Retired \<Rightarrow> None)"

definition charges :: "entry \<Rightarrow> bool" where
  "charges e = (case en_state e of OnWire _ _ _ \<Rightarrow> True | _ \<Rightarrow> False)"

definition touch :: "instant \<Rightarrow> duration \<Rightarrow> entry \<Rightarrow> entry" where
  "touch now per e =
     (case en_state e of
        OnWire reply _ overall_at \<Rightarrow> e\<lparr>en_state := OnWire reply (now + per) overall_at\<rparr>
      | _ \<Rightarrow> e)"

definition deliver :: "outcome \<Rightarrow> entry \<Rightarrow> entry \<times> event list" where
  "deliver res e =
     (case en_state e of
        OnWire reply silence_at overall_at \<Rightarrow>
          (e\<lparr>en_outcome := None, en_state := OnWire None silence_at overall_at\<rparr>,
           (case en_outcome e of Some arranged \<Rightarrow> [Ended arranged res] | None \<Rightarrow> [])
           @ (case reply of Some caller \<Rightarrow> [Replied caller res] | None \<Rightarrow> []))
      | Lapsed _ \<Rightarrow> (e, [])
      | Retired \<Rightarrow> (e, []))"

definition corrupt :: "conn_error \<Rightarrow> entry \<Rightarrow> entry \<times> event list \<times> table_step" where
  "corrupt err e = (case deliver (Inl err) e of (e, evs) \<Rightarrow> (e, evs, StepCorrupted))"

text \<open>The entry's \<open>accept\<close>; a fragment at an entry without a reassembly is the failed \<open>expect\<close>.\<close>

definition entry_accept :: "message \<Rightarrow> instant \<Rightarrow> duration \<Rightarrow> entry \<Rightarrow> halt + (entry \<times> event list \<times> table_step)" where
  "entry_accept m now per e =
     (let e = touch now per e in
      case classify m (en_assembly e \<noteq> None) of
        Inl err \<Rightarrow> Inr (corrupt err e)
      | Inr Interim \<Rightarrow> Inr (e, [], StepContinuing)
      | Inr (CompleteResponse t) \<Rightarrow>
          (case deliver (Inr \<lparr>rp_message = m, rp_transaction = t\<rparr>) e of
             (e, evs) \<Rightarrow> Inr (e, evs, StepCompleted))
      | Inr (Fragment r) \<Rightarrow>
          (case en_assembly e of
             None \<Rightarrow> Inl (Panic ''only a request holding a reassembly classifies a fragment'')
           | Some a \<Rightarrow>
               (case assembly_accept r a of
                  Inl err \<Rightarrow> Inr (corrupt (Reassembly err) e)
                | Inr (a, Continuing) \<Rightarrow> Inr (e\<lparr>en_assembly := Some a\<rparr>, [], StepContinuing)
                | Inr (a, Complete) \<Rightarrow>
                    (case assembly_finish a of
                       (su, ps, ds) \<Rightarrow>
                         (case deliver
                             (Inr \<lparr>rp_message = m,
                                    rp_transaction = Some \<lparr>bd_setup = su, bd_parameters = ps, bd_data = ds\<rparr>\<rparr>)
                             (e\<lparr>en_assembly := None\<rparr>) of
                            (e, evs) \<Rightarrow> Inr (e, evs, StepCompleted))))))"

section \<open>The table\<close>

record table =
  tb_entries :: "(mid \<times> entry) list"
  tb_expiry :: "(instant \<times> mid) list"
  tb_charging :: nat
  tb_retired :: nat
  tb_cursor :: u16
  tb_limit :: nat
  tb_timeouts :: timeouts

definition table_new :: "nat \<Rightarrow> timeouts \<Rightarrow> table" where
  "table_new limit ts =
     \<lparr>tb_entries = [], tb_expiry = [], tb_charging = 0, tb_retired = 0, tb_cursor = 0,
      tb_limit = limit, tb_timeouts = ts\<rparr>"

definition next_expiry :: "table \<Rightarrow> instant option" where
  "next_expiry tb = (case tb_expiry tb of [] \<Rightarrow> None | (at, _) # _ \<Rightarrow> Some at)"

definition next_cursor :: "u16 \<Rightarrow> u16" where
  "next_cursor c = (if c = LAST_MID then 0 else c + 1)"

fun probe :: "nat \<Rightarrow> (mid \<times> entry) list \<Rightarrow> u16 \<Rightarrow> mid option \<times> u16" where
  "probe 0 es c = (None, c)"
| "probe (Suc n) es c =
     (if map_of es c = None then (Some c, next_cursor c) else probe n es (next_cursor c))"

definition allocate :: "table \<Rightarrow> mid option \<times> table" where
  "allocate tb =
     (if POOL \<le> length (tb_entries tb) then (None, tb)
      else (case probe POOL (tb_entries tb) (tb_cursor tb) of
              (found, c) \<Rightarrow> (found, tb\<lparr>tb_cursor := c\<rparr>)))"

definition bt_insert :: "instant \<times> mid \<Rightarrow> (instant \<times> mid) list \<Rightarrow> (instant \<times> mid) list" where
  "bt_insert x xs = (if x \<in> set xs then xs else insort x xs)"

definition dispatch ::
    "mid \<Rightarrow> u8 \<Rightarrow> caller option \<Rightarrow> assembly option \<Rightarrow> hook option \<Rightarrow> instant \<Rightarrow> table \<Rightarrow> table" where
  "dispatch mid command reply asm arranged now tb =
     (let silence_at = now + per_request (tb_timeouts tb);
          overall_at = now + overall (tb_timeouts tb) in
      tb\<lparr>tb_expiry := bt_insert (min silence_at overall_at, mid) (tb_expiry tb),
         tb_entries := AList.update mid
           \<lparr>en_command = command, en_assembly = asm, en_outcome = arranged,
            en_state = OnWire reply silence_at overall_at\<rparr> (tb_entries tb),
         tb_charging := tb_charging tb + 1\<rparr>)"

definition retire :: "mid \<Rightarrow> table \<Rightarrow> table \<times> halt option" where
  "retire mid tb =
     (case map_of (tb_entries tb) mid of
        None \<Rightarrow> (tb, Some (Panic ''only a request in the table is retired''))
      | Some e \<Rightarrow>
          (let tb = tb\<lparr>tb_entries := AList.update mid (e\<lparr>en_state := Retired, en_assembly := None\<rparr>)
                                      (tb_entries tb),
                       tb_retired := tb_retired tb + 1\<rparr> in
           (tb, if RETIREMENT_BUDGET \<le> tb_retired tb
                then Some (Failed (RetirementBudget (tb_retired tb))) else None)))"

definition reindex :: "instant option \<Rightarrow> instant option \<Rightarrow> mid \<Rightarrow> (instant \<times> mid) list \<Rightarrow> (instant \<times> mid) list" where
  "reindex before after mid xs =
     (if before = after then xs
      else
        (let xs = (case before of Some at \<Rightarrow> remove1 (at, mid) xs | None \<Rightarrow> xs) in
         case after of Some at \<Rightarrow> bt_insert (at, mid) xs | None \<Rightarrow> xs))"

definition table_accept :: "message \<Rightarrow> instant \<Rightarrow> table \<Rightarrow> table \<times> event list \<times> halt option" where
  "table_accept m now tb =
     (let mid = h_mid (header m); command = h_command (header m) in
      case map_of (tb_entries tb) mid of
        None \<Rightarrow> (tb, [], Some (Failed (Unroutable mid command)))
      | Some e \<Rightarrow>
          if en_state e = Retired then (tb, [], None)
          else if en_command e \<noteq> command then (tb, [], Some (Failed (Unroutable mid command)))
          else
            (case entry_accept m now (per_request (tb_timeouts tb)) e of
               Inl h \<Rightarrow> (tb, [], Some h)
             | Inr (e', evs, step) \<Rightarrow>
                 (let after = (if step = StepContinuing then expires_at e' else None);
                      tb = tb\<lparr>tb_entries := AList.update mid e' (tb_entries tb),
                              tb_expiry := reindex (expires_at e) after mid (tb_expiry tb)\<rparr> in
                  if charges e \<and> step \<noteq> StepContinuing \<and> tb_charging tb = 0
                  then (tb, evs, Some (Panic ''attempt to subtract with overflow''))
                  else
                    (let tb = (if charges e \<and> step \<noteq> StepContinuing
                               then tb\<lparr>tb_charging := tb_charging tb - 1\<rparr> else tb) in
                     case step of
                       StepContinuing \<Rightarrow> (tb, evs, None)
                     | StepCompleted \<Rightarrow>
                         (tb\<lparr>tb_entries := AList.delete mid (tb_entries tb)\<rparr>, evs, None)
                     | StepCorrupted \<Rightarrow>
                         (case retire mid tb of (tb, r) \<Rightarrow> (tb, evs, r))))))"

text \<open>
  One turn of the expiry loop for the deadline just popped.  A lapse delivers the timeout, drops
  the reassembly's buffer and gives the request its last deadline; a second expiry retires it.
\<close>

definition expire_one :: "instant \<Rightarrow> mid \<Rightarrow> table \<Rightarrow> table \<times> event list \<times> halt option" where
  "expire_one now mid tb =
     (let give_up_at = now + overall (tb_timeouts tb) * GIVE_UP_DEADLINES in
      case map_of (tb_entries tb) mid of
        None \<Rightarrow> (tb, [], Some (Panic ''the expiry index and the table agree''))
      | Some e \<Rightarrow>
          (case en_state e of
             OnWire _ _ _ \<Rightarrow>
               (case deliver (Inl Timeout) e of
                  (e, evs) \<Rightarrow>
                    (let e = e\<lparr>en_assembly := map_option assembly_release (en_assembly e),
                               en_state := Lapsed give_up_at\<rparr>;
                         tb = tb\<lparr>tb_entries := AList.update mid e (tb_entries tb)\<rparr> in
                     if tb_charging tb = 0
                     then (tb, evs, Some (Panic ''attempt to subtract with overflow''))
                     else (tb\<lparr>tb_charging := tb_charging tb - 1,
                              tb_expiry := bt_insert (give_up_at, mid) (tb_expiry tb)\<rparr>, evs, None)))
           | Lapsed _ \<Rightarrow> (case retire mid tb of (tb, r) \<Rightarrow> (tb, [], r))
           | Retired \<Rightarrow> (tb, [], Some (Panic ''a retired identity carries no deadline''))))"

definition held :: "(mid \<times> entry) list \<Rightarrow> nat" where
  "held es = length (filter (charges \<circ> snd) es)"

lemma held_update:
  "map_of es mid = Some e \<Longrightarrow>
     held (AList.update mid e' es) + (if charges e then 1 else 0) = held es + (if charges e' then 1 else 0)"
  by (induction es) (auto simp: held_def split: if_splits)

lemma length_bt_insert: "length (bt_insert x xs) \<le> Suc (length xs)"
  by (simp add: bt_insert_def)

lemma deliver_state:
  "deliver res e = (e', evs) \<Longrightarrow> charges e' = charges e \<and> expires_at e' = expires_at e
     \<and> en_assembly e' = en_assembly e \<and> en_command e' = en_command e"
  by (auto simp: deliver_def charges_def expires_at_def split: req_state.splits)

lemma expire_one_measure:
  assumes "expire_one now mid (tb\<lparr>tb_expiry := xs\<rparr>) = (tb', evs, None)"
  shows "length (tb_expiry tb') + held (tb_entries tb') < Suc (length xs) + held (tb_entries tb)"
proof -
  obtain e where e: "map_of (tb_entries tb) mid = Some e"
    using assms by (cases "map_of (tb_entries tb) mid") (simp_all add: expire_one_def)
  consider (wire) r s_at o_at where "en_state e = OnWire r s_at o_at"
    | (lapsed) g where "en_state e = Lapsed g" | (retired) "en_state e = Retired"
    by (cases "en_state e") auto
  then show ?thesis
  proof cases
    case wire
    obtain e' ev where d: "deliver (Inl Timeout) e = (e', ev)" by fastforce
    define e2 where "e2 = e'\<lparr>en_assembly := map_option assembly_release (en_assembly e'),
        en_state := Lapsed (now + overall (tb_timeouts tb) * GIVE_UP_DEADLINES)\<rparr>"
    have "tb_expiry tb' = bt_insert (now + overall (tb_timeouts tb) * GIVE_UP_DEADLINES, mid) xs"
        "tb_entries tb' = AList.update mid e2 (tb_entries tb)"
      using assms e wire d by (auto simp: expire_one_def e2_def Let_def split: if_splits)
    then show ?thesis
      using held_update [OF e, of e2] wire
        length_bt_insert [of "(now + overall (tb_timeouts tb) * GIVE_UP_DEADLINES, mid)" xs]
      by (simp add: e2_def charges_def)
  next
    case lapsed
    define e2 where "e2 = e\<lparr>en_state := Retired, en_assembly := None\<rparr>"
    have "tb_expiry tb' = xs" "tb_entries tb' = AList.update mid e2 (tb_entries tb)"
      using assms e lapsed by (auto simp: expire_one_def retire_def e2_def Let_def split: if_splits)
    then show ?thesis
      using held_update [OF e, of e2] lapsed by (simp add: e2_def charges_def)
  next
    case retired
    then show ?thesis using assms e by (simp add: expire_one_def)
  qed
qed

text \<open>
  The expiry loop.  Every turn pops one deadline; a lapse puts one back and takes a request off
  the wire, so the deadlines and the requests on the wire together go down.
\<close>

function expire :: "instant \<Rightarrow> table \<Rightarrow> table \<times> event list \<times> halt option" where
  "expire now tb =
     (case tb_expiry tb of
        [] \<Rightarrow> (tb, [], None)
      | (at, mid) # rest \<Rightarrow>
          if now < at then (tb, [], None)
          else
            (case expire_one now mid (tb\<lparr>tb_expiry := rest\<rparr>) of
               (tb, evs, Some h) \<Rightarrow> (tb, evs, Some h)
             | (tb, evs, None) \<Rightarrow>
                 (case expire now tb of (tb, evs', r) \<Rightarrow> (tb, evs @ evs', r))))"
  by pat_completeness auto

termination
  by (relation "measure (\<lambda>(now, tb). length (tb_expiry tb) + held (tb_entries tb))")
     (auto dest!: expire_one_measure [OF sym])

declare expire.simps [simp del]

definition fail_all :: "table \<Rightarrow> table \<times> event list" where
  "fail_all tb =
     (tb\<lparr>tb_entries := [], tb_expiry := [], tb_charging := 0\<rparr>,
      concat (map (\<lambda>(mid, e). if charges e then snd (deliver (Inl Lost) e) else [])
        (tb_entries tb)))"

section \<open>Sums over the table\<close>

definition weigh :: "(entry \<Rightarrow> 'a) \<Rightarrow> (mid \<times> entry) list \<Rightarrow> 'a::comm_monoid_add" where
  "weigh f es = sum_list (map (\<lambda>p. f (snd p)) es)"

lemma weigh_simps [simp]:
  "weigh f [] = 0"
  "weigh f ((k, e) # es) = f e + weigh f es"
  by (simp_all add: weigh_def)

lemma weigh_update:
  "map_of es k = Some e \<Longrightarrow> weigh f (AList.update k e' es) + f e = weigh f es + f e'"
  by (induction es) (auto simp: ac_simps split: if_splits)

lemma weigh_insert:
  "map_of es k = None \<Longrightarrow> weigh f (AList.update k e es) = weigh f es + f e"
  by (induction es) (auto simp: ac_simps split: if_splits)

lemma weigh_delete:
  "distinct (map fst es) \<Longrightarrow> map_of es k = Some e \<Longrightarrow> weigh f (AList.delete k es) + f e = weigh f es"
proof (induction es)
  case (Cons p es)
  obtain k' e' where p: "p = (k', e')" by (cases p)
  show ?case
  proof (cases "k' = k")
    case True
    then have "AList.delete k es = es" using Cons.prems p by (intro delete_id) auto
    then show ?thesis using True Cons.prems p by (simp add: AList.delete_eq ac_simps)
  next
    case False
    then have "weigh f (AList.delete k es) + f e = weigh f es" using Cons p by simp
    then show ?thesis using False p by (simp add: AList.delete_eq add.assoc)
  qed
qed simp

definition charge :: "entry \<Rightarrow> nat" where "charge e = (if charges e then 1 else 0)"
definition withheld :: "entry \<Rightarrow> nat" where "withheld e = (if en_state e = Retired then 1 else 0)"

definition entry_callers :: "entry \<Rightarrow> caller multiset" where
  "entry_callers e = (case en_state e of OnWire (Some c) _ _ \<Rightarrow> {#c#} | _ \<Rightarrow> {#})"

definition entry_hooks :: "entry \<Rightarrow> hook multiset" where
  "entry_hooks e = (case en_outcome e of Some h \<Rightarrow> {#h#} | None \<Rightarrow> {#})"

definition waiting_callers :: "table \<Rightarrow> caller multiset" where
  "waiting_callers tb = weigh entry_callers (tb_entries tb)"

definition pending_hooks :: "table \<Rightarrow> hook multiset" where
  "pending_hooks tb = weigh entry_hooks (tb_entries tb)"

fun replied_to :: "event list \<Rightarrow> caller multiset" where
  "replied_to [] = {#}"
| "replied_to (Replied c _ # evs) = add_mset c (replied_to evs)"
| "replied_to (Ended _ _ # evs) = replied_to evs"

fun hooks_ended :: "event list \<Rightarrow> hook multiset" where
  "hooks_ended [] = {#}"
| "hooks_ended (Ended h _ # evs) = add_mset h (hooks_ended evs)"
| "hooks_ended (Replied _ _ # evs) = hooks_ended evs"

lemma events_append [simp]:
  "replied_to (xs @ ys) = replied_to xs + replied_to ys"
  "hooks_ended (xs @ ys) = hooks_ended xs + hooks_ended ys"
  by (induction xs rule: replied_to.induct; simp)+

text \<open>Delivery pays exactly what the entry owed.\<close>

lemma deliver_pays:
  assumes "deliver res e = (e', evs)" "charges e"
  shows "replied_to evs = entry_callers e \<and> hooks_ended evs = entry_hooks e
    \<and> entry_callers e' = {#} \<and> entry_hooks e' = {#}"
  using assms
  by (auto simp: deliver_def charges_def entry_callers_def entry_hooks_def
      split: req_state.splits option.splits)

lemma deliver_silent: "deliver res e = (e', evs) \<Longrightarrow> \<not> charges e \<Longrightarrow> e' = e \<and> evs = []"
  by (auto simp: deliver_def charges_def split: req_state.splits)

section \<open>The deadline index\<close>

definition indexed :: "(mid \<Rightarrow> instant option) \<Rightarrow> (instant \<times> mid) list \<Rightarrow> bool" where
  "indexed f xs \<longleftrightarrow> sorted xs \<and> distinct xs \<and> (\<forall>at mid. (at, mid) \<in> set xs \<longleftrightarrow> f mid = Some at)"

definition deadlines :: "(mid \<times> entry) list \<Rightarrow> mid \<Rightarrow> instant option" where
  "deadlines es mid = Option.bind (map_of es mid) expires_at"

lemma bt_insert_spec:
  "sorted xs \<Longrightarrow> distinct xs \<Longrightarrow>
     sorted (bt_insert x xs) \<and> distinct (bt_insert x xs) \<and> set (bt_insert x xs) = insert x (set xs)"
  by (auto simp: bt_insert_def sorted_insort distinct_insort set_insort_key)

lemma reindex_indexed:
  assumes "indexed f xs"
  shows "indexed (f(mid := after)) (reindex (f mid) after mid xs)"
proof (cases "f mid = after")
  case True
  then show ?thesis using assms by (simp add: reindex_def fun_upd_idem)
next
  case False
  define ys where "ys = (case f mid of Some at \<Rightarrow> remove1 (at, mid) xs | None \<Rightarrow> xs)"
  have xs: "sorted xs" "distinct xs" "\<And>at m. (at, m) \<in> set xs \<longleftrightarrow> f m = Some at"
    using assms by (auto simp: indexed_def)
  have ys: "sorted ys" "distinct ys" "\<And>at m. (at, m) \<in> set ys \<longleftrightarrow> f m = Some at \<and> m \<noteq> mid"
    using xs by (auto simp: ys_def sorted_remove1 split: option.splits)
  have "indexed (f(mid := after)) (case after of Some at \<Rightarrow> bt_insert (at, mid) ys | None \<Rightarrow> ys)"
    using ys bt_insert_spec [OF ys(1,2)] by (auto simp: indexed_def split: option.splits)
  then show ?thesis using False
    by (cases after; cases "f mid") (simp_all add: reindex_def ys_def Let_def)
qed

lemma indexed_insert:
  "indexed f xs \<Longrightarrow> f mid = None \<Longrightarrow> indexed (f(mid := Some at)) (bt_insert (at, mid) xs)"
  using reindex_indexed [of f xs mid "Some at"] by (simp add: reindex_def)

lemma indexed_pop:
  assumes "indexed f ((at, mid) # xs)"
  shows "f mid = Some at \<and> indexed (f(mid := None)) xs"
proof -
  have "f mid = Some at" using assms by (auto simp: indexed_def)
  then show ?thesis using reindex_indexed [OF assms, of mid None] by (simp add: reindex_def)
qed

lemma deadlines_update [simp]:
  "deadlines (AList.update mid e es) = (deadlines es)(mid := expires_at e)"
  by (auto simp: deadlines_def map_of_update)

lemma deadlines_delete [simp]: "deadlines (AList.delete mid es) = (deadlines es)(mid := None)"
  by (auto simp: deadlines_def map_of_delete)

section \<open>The table's invariant\<close>

text \<open>
  A request on the wire holds its reassembly's buffer; a lapsed one has neither buffer nor hook; a
  retired one keeps nothing.
\<close>

definition entry_ok :: "entry \<Rightarrow> bool" where
  "entry_ok e =
     (case en_state e of
        OnWire _ _ _ \<Rightarrow> pred_option as_buffered (en_assembly e)
      | Lapsed _ \<Rightarrow> en_outcome e = None \<and> pred_option (\<lambda>a. \<not> as_buffered a) (en_assembly e)
      | Retired \<Rightarrow> en_outcome e = None \<and> en_assembly e = None)"

definition table_inv :: "table \<Rightarrow> bool" where
  "table_inv tb \<longleftrightarrow>
     distinct (map fst (tb_entries tb))
     \<and> (\<forall>mid e. map_of (tb_entries tb) mid = Some e \<longrightarrow> mid \<le> LAST_MID \<and> entry_ok e)
     \<and> tb_cursor tb \<le> LAST_MID
     \<and> indexed (deadlines (tb_entries tb)) (tb_expiry tb)
     \<and> tb_charging tb = weigh charge (tb_entries tb)
     \<and> tb_retired tb = weigh withheld (tb_entries tb)"

lemma table_inv_new: "table_inv (table_new limit ts)"
  by (simp add: table_inv_def table_new_def indexed_def deadlines_def)

lemma table_inv_cursor: "table_inv tb \<Longrightarrow> c \<le> LAST_MID \<Longrightarrow> table_inv (tb\<lparr>tb_cursor := c\<rparr>)"
  by (simp add: table_inv_def)

text \<open>Replacing one request's row, with the counts and the index following it.\<close>

lemma table_inv_put:
  assumes "table_inv tb" "map_of (tb_entries tb) mid = Some e" "entry_ok e'"
    and "tb_entries tb' = AList.update mid e' (tb_entries tb)" "tb_cursor tb' = tb_cursor tb"
    and "indexed ((deadlines (tb_entries tb))(mid := expires_at e')) (tb_expiry tb')"
    and "tb_charging tb' + charge e = tb_charging tb + charge e'"
    and "tb_retired tb' + withheld e = tb_retired tb + withheld e'"
  shows "table_inv tb'"
  using assms weigh_update [OF assms(2), of charge e'] weigh_update [OF assms(2), of withheld e']
  by (auto simp: table_inv_def map_of_update distinct_update)

lemma table_inv_insert:
  assumes "table_inv tb" "map_of (tb_entries tb) mid = None" "entry_ok e" "mid \<le> LAST_MID"
    and "tb_entries tb' = AList.update mid e (tb_entries tb)" "tb_cursor tb' = tb_cursor tb"
    and "indexed ((deadlines (tb_entries tb))(mid := expires_at e)) (tb_expiry tb')"
    and "tb_charging tb' = tb_charging tb + charge e"
    and "tb_retired tb' = tb_retired tb + withheld e"
  shows "table_inv tb'"
  using assms weigh_insert [OF assms(2), of charge e] weigh_insert [OF assms(2), of withheld e]
  by (auto simp: table_inv_def map_of_update distinct_update)

lemma table_inv_drop:
  assumes "table_inv tb" "map_of (tb_entries tb) mid = Some e"
    and "tb_entries tb' = AList.delete mid (tb_entries tb)" "tb_cursor tb' = tb_cursor tb"
    and "indexed ((deadlines (tb_entries tb))(mid := None)) (tb_expiry tb')"
    and "tb_charging tb' + charge e = tb_charging tb"
    and "tb_retired tb' + withheld e = tb_retired tb"
  shows "table_inv tb'"
  using assms weigh_delete [OF _ assms(2), of charge] weigh_delete [OF _ assms(2), of withheld]
  by (auto simp: table_inv_def map_of_delete distinct_delete)

lemma charge_le: "table_inv tb \<Longrightarrow> map_of (tb_entries tb) mid = Some e \<Longrightarrow> charge e \<le> tb_charging tb"
  using weigh_update [of "tb_entries tb" mid e charge "e\<lparr>en_state := Retired\<rparr>"]
  by (simp add: table_inv_def charge_def charges_def split: req_state.splits)

section \<open>Allocation\<close>

definition pool_at :: "u16 \<Rightarrow> nat \<Rightarrow> u16" where
  "pool_at c k = of_nat ((unat c + k) mod POOL)"

lemma last_mid_nat: "c \<le> LAST_MID \<longleftrightarrow> unat c < POOL" "c = LAST_MID \<longleftrightarrow> unat c = 65534"
proof -
  have *: "unat LAST_MID = 65534" by (simp add: LAST_MID_def)
  show "c \<le> LAST_MID \<longleftrightarrow> unat c < POOL" unfolding word_le_nat_alt * POOL_def by auto
  show "c = LAST_MID \<longleftrightarrow> unat c = 65534" using * by (metis word_unat_eq_iff)
qed

lemma unat_next_cursor:
  assumes "c \<le> LAST_MID"
  shows "unat (next_cursor c) = Suc (unat c) mod POOL"
proof (cases "c = LAST_MID")
  case True
  then show ?thesis by (simp add: next_cursor_def LAST_MID_def POOL_def)
next
  case False
  then have c: "unat c < 65534" using assms last_mid_nat [of c] by (simp add: POOL_def)
  then have "unat (c + 1) = Suc (unat c)" by (simp add: unat_word_ariths)
  then show ?thesis using False c by (simp add: next_cursor_def POOL_def)
qed

lemma next_cursor_le: "c \<le> LAST_MID \<Longrightarrow> next_cursor c \<le> LAST_MID"
  using unat_next_cursor [of c] by (simp add: last_mid_nat(1) POOL_def)

lemma probe_None:
  assumes "probe n es c = (None, c')" "c \<le> LAST_MID" "k < n"
  shows "map_of es (pool_at c k) \<noteq> None"
  using assms
proof (induction n arbitrary: c k)
  case (Suc n)
  have h: "map_of es c \<noteq> None" and p: "probe n es (next_cursor c) = (None, c')"
    using Suc.prems(1) by (auto split: if_splits)
  have c: "unat c < POOL" using Suc.prems(2) by (simp add: last_mid_nat)
  show ?case
  proof (cases k)
    case 0
    then show ?thesis using h c by (simp add: pool_at_def)
  next
    case (Suc j)
    have "pool_at (next_cursor c) j = pool_at c k"
      using Suc unat_next_cursor [OF Suc.prems(2)] by (simp add: pool_at_def mod_add_left_eq)
    then show ?thesis
      using Suc.IH [OF p next_cursor_le [OF Suc.prems(2)]] Suc.prems(3) Suc by (metis Suc_less_eq)
  qed
qed simp

lemma probe_Some:
  "probe n es c = (Some mid, c') \<Longrightarrow> c \<le> LAST_MID \<Longrightarrow> mid \<le> LAST_MID \<and> map_of es mid = None"
  by (induction n arbitrary: c) (auto simp: next_cursor_le split: if_splits)

lemma probe_cursor: "probe n es c = (r, c') \<Longrightarrow> c \<le> LAST_MID \<Longrightarrow> c' \<le> LAST_MID"
  by (induction n arbitrary: c) (auto simp: next_cursor_le split: if_splits)

lemma pool_covered:
  assumes "c \<le> LAST_MID" "mid \<le> LAST_MID"
  shows "\<exists>k < POOL. pool_at c k = mid"
proof (intro exI conjI)
  let ?k = "(unat mid + (POOL - unat c)) mod POOL"
  show "?k < POOL" by (simp add: POOL_def)
  have "unat c + (unat mid + (POOL - unat c)) = unat mid + POOL"
    using assms(1) by (simp add: last_mid_nat)
  then have "(unat c + ?k) mod POOL = unat mid"
    using assms(2) by (simp add: mod_add_right_eq last_mid_nat)
  then show "pool_at c ?k = mid" by (simp add: pool_at_def)
qed

lemma allocate_finds:
  assumes inv: "table_inv tb" and room: "length (tb_entries tb) < POOL"
  shows "\<exists>mid tb'. allocate tb = (Some mid, tb')"
proof (rule ccontr)
  assume "\<not> ?thesis"
  then obtain c' where none: "probe POOL (tb_entries tb) (tb_cursor tb) = (None, c')"
    using room by (auto simp: allocate_def split: prod.splits)
  have c: "tb_cursor tb \<le> LAST_MID" using inv by (simp add: table_inv_def)
  have "{mid. mid \<le> LAST_MID} \<subseteq> fst ` set (tb_entries tb)"
  proof
    fix mid :: mid assume "mid \<in> {mid. mid \<le> LAST_MID}"
    then obtain k where "k < POOL" "pool_at (tb_cursor tb) k = mid" using pool_covered [OF c] by auto
    then have "map_of (tb_entries tb) mid \<noteq> None" using probe_None [OF none c] by auto
    then show "mid \<in> fst ` set (tb_entries tb)" by (simp add: map_of_eq_None_iff)
  qed
  then have "card {mid. mid \<le> LAST_MID} \<le> card (fst ` set (tb_entries tb))" by (intro card_mono) auto
  also have "\<dots> \<le> length (tb_entries tb)" by (metis card_length length_map list.set_map)
  finally have le: "card {mid. mid \<le> LAST_MID} \<le> length (tb_entries tb)" .
  have "inj_on (of_nat :: nat \<Rightarrow> mid) {..<POOL}"
    by (auto simp: inj_on_def POOL_def word_unat_eq_iff unat_of_nat)
  then have "card ((of_nat :: nat \<Rightarrow> mid) ` {..<POOL}) = POOL" by (simp add: card_image)
  moreover have "(of_nat :: nat \<Rightarrow> mid) ` {..<POOL} \<subseteq> {mid. mid \<le> LAST_MID}"
    by (auto simp: last_mid_nat POOL_def unat_of_nat)
  ultimately have "POOL \<le> card {mid :: mid. mid \<le> LAST_MID}"
    using card_mono [of "{mid :: mid. mid \<le> LAST_MID}" "of_nat ` {..<POOL}"] by simp
  then show False using le room by simp
qed

text \<open>
  C37. Allocation hands out an id no request holds and no retired identity keeps, never the
  reserved 0xFFFF, and changes nothing but where the next search starts; it fails exactly when all
  65,535 ids are held at once.
\<close>

theorem allocate_fresh:
  assumes "table_inv tb"
  shows "case allocate tb of
      (Some mid, tb') \<Rightarrow> map_of (tb_entries tb) mid = None \<and> mid \<noteq> 0xFFFF
        \<and> tb' = tb\<lparr>tb_cursor := tb_cursor tb'\<rparr> \<and> table_inv tb'
    | (None, tb') \<Rightarrow> length (tb_entries tb) = POOL \<and> tb' = tb"
proof -
  have c: "tb_cursor tb \<le> LAST_MID" using assms by (simp add: table_inv_def)
  have "fst ` set (tb_entries tb) \<subseteq> {mid. mid \<le> LAST_MID}"
    using assms by (auto simp: table_inv_def map_of_eq_Some_iff)
  also have "{mid :: mid. mid \<le> LAST_MID} \<subseteq> of_nat ` {..<POOL}"
    by (auto simp: last_mid_nat intro!: image_eqI [of _ _ "unat x" for x])
  finally have "card (fst ` set (tb_entries tb)) \<le> card ((of_nat :: nat \<Rightarrow> mid) ` {..<POOL})"
    by (intro card_mono) auto
  then have "card (set (map fst (tb_entries tb))) \<le> POOL"
    using card_image_le [of "{..<POOL}" "of_nat :: nat \<Rightarrow> mid"] by simp
  then have len: "length (tb_entries tb) \<le> POOL"
    using assms by (simp only: distinct_card table_inv_def) simp
  show ?thesis
  proof (cases "POOL \<le> length (tb_entries tb)")
    case True
    then show ?thesis using len by (simp add: allocate_def)
  next
    case False
    then obtain mid c' where a: "probe POOL (tb_entries tb) (tb_cursor tb) = (Some mid, c')"
      using allocate_finds [OF assms] by (auto simp: allocate_def split: prod.splits)
    moreover have "mid \<noteq> 0xFFFF" using probe_Some [OF a c] by (auto simp: LAST_MID_def)
    moreover have "table_inv (tb\<lparr>tb_cursor := c'\<rparr>)"
      using table_inv_cursor assms probe_cursor [OF a c] by blast
    ultimately show ?thesis using False probe_Some [OF a c] by (simp add: allocate_def)
  qed
qed

theorem allocate_fresh_witness:
  "case allocate (table_new 50 \<lparr>per_request = 30, overall = 300\<rparr>) of
     (Some mid, _) \<Rightarrow> mid \<noteq> 0xFFFF | (None, _) \<Rightarrow> False"
  using allocate_fresh [OF table_inv_new [of 50 "\<lparr>per_request = 30, overall = 300\<rparr>"]]
  by (auto simp: table_new_def POOL_def split: prod.splits option.splits)

section \<open>What each operation keeps and pays\<close>

lemma touch_simps [simp]:
  "charges (touch now per e) = charges e"
  "entry_callers (touch now per e) = entry_callers e"
  "entry_hooks (touch now per e) = entry_hooks e"
  "entry_ok (touch now per e) = entry_ok e"
  "en_assembly (touch now per e) = en_assembly e"
  "en_command (touch now per e) = en_command e"
  "withheld (touch now per e) = withheld e"
  by (auto simp: touch_def charges_def entry_callers_def entry_hooks_def entry_ok_def withheld_def
      split: req_state.splits)

lemma entry_assembly_simps [simp]:
  "charges (e\<lparr>en_assembly := x\<rparr>) = charges e"
  "entry_callers (e\<lparr>en_assembly := x\<rparr>) = entry_callers e"
  "entry_hooks (e\<lparr>en_assembly := x\<rparr>) = entry_hooks e"
  "withheld (e\<lparr>en_assembly := x\<rparr>) = withheld e"
  by (auto simp: charges_def entry_callers_def entry_hooks_def withheld_def)

lemma uncharged_owes_nothing:
  "entry_ok e \<Longrightarrow> \<not> charges e \<Longrightarrow> entry_callers e = {#} \<and> entry_hooks e = {#}"
  by (auto simp: entry_ok_def charges_def entry_callers_def entry_hooks_def split: req_state.splits)

lemma deliver_settles:
  assumes "deliver res e = (e', evs)" "entry_callers e = entry_callers e0" "entry_hooks e = entry_hooks e0"
    "charges e = charges e0" "entry_ok e0"
  shows "replied_to evs = entry_callers e0 \<and> hooks_ended evs = entry_hooks e0
    \<and> entry_callers e' = {#} \<and> entry_hooks e' = {#} \<and> charges e' = charges e0"
proof (cases "charges e")
  case True
  then show ?thesis using deliver_pays [OF assms(1)] deliver_state [OF assms(1)] assms(2-4) by simp
next
  case False
  then show ?thesis
    using deliver_silent [OF assms(1)] uncharged_owes_nothing [OF assms(5)] assms(2-4) by simp
qed

lemma classify_Fragment: "classify m b = Inr (Fragment r) \<Longrightarrow> b"
  by (auto simp: classify_def Let_def split: if_splits sum.splits)

lemma entry_accept_no_panic: "entry_accept m now per e \<noteq> Inl h"
  by (auto simp: entry_accept_def Let_def split: sum.split arrival.split option.split prod.split
      progress.split dest: classify_Fragment)

definition settled :: "entry \<Rightarrow> entry \<Rightarrow> event list \<Rightarrow> bool" where
  "settled e e' evs \<longleftrightarrow>
     replied_to evs = entry_callers e \<and> hooks_ended evs = entry_hooks e
     \<and> entry_callers e' = {#} \<and> entry_hooks e' = {#} \<and> charges e' = charges e"

definition kept :: "entry \<Rightarrow> entry \<Rightarrow> event list \<Rightarrow> bool" where
  "kept e e' evs \<longleftrightarrow>
     evs = [] \<and> entry_callers e' = entry_callers e \<and> entry_hooks e' = entry_hooks e
     \<and> charges e' = charges e \<and> entry_ok e' \<and> withheld e' = withheld e \<and> en_command e' = en_command e"

lemma corrupt_settles:
  "corrupt err (touch now per e) = (e', evs, step) \<Longrightarrow> entry_ok e \<Longrightarrow>
     step = StepCorrupted \<and> settled e e' evs"
  unfolding settled_def corrupt_def
  by (auto split: prod.splits dest: deliver_settles [where ?e0.0 = e])

lemma assembly_accept_buffered: "assembly_accept r a = Inr (a', pr) \<Longrightarrow> as_buffered a' = as_buffered a"
  by (erule assembly_accept_cases) simp

lemma entry_ok_assembly:
  "entry_ok e \<Longrightarrow> en_assembly e = Some a \<Longrightarrow> as_buffered a' = as_buffered a \<Longrightarrow>
     entry_ok (e\<lparr>en_assembly := Some a'\<rparr>)"
  by (auto simp: entry_ok_def split: req_state.splits)

lemma entry_accept_step:
  assumes acc: "entry_accept m now per e = Inr (e', evs, step)" and ok: "entry_ok e"
  shows "(step = StepContinuing \<longrightarrow> kept e e' evs) \<and> (step \<noteq> StepContinuing \<longrightarrow> settled e e' evs)"
proof (cases "classify m (en_assembly e \<noteq> None)")
  case (Inl err)
  then show ?thesis using acc by (auto simp: entry_accept_def Let_def dest: corrupt_settles [OF _ ok])
next
  case (Inr arr)
  show ?thesis
  proof (cases arr)
    case Interim
    then show ?thesis using acc Inr ok by (auto simp: entry_accept_def Let_def kept_def)
  next
    case (CompleteResponse t)
    then show ?thesis
      using acc Inr ok
      by (auto simp: entry_accept_def Let_def settled_def split: prod.splits
          dest: deliver_settles [where ?e0.0 = e])
  next
    case (Fragment r)
    then obtain a where a: "en_assembly e = Some a" using Inr classify_Fragment by blast
    show ?thesis
    proof (cases "assembly_accept r a")
      case (Inl err)
      then show ?thesis
        using acc Fragment a \<open>classify m _ = Inr arr\<close>
        by (auto simp: entry_accept_def Let_def dest: corrupt_settles [OF _ ok])
    next
      case (Inr q)
      obtain a' pr where q: "q = (a', pr)" by (cases q)
      show ?thesis
      proof (cases pr)
        case Continuing
        have "entry_ok ((touch now per e)\<lparr>en_assembly := Some a'\<rparr>)"
          using assembly_accept_buffered [of r a a' pr] Inr q ok a
          by (intro entry_ok_assembly [of _ a]) auto
        then show ?thesis
          using acc Inr q Continuing Fragment a \<open>classify m _ = Inr arr\<close>
          by (auto simp: entry_accept_def Let_def kept_def)
      next
        case Complete
        then show ?thesis
          using acc Inr q Fragment a ok \<open>classify m _ = Inr arr\<close>
          by (auto simp: entry_accept_def Let_def settled_def split: prod.splits
              dest: deliver_settles [where ?e0.0 = e])
      qed
    qed
  qed
qed

text \<open>
  What one operation does to the table: its invariant is kept, every caller and every hook is
  either still held or among the events, nothing but the request's own capacity is given back,
  and nothing panics.
\<close>

definition table_step_ok :: "table \<Rightarrow> table \<Rightarrow> event list \<Rightarrow> halt option \<Rightarrow> bool" where
  "table_step_ok tb tb' evs r \<longleftrightarrow>
     table_inv tb'
     \<and> waiting_callers tb = waiting_callers tb' + replied_to evs
     \<and> pending_hooks tb = pending_hooks tb' + hooks_ended evs
     \<and> tb_charging tb' \<le> tb_charging tb \<and> tb_limit tb' = tb_limit tb
     \<and> tb_timeouts tb' = tb_timeouts tb
     \<and> (\<forall>s. r \<noteq> Some (Panic s))
     \<and> (tb_retired tb < RETIREMENT_BUDGET \<and> r = None \<longrightarrow> tb_retired tb' < RETIREMENT_BUDGET)"

lemma table_step_ok_refl: "table_inv tb \<Longrightarrow> (\<And>s. r \<noteq> Some (Panic s)) \<Longrightarrow> table_step_ok tb tb [] r"
  by (simp add: table_step_ok_def)

lemma table_step_ok_trans:
  "table_step_ok tb tb1 evs1 None \<Longrightarrow> table_step_ok tb1 tb2 evs2 r \<Longrightarrow>
     table_step_ok tb tb2 (evs1 @ evs2) r"
  by (auto simp: table_step_ok_def)

lemma waiting_update:
  "map_of (tb_entries tb) mid = Some e \<Longrightarrow> tb_entries tb' = AList.update mid e' (tb_entries tb) \<Longrightarrow>
     waiting_callers tb' + entry_callers e = waiting_callers tb + entry_callers e'
     \<and> pending_hooks tb' + entry_hooks e = pending_hooks tb + entry_hooks e'"
  by (simp add: waiting_callers_def pending_hooks_def weigh_update)

lemma waiting_delete:
  "distinct (map fst (tb_entries tb)) \<Longrightarrow> map_of (tb_entries tb) mid = Some e \<Longrightarrow>
     tb_entries tb' = AList.delete mid (tb_entries tb) \<Longrightarrow>
     waiting_callers tb' + entry_callers e = waiting_callers tb
     \<and> pending_hooks tb' + entry_hooks e = pending_hooks tb"
  by (simp add: waiting_callers_def pending_hooks_def weigh_delete)

lemma kept_same: "kept e e' evs \<Longrightarrow> charge e' = charge e \<and> withheld e' = withheld e"
  by (simp add: kept_def charge_def)

lemma no_hooks: "entry_hooks e = {#} \<longleftrightarrow> en_outcome e = None"
  by (simp add: entry_hooks_def split: option.split)

text \<open>
  Retiring a request that has just been settled (or lapsed): \<open>tb1\<close> is the table with that
  request's row already written, its deadline gone and its capacity given back.
\<close>

lemma retire_ok:
  assumes inv: "table_inv tb" and e: "map_of (tb_entries tb) mid = Some e" "withheld e = 0"
    and e': "en_outcome e' = None" "replied_to evs = entry_callers e" "hooks_ended evs = entry_hooks e"
    and tb1: "tb_entries tb1 = AList.update mid e' (tb_entries tb)"
      "indexed ((deadlines (tb_entries tb))(mid := None)) (tb_expiry tb1)"
      "tb_charging tb1 + charge e = tb_charging tb" "tb_retired tb1 = tb_retired tb"
      "tb_cursor tb1 = tb_cursor tb" "tb_limit tb1 = tb_limit tb" "tb_timeouts tb1 = tb_timeouts tb"
    and ret: "retire mid tb1 = (tb', r)"
  shows "table_step_ok tb tb' evs r"
proof -
  define e2 where "e2 = e'\<lparr>en_state := Retired, en_assembly := None\<rparr>"
  have e2: "entry_ok e2" "expires_at e2 = None" "charge e2 = 0" "withheld e2 = 1"
      "entry_callers e2 = {#}" "entry_hooks e2 = {#}"
    using e'(1) by (simp_all add: e2_def entry_ok_def expires_at_def charge_def charges_def
        withheld_def entry_callers_def entry_hooks_def)
  have tb': "tb_entries tb' = AList.update mid e2 (tb_entries tb)" "tb_expiry tb' = tb_expiry tb1"
      "tb_charging tb' = tb_charging tb1" "tb_retired tb' = tb_retired tb + 1"
      "tb_cursor tb' = tb_cursor tb" "tb_limit tb' = tb_limit tb" "tb_timeouts tb' = tb_timeouts tb"
      "\<And>s. r \<noteq> Some (Panic s)" "r = None \<longrightarrow> tb_retired tb' < RETIREMENT_BUDGET"
    using ret tb1 by (auto simp: retire_def Let_def e2_def map_of_update split: if_splits)
  have "table_inv tb'"
    using tb1(2,3) e2 tb' e(2) by (intro table_inv_put [OF inv e(1)]) auto
  then show ?thesis
    using tb' tb1(3) waiting_update [OF e(1) tb'(1)] e2 e'(2,3) by (simp add: table_step_ok_def)
qed

lemma table_accept_ok:
  assumes inv: "table_inv tb" and acc: "table_accept m now tb = (tb', evs, r)"
  shows "table_step_ok tb tb' evs r"
proof -
  let ?mid = "h_mid (header m)"
  show ?thesis
  proof (cases "map_of (tb_entries tb) ?mid")
    case None
    then show ?thesis using acc inv by (auto simp: table_accept_def Let_def intro: table_step_ok_refl)
  next
    case (Some e)
    note e = this
    have ok: "entry_ok e" using inv e by (auto simp: table_inv_def)
    show ?thesis
    proof (cases "en_state e = Retired \<or> en_command e \<noteq> h_command (header m)")
      case True
      then show ?thesis
        using acc inv e by (auto simp: table_accept_def Let_def intro: table_step_ok_refl split: if_splits)
    next
      case False
      then have w: "withheld e = 0" by (simp add: withheld_def)
      obtain e' ev step where ea: "entry_accept m now (per_request (tb_timeouts tb)) e = Inr (e', ev, step)"
        using entry_accept_no_panic [of m now "per_request (tb_timeouts tb)" e]
        by (cases "entry_accept m now (per_request (tb_timeouts tb)) e") auto
      note step = entry_accept_step [OF ea ok]
      define xs where "xs = reindex (expires_at e) (if step = StepContinuing then expires_at e' else None)
          ?mid (tb_expiry tb)"
      have dl: "deadlines (tb_entries tb) ?mid = expires_at e" using e by (simp add: deadlines_def)
      have xs: "indexed ((deadlines (tb_entries tb))(?mid :=
          if step = StepContinuing then expires_at e' else None)) xs"
        using reindex_indexed [of "deadlines (tb_entries tb)" "tb_expiry tb" ?mid] inv
        unfolding xs_def dl by (simp add: table_inv_def)
      define tb1 where "tb1 = tb\<lparr>tb_entries := AList.update ?mid e' (tb_entries tb), tb_expiry := xs,
          tb_charging := (if step \<noteq> StepContinuing then tb_charging tb - charge e else tb_charging tb)\<rparr>"
      have cl: "charge e \<le> tb_charging tb" by (rule charge_le [OF inv e])
      have acc': "(tb', evs, r) = (case step of
            StepContinuing \<Rightarrow> (tb1, ev, None)
          | StepCompleted \<Rightarrow> (tb1\<lparr>tb_entries := AList.delete ?mid (tb_entries tb1)\<rparr>, ev, None)
          | StepCorrupted \<Rightarrow> (case retire ?mid tb1 of (tb2, r) \<Rightarrow> (tb2, ev, r)))"
        using acc False e ea cl
        by (cases step; cases tb) (auto simp: table_accept_def Let_def tb1_def xs_def charge_def
            split: if_splits prod.splits)
      show ?thesis
      proof (cases step)
        case StepContinuing
        then have k: "kept e e' ev" using step by simp
        have tb': "tb' = tb1" "evs = ev" "r = None" using acc' StepContinuing by simp_all
        have "table_inv tb'"
          using k kept_same [OF k] xs StepContinuing
          by (intro table_inv_put [OF inv e, of e'])
            (simp_all add: tb' tb1_def kept_def)
        moreover have "tb_entries tb' = AList.update ?mid e' (tb_entries tb)" by (simp add: tb' tb1_def)
        ultimately show ?thesis
          using waiting_update [OF e, of tb' e'] k StepContinuing
          by (simp add: table_step_ok_def kept_def tb' tb1_def)
      next
        case StepCompleted
        then have st: "settled e e' ev" using step by simp
        have tb': "tb' = tb1\<lparr>tb_entries := AList.delete ?mid (tb_entries tb1)\<rparr>" "evs = ev" "r = None"
          using acc' StepCompleted by simp_all
        have del: "tb_entries tb' = AList.delete ?mid (tb_entries tb)"
          by (simp add: tb' tb1_def delete_update_same)
        have "table_inv tb'"
          using xs StepCompleted cl w
          by (intro table_inv_drop [OF inv e del]) (simp_all add: tb' tb1_def)
        moreover have "distinct (map fst (tb_entries tb))" using inv by (simp add: table_inv_def)
        ultimately show ?thesis
          using waiting_delete [OF _ e del] st StepCompleted
          by (simp add: table_step_ok_def settled_def tb' tb1_def)
      next
        case StepCorrupted
        then have st: "settled e e' ev" using step by simp
        obtain tb2 r2 where ret: "retire ?mid tb1 = (tb2, r2)" by fastforce
        then have tb': "tb' = tb2" "evs = ev" "r = r2" using acc' StepCorrupted by simp_all
        show ?thesis
          unfolding tb'
          using st xs StepCorrupted cl w no_hooks [of e'] ret
          by (intro retire_ok [OF inv e w _ _ _ _ _ _ _ _ _ _ ret, of e'])
            (simp_all add: tb1_def settled_def)
      qed
    qed
  qed
qed

lemma lapse_entry:
  assumes "deliver res e = (e', evs)" "charges e" "entry_ok e"
    and "e2 = e'\<lparr>en_assembly := map_option assembly_release (en_assembly e'), en_state := Lapsed g\<rparr>"
  shows "entry_ok e2 \<and> expires_at e2 = Some g \<and> charge e2 = 0 \<and> withheld e2 = 0
    \<and> entry_callers e2 = {#} \<and> entry_hooks e2 = {#}"
  using deliver_pays [OF assms(1,2)]
  by (auto simp: assms(4) entry_ok_def expires_at_def charge_def charges_def withheld_def
      entry_callers_def no_hooks assembly_release_def pred_option_def)

lemma expire_one_ok:
  assumes inv: "table_inv tb" and first: "tb_expiry tb = (at, mid) # rest"
    and one: "expire_one now mid (tb\<lparr>tb_expiry := rest\<rparr>) = (tb', evs, r)"
  shows "table_step_ok tb tb' evs r"
proof -
  have ix: "deadlines (tb_entries tb) mid = Some at"
      "indexed ((deadlines (tb_entries tb))(mid := None)) rest"
    using indexed_pop [of "deadlines (tb_entries tb)" at mid rest] inv first
    by (simp_all add: table_inv_def)
  then obtain e where e: "map_of (tb_entries tb) mid = Some e" "expires_at e = Some at"
    by (auto simp: deadlines_def bind_eq_Some_conv)
  have ok: "entry_ok e" using inv e by (auto simp: table_inv_def)
  show ?thesis
  proof (cases "charges e")
    case True
    let ?g = "now + overall (tb_timeouts tb) * GIVE_UP_DEADLINES"
    obtain e' ev where d: "deliver (Inl Timeout) e = (e', ev)" by fastforce
    define e2 where "e2 = e'\<lparr>en_assembly := map_option assembly_release (en_assembly e'),
        en_state := Lapsed ?g\<rparr>"
    note e2 = lapse_entry [OF d True ok e2_def]
    have cl: "charge e \<le> tb_charging tb" "charge e = 1"
      using charge_le [OF inv e(1)] True by (simp_all add: charge_def)
    have tb': "tb' = tb\<lparr>tb_entries := AList.update mid e2 (tb_entries tb),
          tb_charging := tb_charging tb - 1, tb_expiry := bt_insert (?g, mid) rest\<rparr>"
        "evs = ev" "r = None"
      using one e d True cl
      by (auto simp: expire_one_def charges_def e2_def Let_def split: req_state.splits if_splits)
    have "withheld e = 0" using True by (simp add: charges_def withheld_def split: req_state.splits)
    moreover have "indexed ((deadlines (tb_entries tb))(mid := Some ?g)) (bt_insert (?g, mid) rest)"
      using indexed_insert [OF ix(2), of mid ?g] by simp
    ultimately have "table_inv tb'"
      using e2 cl by (intro table_inv_put [OF inv e(1), of e2]) (simp_all add: tb')
    moreover have "tb_entries tb' = AList.update mid e2 (tb_entries tb)" by (simp add: tb')
    ultimately show ?thesis
      using waiting_update [OF e(1), of tb' e2] deliver_pays [OF d True] e2
      by (simp add: table_step_ok_def tb')
  next
    case False
    then obtain g where lapsed: "en_state e = Lapsed g"
      using e(2) by (auto simp: charges_def expires_at_def split: req_state.splits)
    obtain tb2 where ret: "retire mid (tb\<lparr>tb_expiry := rest\<rparr>) = (tb2, r)" "tb' = tb2" "evs = []"
      using one e lapsed by (auto simp: expire_one_def split: prod.splits)
    have same: "AList.update mid e (tb_entries tb) = tb_entries tb" using e(1) by (rule update_triv)
    show ?thesis
      unfolding ret(2,3)
      using lapsed ok uncharged_owes_nothing [OF ok False] ix(2) False
      by (intro retire_ok [OF inv e(1) _ _ _ _ _ _ _ _ _ _ _ ret(1), of e])
        (simp_all add: same withheld_def entry_ok_def charge_def)
  qed
qed

lemma expire_ok: "table_inv tb \<Longrightarrow> expire now tb = (tb', evs, r) \<Longrightarrow> table_step_ok tb tb' evs r"
proof (induction now tb arbitrary: tb' evs r rule: expire.induct)
  case (1 now tb)
  show ?case
  proof (cases "tb_expiry tb")
    case Nil
    then show ?thesis using 1(2,3) by (auto simp: expire.simps [of now tb] intro: table_step_ok_refl)
  next
    case (Cons p rest)
    obtain at mid where p: "p = (at, mid)" by (cases p)
    obtain tb1 ev1 r1 where one: "expire_one now mid (tb\<lparr>tb_expiry := rest\<rparr>) = (tb1, ev1, r1)"
      by (metis prod_cases3)
    note ok = expire_one_ok [OF 1(2) Cons [unfolded p] one]
    consider "now < at" | "\<not> now < at" "r1 = None" | h where "\<not> now < at" "r1 = Some h"
      by (cases r1) auto
    then show ?thesis
    proof cases
      case 1
      then show ?thesis using "1.prems" Cons p
        by (auto simp: expire.simps [of now tb] intro: table_step_ok_refl)
    next
      case 2
      obtain tb2 ev2 r2 where two: "expire now tb1 = (tb2, ev2, r2)" by (metis prod_cases3)
      have res: "tb' = tb2" "evs = ev1 @ ev2" "r = r2"
        using "1.prems"(2) 2 Cons p one two by (simp_all add: expire.simps [of now tb])
      have "table_step_ok tb1 tb2 ev2 r2"
        using "1.IH" [OF Cons p [symmetric] 2(1) one [symmetric] refl 2(2) _ two] ok
        by (simp add: table_step_ok_def)
      then show ?thesis using ok 2(2) unfolding res by (auto intro: table_step_ok_trans)
    next
      case 3
      then show ?thesis using "1.prems" Cons p one ok by (auto simp: expire.simps [of now tb])
    qed
  qed
qed

definition caller_of :: "caller option \<Rightarrow> caller multiset" where
  "caller_of c = (case c of Some c \<Rightarrow> {#c#} | None \<Rightarrow> {#})"

lemma dispatch_ok:
  assumes inv: "table_inv tb" and free: "map_of (tb_entries tb) mid = None" "mid \<le> LAST_MID"
    and asm: "pred_option as_buffered asm"
  shows "table_inv (dispatch mid command reply asm arranged now tb)
    \<and> waiting_callers (dispatch mid command reply asm arranged now tb) = waiting_callers tb + caller_of reply
    \<and> pending_hooks (dispatch mid command reply asm arranged now tb) = pending_hooks tb + caller_of arranged
    \<and> tb_charging (dispatch mid command reply asm arranged now tb) = tb_charging tb + 1
    \<and> tb_retired (dispatch mid command reply asm arranged now tb) = tb_retired tb"
proof -
  define e where "e = \<lparr>en_command = command, en_assembly = asm, en_outcome = arranged,
      en_state = OnWire reply (now + per_request (tb_timeouts tb)) (now + overall (tb_timeouts tb))\<rparr>"
  let ?tb = "dispatch mid command reply asm arranged now tb"
  have ent: "tb_entries ?tb = AList.update mid e (tb_entries tb)" by (simp add: dispatch_def e_def Let_def)
  have e: "entry_ok e" "charge e = 1" "withheld e = 0" "entry_callers e = caller_of reply"
      "entry_hooks e = caller_of arranged"
    using asm by (auto simp: e_def entry_ok_def charge_def charges_def withheld_def entry_callers_def
        entry_hooks_def caller_of_def split: option.split)
  have "deadlines (tb_entries tb) mid = None" using free by (simp add: deadlines_def)
  then have "indexed ((deadlines (tb_entries tb))(mid := expires_at e)) (tb_expiry ?tb)"
    using inv indexed_insert [of "deadlines (tb_entries tb)" "tb_expiry tb" mid]
    by (simp add: table_inv_def dispatch_def e_def expires_at_def Let_def)
  then have "table_inv ?tb"
    using e by (intro table_inv_insert [OF inv free(1) e(1) free(2) ent])
      (simp_all add: dispatch_def Let_def)
  then show ?thesis
    using e ent weigh_insert [OF free(1), of entry_callers e] weigh_insert [OF free(1), of entry_hooks e]
    by (simp add: waiting_callers_def pending_hooks_def) (simp add: dispatch_def Let_def)
qed

lemma lost_pays:
  assumes "\<forall>p \<in> set es. entry_ok (snd p)"
  shows "replied_to (concat (map (\<lambda>(mid, e). if charges e then snd (deliver (Inl Lost) e) else []) es))
       = weigh entry_callers es
     \<and> hooks_ended (concat (map (\<lambda>(mid, e). if charges e then snd (deliver (Inl Lost) e) else []) es))
       = weigh entry_hooks es"
  using assms
proof (induction es)
  case (Cons p es)
  obtain mid e where p: "p = (mid, e)" by (cases p)
  obtain e' ev where d: "deliver (Inl Lost) e = (e', ev)" by fastforce
  have "entry_ok e" using Cons.prems p by simp
  then show ?case
    using Cons p d deliver_pays [OF d] uncharged_owes_nothing [of e] by simp
qed simp

lemma fail_all_ok:
  assumes "table_inv tb" "fail_all tb = (tb', evs)"
  shows "waiting_callers tb = replied_to evs \<and> pending_hooks tb = hooks_ended evs
    \<and> tb_entries tb' = [] \<and> tb_charging tb' = 0 \<and> tb_expiry tb' = []"
proof -
  have "\<forall>p \<in> set (tb_entries tb). entry_ok (snd p)"
    using assms(1) by (auto simp: table_inv_def dest!: map_of_is_SomeI [rotated])
  then show ?thesis
    using assms(2) lost_pays [of "tb_entries tb"]
    by (auto simp: fail_all_def waiting_callers_def pending_hooks_def)
qed

section \<open>An id nobody holds stays free\<close>

lemma table_accept_free:
  assumes "map_of (tb_entries tb) mid = None" "table_accept m now tb = (tb', evs, r)"
  shows "map_of (tb_entries tb') mid = None"
proof (cases "mid = h_mid (header m)")
  case True
  then show ?thesis using assms by (simp add: table_accept_def Let_def)
next
  case False
  then show ?thesis
    using assms
    by (auto simp: table_accept_def retire_def Let_def map_of_update map_of_delete
        split: option.splits if_splits sum.splits prod.splits table_step.splits)
qed

lemma expire_one_free:
  assumes "map_of (tb_entries tb) mid = None" "expire_one now i tb = (tb', evs, r)"
  shows "map_of (tb_entries tb') mid = None"
proof (cases "map_of (tb_entries tb) i")
  case None
  then show ?thesis using assms by (simp add: expire_one_def)
next
  case (Some e)
  then have ne: "mid \<noteq> i" using assms(1) by auto
  show ?thesis
  proof (cases "en_state e")
    case (OnWire c s d)
    then show ?thesis
      using assms Some ne
      by (auto simp: expire_one_def Let_def map_of_update split: prod.splits if_splits)
  next
    case (Lapsed g)
    then show ?thesis
      using assms Some ne by (auto simp: expire_one_def retire_def Let_def map_of_update)
  next
    case Retired
    then show ?thesis using assms Some by (auto simp: expire_one_def)
  qed
qed

lemma expire_free:
  "map_of (tb_entries tb) mid = None \<Longrightarrow> expire now tb = (tb', evs, r) \<Longrightarrow> map_of (tb_entries tb') mid = None"
proof (induction now tb arbitrary: tb' evs r rule: expire.induct)
  case (1 now tb)
  show ?case
  proof (cases "tb_expiry tb")
    case Nil
    then show ?thesis using 1(2,3) by (simp add: expire.simps [of now tb])
  next
    case (Cons p rest)
    obtain at i where p: "p = (at, i)" by (cases p)
    obtain tb1 ev1 r1 where one: "expire_one now i (tb\<lparr>tb_expiry := rest\<rparr>) = (tb1, ev1, r1)"
      by (metis prod_cases3)
    have free: "map_of (tb_entries tb1) mid = None" using expire_one_free [OF _ one] 1(2) by simp
    obtain tb2 ev2 r2 where two: "expire now tb1 = (tb2, ev2, r2)" by (metis prod_cases3)
    show ?thesis
    proof (cases "now < at \<or> r1 \<noteq> None")
      case True
      then show ?thesis
        using 1(2,3) free Cons p one
        by (cases "now < at"; cases r1) (auto simp: expire.simps [of now tb])
    next
      case False
      then have "tb' = tb2" using 1(3) Cons p one two by (simp add: expire.simps [of now tb])
      moreover have "map_of (tb_entries tb2) mid = None"
        using False by (intro "1.IH" [OF Cons p [symmetric] _ one [symmetric] refl _ free two]) auto
      ultimately show ?thesis by simp
    qed
  qed
qed

section \<open>The ledger the connection relies on\<close>

text \<open>
  What the connection task needs of the table, for callers and hooks alike: an operation moves what
  it stops owing into the events, a dispatch adds what it takes on, and closing pays the rest.
\<close>

locale request_ledger =
  fixes inv :: "'t \<Rightarrow> bool"
    and owed :: "'t \<Rightarrow> 'c multiset"
    and paid :: "'e list \<Rightarrow> 'c multiset"
    and acts :: "'t \<Rightarrow> 't \<Rightarrow> 'e list \<Rightarrow> bool"
    and takes :: "'t \<Rightarrow> 'c multiset \<Rightarrow> 't \<Rightarrow> bool"
    and close :: "'t \<Rightarrow> 't \<times> 'e list"
  assumes acts_inv: "inv t \<Longrightarrow> acts t t' evs \<Longrightarrow> inv t'"
    and acts_owed: "inv t \<Longrightarrow> acts t t' evs \<Longrightarrow> owed t = owed t' + paid evs"
    and takes_inv: "inv t \<Longrightarrow> takes t cs t' \<Longrightarrow> inv t'"
    and takes_owed: "inv t \<Longrightarrow> takes t cs t' \<Longrightarrow> owed t' = owed t + cs"
    and close_pays: "inv t \<Longrightarrow> owed t = paid (snd (close t))"
    and paid_append: "paid (xs @ ys) = paid xs + paid ys"
begin

lemma account_act:
  "inv t \<Longrightarrow> issued = owed t + paid evs \<Longrightarrow> acts t t' ev \<Longrightarrow>
     inv t' \<and> issued = owed t' + paid (evs @ ev)"
  by (simp add: acts_inv acts_owed paid_append ac_simps)

lemma account_take:
  "inv t \<Longrightarrow> issued = owed t + paid evs \<Longrightarrow> takes t cs t' \<Longrightarrow>
     inv t' \<and> issued + cs = owed t' + paid evs"
  by (simp add: takes_inv takes_owed ac_simps)

lemma account_close:
  "inv t \<Longrightarrow> issued = owed t + paid evs \<Longrightarrow> issued = paid (evs @ snd (close t))"
  by (simp add: close_pays paid_append ac_simps)

lemma paid_within:
  "issued = owed t + paid evs \<Longrightarrow> paid evs \<subseteq># issued"
  by simp

end

definition table_acts :: "table \<Rightarrow> table \<Rightarrow> event list \<Rightarrow> bool" where
  "table_acts tb tb' evs \<longleftrightarrow>
     (\<exists>m now r. table_accept m now tb = (tb', evs, r)) \<or> (\<exists>now r. expire now tb = (tb', evs, r))"

definition may_dispatch :: "mid \<Rightarrow> assembly option \<Rightarrow> table \<Rightarrow> bool" where
  "may_dispatch mid asm tb \<longleftrightarrow>
     map_of (tb_entries tb) mid = None \<and> mid \<le> LAST_MID \<and> pred_option as_buffered asm"

definition takes_caller :: "table \<Rightarrow> caller multiset \<Rightarrow> table \<Rightarrow> bool" where
  "takes_caller tb cs tb' \<longleftrightarrow>
     (\<exists>mid command reply asm arranged now. may_dispatch mid asm tb \<and> cs = caller_of reply
        \<and> tb' = dispatch mid command reply asm arranged now tb)"

definition takes_hook :: "table \<Rightarrow> hook multiset \<Rightarrow> table \<Rightarrow> bool" where
  "takes_hook tb hs tb' \<longleftrightarrow>
     (\<exists>mid command reply asm arranged now. may_dispatch mid asm tb \<and> hs = caller_of arranged
        \<and> tb' = dispatch mid command reply asm arranged now tb)"

lemma table_acts_ok: "table_inv tb \<Longrightarrow> table_acts tb tb' evs \<Longrightarrow> \<exists>r. table_step_ok tb tb' evs r"
  using table_accept_ok expire_ok unfolding table_acts_def by blast

interpretation callers: request_ledger table_inv waiting_callers replied_to table_acts takes_caller fail_all
proof
  show "table_inv t \<Longrightarrow> table_acts t t' evs \<Longrightarrow> table_inv t'" for t t' evs
    using table_acts_ok by (auto simp: table_step_ok_def)
  show "table_inv t \<Longrightarrow> table_acts t t' evs \<Longrightarrow> waiting_callers t = waiting_callers t' + replied_to evs"
    for t t' evs using table_acts_ok by (auto simp: table_step_ok_def)
  show "table_inv t \<Longrightarrow> waiting_callers t = replied_to (snd (fail_all t))" for t
    using fail_all_ok [of t] by (cases "fail_all t") auto
qed (auto simp: takes_caller_def may_dispatch_def dispatch_ok)

interpretation hooks: request_ledger table_inv pending_hooks hooks_ended table_acts takes_hook fail_all
proof
  show "table_inv t \<Longrightarrow> table_acts t t' evs \<Longrightarrow> table_inv t'" for t t' evs
    using table_acts_ok by (auto simp: table_step_ok_def)
  show "table_inv t \<Longrightarrow> table_acts t t' evs \<Longrightarrow> pending_hooks t = pending_hooks t' + hooks_ended evs"
    for t t' evs using table_acts_ok by (auto simp: table_step_ok_def)
  show "table_inv t \<Longrightarrow> pending_hooks t = hooks_ended (snd (fail_all t))" for t
    using fail_all_ok [of t] by (cases "fail_all t") auto
qed (auto simp: takes_hook_def may_dispatch_def dispatch_ok)

section \<open>The life of a table\<close>

text \<open>
  Every table a connection can reach, with the callers and hooks taken on so far, the events
  emitted so far and how the last operation ended; an operation that failed is the last one.
\<close>

inductive table_life :: "table \<Rightarrow> caller multiset \<Rightarrow> hook multiset \<Rightarrow> event list \<Rightarrow> halt option \<Rightarrow> bool" where
  life_new: "table_life (table_new limit ts) {#} {#} [] None"
| life_dispatch: "table_life tb cs hs evs None \<Longrightarrow> may_dispatch mid asm tb \<Longrightarrow>
    table_life (dispatch mid command reply asm arranged now tb) (cs + caller_of reply)
      (hs + caller_of arranged) evs None"
| life_accept: "table_life tb cs hs evs None \<Longrightarrow> table_accept m now tb = (tb', ev, r) \<Longrightarrow>
    table_life tb' cs hs (evs @ ev) r"
| life_expire: "table_life tb cs hs evs None \<Longrightarrow> expire now tb = (tb', ev, r) \<Longrightarrow>
    table_life tb' cs hs (evs @ ev) r"

inductive_cases table_life_running: "table_life tb cs hs evs None"

lemma life_inv:
  "table_life tb cs hs evs r \<Longrightarrow>
     table_inv tb \<and> (\<forall>s. r \<noteq> Some (Panic s)) \<and> (r = None \<longrightarrow> tb_retired tb < RETIREMENT_BUDGET)"
proof (induction rule: table_life.induct)
  case (life_new limit ts)
  then show ?case by (simp add: table_inv_new) (simp add: table_new_def RETIREMENT_BUDGET_def)
next
  case (life_dispatch tb cs hs evs mid asm command reply arranged now)
  then show ?case
    using dispatch_ok [of tb mid asm command reply arranged now] by (simp add: may_dispatch_def)
next
  case (life_accept tb cs hs evs m now tb' ev r)
  then show ?case using table_accept_ok [of tb m now tb' ev r] by (auto simp: table_step_ok_def)
next
  case (life_expire tb cs hs evs now tb' ev r)
  then show ?case using expire_ok [of tb now tb' ev r] by (auto simp: table_step_ok_def)
qed

lemma life_accounts:
  "table_life tb cs hs evs r \<Longrightarrow>
     cs = waiting_callers tb + replied_to evs \<and> hs = pending_hooks tb + hooks_ended evs"
proof (induction rule: table_life.induct)
  case (life_new limit ts)
  then show ?case by (simp add: table_new_def waiting_callers_def pending_hooks_def)
next
  case (life_dispatch tb cs hs evs mid asm command reply arranged now)
  let ?tb' = "dispatch mid command reply asm arranged now tb"
  have inv: "table_inv tb" using life_inv life_dispatch.hyps(1) by blast
  have "takes_caller tb (caller_of reply) ?tb'" "takes_hook tb (caller_of arranged) ?tb'"
    using life_dispatch.hyps(2) unfolding takes_caller_def takes_hook_def by blast+
  then show ?case
    using callers.account_take [OF inv] hooks.account_take [OF inv] life_dispatch.IH by blast
next
  case (life_accept tb cs hs evs m now tb' ev r)
  have inv: "table_inv tb" using life_inv life_accept.hyps(1) by blast
  have "table_acts tb tb' ev" using life_accept.hyps(2) unfolding table_acts_def by blast
  then show ?case
    using callers.account_act [OF inv] hooks.account_act [OF inv] life_accept.IH by blast
next
  case (life_expire tb cs hs evs now tb' ev r)
  have inv: "table_inv tb" using life_inv life_expire.hyps(1) by blast
  have "table_acts tb tb' ev" using life_expire.hyps(2) unfolding table_acts_def by blast
  then show ?case
    using callers.account_act [OF inv] hooks.account_act [OF inv] life_expire.IH by blast
qed

text \<open>
  C33. In every reachable table the counts and the index agree with the rows: the capacity charged
  is the number of requests on the wire, the retired count the number of retired rows, and the
  deadline index lists exactly the rows' deadlines, in order and once each.  No operation panics,
  and a table that goes on working has fewer than 1,024 ids retired.
\<close>

theorem table_counts_agree:
  assumes "table_life tb cs hs evs r"
  shows "tb_charging tb = length (filter (charges \<circ> snd) (tb_entries tb))
     \<and> tb_retired tb = length (filter (\<lambda>p. en_state (snd p) = Retired) (tb_entries tb))
     \<and> sorted (tb_expiry tb) \<and> distinct (tb_expiry tb) \<and> distinct (map fst (tb_entries tb))
     \<and> (\<forall>at mid. (at, mid) \<in> set (tb_expiry tb) \<longleftrightarrow>
           (\<exists>e. map_of (tb_entries tb) mid = Some e \<and> expires_at e = Some at))
     \<and> map_of (tb_entries tb) 0xFFFF = None
     \<and> (\<forall>s. r \<noteq> Some (Panic s)) \<and> (r = None \<longrightarrow> tb_retired tb < RETIREMENT_BUDGET)"
proof -
  have inv: "table_inv tb" using life_inv [OF assms] by blast
  have "weigh charge es = length (filter (charges \<circ> snd) es)"
      "weigh withheld es = length (filter (\<lambda>p. en_state (snd p) = Retired) es)" for es
    by (induction es) (auto simp: charge_def withheld_def)
  moreover have "\<not> (0xFFFF :: mid) \<le> LAST_MID" by (simp add: LAST_MID_def)
  then have "map_of (tb_entries tb) 0xFFFF = None" using inv by (metis not_None_eq table_inv_def)
  ultimately show ?thesis
    using inv life_inv [OF assms]
    by (simp add: table_inv_def indexed_def deadlines_def bind_eq_Some_conv)
qed

theorem table_counts_agree_witness:
  "let tb = dispatch 5 CMD_ECHO (Some 7) None (Some 9) 100
         (table_new 50 \<lparr>per_request = 30, overall = 300\<rparr>) in
   tb_charging tb = length (filter (charges \<circ> snd) (tb_entries tb))
   \<and> tb_expiry tb = [(130, 5)] \<and> map_of (tb_entries tb) 0xFFFF = None"
proof -
  let ?init = "table_new 50 \<lparr>per_request = 30, overall = 300\<rparr>"
  let ?tb = "dispatch 5 CMD_ECHO (Some 7) None (Some 9) 100 ?init"
  have "may_dispatch 5 None ?init"
    by (simp add: may_dispatch_def table_new_def LAST_MID_def)
  then have "table_life ?tb ({#} + caller_of (Some 7)) ({#} + caller_of (Some 9)) [] None"
    by (intro life_dispatch life_new)
  moreover have "tb_expiry ?tb = [(130, 5)]" by code_simp
  ultimately show ?thesis using table_counts_agree [of ?tb] by (simp add: Let_def)
qed

text \<open>
  C1. Exactly once: over the life of a connection every caller whose request reached the wire is
  answered exactly once and every hook applied exactly once, the connection's end answering those
  still waiting, and before that end no caller is answered and no hook applied twice.
\<close>

theorem answered_exactly_once:
  assumes "table_life tb cs hs evs r"
  shows "replied_to (evs @ snd (fail_all tb)) = cs \<and> hooks_ended (evs @ snd (fail_all tb)) = hs
     \<and> replied_to evs \<subseteq># cs \<and> hooks_ended evs \<subseteq># hs"
proof -
  have inv: "table_inv tb" using life_inv [OF assms] by blast
  have acc: "cs = waiting_callers tb + replied_to evs" "hs = pending_hooks tb + hooks_ended evs"
    using life_accounts [OF assms] by auto
  show ?thesis
    using callers.account_close [OF inv acc(1)] hooks.account_close [OF inv acc(2)]
      callers.paid_within [OF acc(1)] hooks.paid_within [OF acc(2)] by simp
qed

theorem answered_exactly_once_witness:
  "\<exists>tb evs. table_life tb {#7#} {#9#} evs None \<and> evs = [Ended 9 (Inl Timeout), Replied 7 (Inl Timeout)]
     \<and> replied_to (evs @ snd (fail_all tb)) = {#7#} \<and> hooks_ended (evs @ snd (fail_all tb)) = {#9#}"
proof -
  let ?init = "table_new 50 \<lparr>per_request = 30, overall = 300\<rparr>"
  let ?sent = "dispatch 5 CMD_ECHO (Some 7) None (Some 9) 100 ?init"
  let ?tb = "fst (expire 130 ?sent)"
  have "may_dispatch 5 None ?init"
    by (simp add: may_dispatch_def table_new_def LAST_MID_def)
  then have "table_life ?sent ({#} + caller_of (Some 7)) ({#} + caller_of (Some 9)) [] None"
    by (intro life_dispatch life_new)
  moreover have "expire 130 ?sent = (?tb, [Ended 9 (Inl Timeout), Replied 7 (Inl Timeout)], None)"
    by code_simp
  ultimately have "table_life ?tb ({#} + caller_of (Some 7)) ({#} + caller_of (Some 9))
      ([] @ [Ended 9 (Inl Timeout), Replied 7 (Inl Timeout)]) None"
    by (rule life_expire)
  then have "table_life ?tb {#7#} {#9#} [Ended 9 (Inl Timeout), Replied 7 (Inl Timeout)] None"
    by (simp add: caller_of_def)
  then show ?thesis using answered_exactly_once by blast
qed

section \<open>What a message does\<close>

text \<open>The message that carries a request's reply whole.\<close>

definition completes :: "message \<Rightarrow> entry \<Rightarrow> bool" where
  "completes m e \<longleftrightarrow>
     h_status (header m) \<noteq> PENDING
     \<and> (case en_assembly e of
          None \<Rightarrow> True
        | Some a \<Rightarrow>
            h_status (header m) = SUCCESS \<longrightarrow>
              (case trans_response_decode m of
                 Inl _ \<Rightarrow> False
               | Inr r \<Rightarrow> (case assembly_accept r a of Inr (_, Complete) \<Rightarrow> True | _ \<Rightarrow> False)))"

definition corrupts :: "message \<Rightarrow> entry \<Rightarrow> bool" where
  "corrupts m e \<longleftrightarrow>
     (case en_assembly e of
        None \<Rightarrow> False
      | Some a \<Rightarrow>
          h_status (header m) = SUCCESS \<and>
            (case trans_response_decode m of
               Inl _ \<Rightarrow> True
             | Inr r \<Rightarrow> \<not> is_ok (assembly_accept r a)))"

lemma success_not_pending: "SUCCESS \<noteq> PENDING"
  by (simp add: status_defs)

lemma entry_accept_which:
  assumes "entry_accept m now per e = Inr (e', evs, step)"
  shows "(step = StepCompleted \<longleftrightarrow> completes m e) \<and> (step = StepCorrupted \<longleftrightarrow> corrupts m e)"
  using assms success_not_pending
  by (auto simp: entry_accept_def classify_def completes_def corrupts_def corrupt_def Let_def is_ok_def
      split: if_splits option.splits sum.splits prod.splits progress.splits)

lemma entry_accept_clock:
  assumes "entry_accept m now per e = Inr (e', evs, StepContinuing)"
  shows "en_state e' = (case en_state e of OnWire c _ d \<Rightarrow> OnWire c (now + per) d | st \<Rightarrow> st)"
  using assms
  by (auto simp: entry_accept_def corrupt_def touch_def Let_def
      split: if_splits option.splits sum.splits prod.splits progress.splits arrival.splits req_state.splits)

lemma deliver_success:
  "deliver (Inr rep) e = (e', evs) \<Longrightarrow> en_state e = OnWire (Some c) s d \<Longrightarrow> Replied c (Inr rep) \<in> set evs"
  by (auto simp: deliver_def)

lemma entry_accept_reply:
  assumes "entry_accept m now per e = Inr (e', evs, StepCompleted)" "en_state e = OnWire (Some c) s d"
  shows "\<exists>rep. Replied c (Inr rep) \<in> set evs \<and> rp_message rep = m"
proof -
  have st: "en_state (touch now per e) = OnWire (Some c) (now + per) d" using assms(2) by (simp add: touch_def)
  show ?thesis
    using assms(1)
    by (auto simp: entry_accept_def corrupt_def Let_def st
        split: if_splits option.splits sum.splits prod.splits progress.splits arrival.splits
        dest!: deliver_success intro: exI)
qed

lemma table_accept_entry:
  assumes inv: "table_inv tb" and e: "map_of (tb_entries tb) (h_mid (header m)) = Some e"
    and live: "en_state e \<noteq> Retired" "en_command e = h_command (header m)"
    and ea: "entry_accept m now (per_request (tb_timeouts tb)) e = Inr (e', ev, step)"
    and acc: "table_accept m now tb = (tb', evs, r)"
  shows "evs = ev \<and> map_of (tb_entries tb') = (map_of (tb_entries tb))(h_mid (header m) :=
      (case step of StepContinuing \<Rightarrow> Some e' | StepCompleted \<Rightarrow> None
       | StepCorrupted \<Rightarrow> Some (e'\<lparr>en_state := Retired, en_assembly := None\<rparr>)))
     \<and> (step \<noteq> StepCorrupted \<longrightarrow> r = None)"
proof -
  have "charges e \<Longrightarrow> tb_charging tb \<noteq> 0" using charge_le [OF inv e] by (simp add: charge_def)
  then show ?thesis
    using acc e live ea
    by (cases step) (auto simp: table_accept_def retire_def Let_def map_of_update map_of_delete
        split: if_splits option.splits prod.splits)
qed

text \<open>
  C6. A message that reaches its request does one of three things to it and nothing to any other.
  A reply that is whole is handed, as this very message, to whoever waits and gives the multiplex
  id back; one that corrupts the reassembly retires the id; anything else leaves the request where
  it is, emits nothing, and moves only the silence deadline of a request on the wire, never its
  overall deadline nor a lapsed request's last one.
\<close>

theorem message_outcome:
  assumes "table_inv tb" "map_of (tb_entries tb) (h_mid (header m)) = Some e"
    and "en_state e \<noteq> Retired" "en_command e = h_command (header m)"
    and "table_accept m now tb = (tb', evs, r)"
  shows "(\<forall>mid. mid \<noteq> h_mid (header m) \<longrightarrow> map_of (tb_entries tb') mid = map_of (tb_entries tb) mid)
     \<and> (completes m e \<longrightarrow> r = None \<and> map_of (tb_entries tb') (h_mid (header m)) = None
          \<and> (\<forall>c s d. en_state e = OnWire (Some c) s d \<longrightarrow>
                (\<exists>rep. Replied c (Inr rep) \<in> set evs \<and> rp_message rep = m)))
     \<and> (corrupts m e \<and> \<not> completes m e \<longrightarrow>
          map_option en_state (map_of (tb_entries tb') (h_mid (header m))) = Some Retired)
     \<and> (\<not> completes m e \<and> \<not> corrupts m e \<longrightarrow> r = None \<and> evs = []
          \<and> map_option en_state (map_of (tb_entries tb') (h_mid (header m))) =
              Some (case en_state e of
                      OnWire c s d \<Rightarrow> OnWire c (now + per_request (tb_timeouts tb)) d
                    | st \<Rightarrow> st))"
proof -
  obtain e' ev step where ea: "entry_accept m now (per_request (tb_timeouts tb)) e = Inr (e', ev, step)"
    using entry_accept_no_panic [of m now "per_request (tb_timeouts tb)" e]
    by (cases "entry_accept m now (per_request (tb_timeouts tb)) e") auto
  note which = entry_accept_which [OF ea]
    and res = table_accept_entry [OF assms(1-4) ea assms(5)]
  have "entry_ok e" using assms(1,2) by (auto simp: table_inv_def)
  note step = entry_accept_step [OF ea this]
  show ?thesis
  proof (cases step)
    case StepContinuing
    then show ?thesis
      using which res step entry_accept_clock ea by (auto simp: kept_def)
  next
    case StepCompleted
    then show ?thesis using which res entry_accept_reply ea by auto
  next
    case StepCorrupted
    then show ?thesis using which res by auto
  qed
qed

lemma life_one_request:
  "table_life (dispatch 5 CMD_ECHO (Some 7) None None 100
      (table_new 50 \<lparr>per_request = 30, overall = 300\<rparr>)) {#7#} {#} [] None"
proof -
  have "may_dispatch 5 None (table_new 50 \<lparr>per_request = 30, overall = 300\<rparr>)"
    by (simp add: may_dispatch_def table_new_def LAST_MID_def)
  from life_dispatch [OF life_new this, of CMD_ECHO "Some 7" None 100]
  show ?thesis by (simp add: caller_of_def)
qed

theorem message_outcome_witness:
  "let tb = dispatch 5 CMD_ECHO (Some 7) None None 100
         (table_new 50 \<lparr>per_request = 30, overall = 300\<rparr>);
       m = built ((header_request CMD_ECHO)\<lparr>h_mid := 5\<rparr>) [] [] in
   map_of (tb_entries (fst (table_accept m 110 tb))) 5 = None
   \<and> (\<exists>rep. Replied 7 (Inr rep) \<in> set (fst (snd (table_accept m 110 tb))) \<and> rp_message rep = m)"
proof -
  let ?init = "table_new 50 \<lparr>per_request = 30, overall = 300\<rparr>"
  let ?sent = "dispatch 5 CMD_ECHO (Some 7) None None 100 ?init"
  let ?m = "built ((header_request CMD_ECHO)\<lparr>h_mid := 5\<rparr>) [] []"
  let ?e = "\<lparr>en_command = CMD_ECHO, en_assembly = None, en_outcome = None,
      en_state = OnWire (Some 7) 130 400\<rparr>"
  have hdr: "header ?m = (header_request CMD_ECHO)\<lparr>h_mid := 5\<rparr>" by (simp add: built_def)
  have inv: "table_inv ?sent" using life_inv [OF life_one_request] by simp
  have e: "map_of (tb_entries ?sent) (h_mid (header ?m)) = Some ?e"
    unfolding hdr by (simp add: dispatch_def table_new_def Let_def)
  have live: "en_state ?e \<noteq> Retired" "en_command ?e = h_command (header ?m)"
    unfolding hdr by (simp_all add: header_request_def)
  have c: "completes ?m ?e"
    unfolding completes_def hdr using success_not_pending by (simp add: header_request_def)
  have acc: "table_accept ?m 110 ?sent = (fst (table_accept ?m 110 ?sent),
      fst (snd (table_accept ?m 110 ?sent)), snd (snd (table_accept ?m 110 ?sent)))" by simp
  have "h_mid (header ?m) = 5" unfolding hdr by simp
  then show ?thesis
    using message_outcome [OF inv e live acc] c unfolding Let_def by simp
qed

text \<open>
  Routing.  A frame fails the connection as unroutable exactly when no row holds its multiplex
  id, or a row still in use sent another command; on a retired id it is discarded without effect.
\<close>

theorem routing:
  "(snd (snd (table_accept m now tb)) = Some (Failed (Unroutable (h_mid (header m)) (h_command (header m))))
     \<longleftrightarrow> (case map_of (tb_entries tb) (h_mid (header m)) of
            None \<Rightarrow> True
          | Some e \<Rightarrow> en_state e \<noteq> Retired \<and> en_command e \<noteq> h_command (header m)))
   \<and> (map_option en_state (map_of (tb_entries tb) (h_mid (header m))) = Some Retired \<longrightarrow>
        table_accept m now tb = (tb, [], None))"
proof -
  have "retire mid tb \<noteq> (tb', Some (Failed (Unroutable i c)))" for mid tb tb' i c
    by (auto simp: retire_def Let_def split: option.splits if_splits)
  then show ?thesis
    using entry_accept_no_panic [of m now "per_request (tb_timeouts tb)"]
    by (auto simp: table_accept_def Let_def split: option.split sum.split prod.split table_step.split)
qed

theorem routing_witness:
  "let m = built ((header_request CMD_ECHO)\<lparr>h_mid := 5\<rparr>) [] [];
       tb = table_new 50 \<lparr>per_request = 30, overall = 300\<rparr> in
   snd (snd (table_accept m 0 tb)) = Some (Failed (Unroutable (h_mid (header m)) (h_command (header m))))"
  using routing [THEN conjunct1, of "built ((header_request CMD_ECHO)\<lparr>h_mid := 5\<rparr>) [] []" 0
      "table_new 50 \<lparr>per_request = 30, overall = 300\<rparr>"]
  unfolding Let_def by (simp add: table_new_def)

section \<open>What the clock does\<close>

text \<open>What a reached deadline makes of one row, said of the row alone.\<close>

definition aged :: "instant \<Rightarrow> duration \<Rightarrow> entry \<Rightarrow> entry" where
  "aged now deadline e =
     (case en_state e of
        OnWire _ s d \<Rightarrow>
          (if min s d \<le> now
           then e\<lparr>en_outcome := None, en_assembly := map_option assembly_release (en_assembly e),
                  en_state := Lapsed (now + deadline * GIVE_UP_DEADLINES)\<rparr>
           else e)
      | Lapsed g \<Rightarrow> (if g \<le> now then e\<lparr>en_state := Retired, en_assembly := None\<rparr> else e)
      | Retired \<Rightarrow> e)"

lemma aged_aged: "0 < deadline \<Longrightarrow> aged now deadline (aged now deadline e) = aged now deadline e"
  by (auto simp: aged_def GIVE_UP_DEADLINES_def split: req_state.split)

lemma aged_due: "expires_at e = Some at \<Longrightarrow> now < at \<Longrightarrow> aged now deadline e = e"
  by (auto simp: aged_def expires_at_def split: req_state.splits)

lemma aged_retired: "expires_at e = None \<Longrightarrow> aged now deadline e = e"
  by (auto simp: aged_def expires_at_def split: req_state.splits)

lemma expire_one_aged:
  assumes "map_of (tb_entries tb) mid = Some e" "expires_at e = Some at" "at \<le> now"
    and "expire_one now mid (tb\<lparr>tb_expiry := rest\<rparr>) = (tb', evs, None)"
  shows "map_of (tb_entries tb') = (map_of (tb_entries tb))(mid \<mapsto> aged now (overall (tb_timeouts tb)) e)"
proof (cases "en_state e")
  case (OnWire c s d)
  then show ?thesis
    using assms(4) assms(1-3)
    by (cases "tb_charging tb = 0")
      (simp_all add: expire_one_def deliver_def aged_def expires_at_def Let_def map_of_update,
       drule conjunct1, drule sym, simp add: map_of_update)
next
  case (Lapsed g)
  then show ?thesis
    using assms(4) assms(1-3)
    by (cases "RETIREMENT_BUDGET \<le> Suc (tb_retired tb)")
      (simp_all add: expire_one_def retire_def aged_def expires_at_def Let_def,
       drule conjunct1, drule sym, simp add: map_of_update)
next
  case Retired
  then show ?thesis using assms by (simp add: expires_at_def)
qed

lemma expire_aged:
  assumes "table_inv tb" "0 < overall (tb_timeouts tb)" "expire now tb = (tb', evs, None)"
  shows "map_of (tb_entries tb') mid = map_option (aged now (overall (tb_timeouts tb))) (map_of (tb_entries tb) mid)
     \<and> (\<forall>p \<in> set (tb_expiry tb'). now < fst p)"
  using assms
proof (induction now tb arbitrary: tb' evs rule: expire.induct)
  case (1 now tb)
  have idle: ?case if "\<forall>p \<in> set (tb_expiry tb). now < fst p" "tb' = tb"
  proof (cases "map_of (tb_entries tb) mid")
    case (Some e)
    have "now < at" if "expires_at e = Some at" for at
    proof -
      have "(at, mid) \<in> set (tb_expiry tb)"
        using "1.prems"(1) Some that by (simp add: table_inv_def indexed_def deadlines_def)
      then show ?thesis using \<open>\<forall>p \<in> set (tb_expiry tb). now < fst p\<close> by fastforce
    qed
    then have "aged now (overall (tb_timeouts tb)) e = e"
      by (cases "expires_at e") (auto intro: aged_due aged_retired)
    then show ?thesis using Some that by simp
  qed (use that in simp)
  show ?case
  proof (cases "tb_expiry tb")
    case Nil
    then have "tb' = tb" using "1.prems"(3) by (simp add: expire.simps [of now tb])
    then show ?thesis by (intro idle) (simp_all add: Nil)
  next
    case (Cons p rest)
    obtain at i where p: "p = (at, i)" by (cases p)
    show ?thesis
    proof (cases "now < at")
      case True
      have "sorted ((at, i) # rest)" using "1.prems"(1) Cons p by (simp add: table_inv_def indexed_def)
      then have "\<forall>q \<in> set (tb_expiry tb). now < fst q"
        using True by (auto simp: Cons p less_eq_prod_def)
      moreover have "tb' = tb" using "1.prems"(3) Cons p True by (simp add: expire.simps [of now tb])
      ultimately show ?thesis by (rule idle)
    next
      case False
      obtain tb1 ev1 r1 where one: "expire_one now i (tb\<lparr>tb_expiry := rest\<rparr>) = (tb1, ev1, r1)"
        by (metis prod_cases3)
      have r1: "r1 = None" using "1.prems"(3) Cons p False one
        by (cases r1) (auto simp: expire.simps [of now tb])
      obtain tb2 ev2 r2 where two: "expire now tb1 = (tb2, ev2, r2)" by (metis prod_cases3)
      have res: "tb' = tb2" "r2 = None"
        using "1.prems"(3) Cons p False one two r1 by (simp_all add: expire.simps [of now tb])
      have ok: "table_step_ok tb tb1 ev1 r1"
        by (rule expire_one_ok [OF "1.prems"(1) Cons [unfolded p] one])
      have "deadlines (tb_entries tb) i = Some at"
        using indexed_pop [of "deadlines (tb_entries tb)" at i rest] "1.prems"(1) Cons p
        by (simp add: table_inv_def)
      then obtain e where e: "map_of (tb_entries tb) i = Some e" "expires_at e = Some at"
        by (auto simp: deadlines_def bind_eq_Some_conv)
      have m1: "map_of (tb_entries tb1) =
          (map_of (tb_entries tb))(i \<mapsto> aged now (overall (tb_timeouts tb)) e)"
        by (rule expire_one_aged [OF e _ one [unfolded r1]]) (use False in simp)
      have ts: "tb_timeouts tb1 = tb_timeouts tb" "table_inv tb1"
        using ok by (simp_all add: table_step_ok_def)
      have "map_of (tb_entries tb2) mid =
          map_option (aged now (overall (tb_timeouts tb1))) (map_of (tb_entries tb1) mid)
          \<and> (\<forall>q \<in> set (tb_expiry tb2). now < fst q)"
        using "1.prems"(2)
        by (intro "1.IH" [OF Cons p [symmetric] False one [symmetric] refl r1 ts(2) _ two [unfolded res(2)]])
          (simp add: ts(1))
      then show ?thesis
        unfolding res(1) m1 ts(1) using e(1) aged_aged [OF "1.prems"(2)] by simp
    qed
  qed
qed

text \<open>
  When the expiry loop finishes, every deadline left is in the future and every request has
  been aged on its own: one on the wire whose silence or overall deadline was reached has lapsed
  with its buffer dropped and eight overall deadlines to go, a lapsed one whose last deadline was
  reached is retired, and no other has changed.
\<close>

theorem expire_ages_each:
  assumes "table_inv tb" "0 < overall (tb_timeouts tb)" "expire now tb = (tb', evs, None)"
  shows "(\<forall>mid. map_of (tb_entries tb') mid =
            map_option (aged now (overall (tb_timeouts tb))) (map_of (tb_entries tb) mid))
     \<and> (\<forall>at. next_expiry tb' = Some at \<longrightarrow> now < at)"
  using expire_aged [OF assms]
  by (auto simp: next_expiry_def split: list.splits)

theorem expire_ages_each_witness:
  "let tb = dispatch 5 CMD_ECHO (Some 7) None None 100
         (table_new 50 \<lparr>per_request = 30, overall = 300\<rparr>) in
   map_option en_state (map_of (tb_entries (fst (expire 130 tb))) 5) = Some (Lapsed 2530)"
proof -
  let ?sent = "dispatch 5 CMD_ECHO (Some 7) None None 100
      (table_new 50 \<lparr>per_request = 30, overall = 300\<rparr>)"
  have inv: "table_inv ?sent" using life_inv [OF life_one_request] by simp
  have pos: "0 < overall (tb_timeouts ?sent)" by (simp add: dispatch_def table_new_def Let_def)
  have run: "expire 130 ?sent = (fst (expire 130 ?sent), [Replied 7 (Inl Timeout)], None)" by code_simp
  have "map_option en_state (map_option (aged 130 300) (map_of (tb_entries ?sent) 5)) = Some (Lapsed 2530)"
    by code_simp
  moreover have "overall (tb_timeouts ?sent) = 300" by (simp add: dispatch_def table_new_def Let_def)
  ultimately show ?thesis
    using expire_ages_each [OF inv pos run] unfolding Let_def by simp
qed

end
