(* ===== verification/Connection.thy ===== *)
theory Connection
  imports Table
begin

text \<open>
  What the handshake negotiated, the requests a caller builds and the chunk sizes of a connection
  (\<open>connection/mod.rs\<close>).  The one-shot downgrade is an atomic flag shared by the handles of one
  connection; here it is a field.
\<close>

definition DEFAULT_PER_REQUEST_TIMEOUT :: duration where "DEFAULT_PER_REQUEST_TIMEOUT = 30"
definition DEFAULT_OVERALL_DEADLINE :: duration where "DEFAULT_OVERALL_DEADLINE = 300"
definition ADMISSION_CEILING :: nat where "ADMISSION_CEILING = 50"
definition CAP_LARGE_READX :: u32 where "CAP_LARGE_READX = 0x00004000"
definition CAP_LARGE_WRITEX :: u32 where "CAP_LARGE_WRITEX = 0x00008000"
definition LARGE_IO_CHUNK :: nat where "LARGE_IO_CHUNK = 130048"
definition SMALL_IO_CHUNK :: nat where "SMALL_IO_CHUNK = 65520"
definition PROTOCOL_OVERHEAD :: u32 where "PROTOCOL_OVERHEAD = 1024"
definition MIN_BUFFER_SIZE :: u32 where "MIN_BUFFER_SIZE = 4356"

definition timeouts_default :: timeouts where
  "timeouts_default =
     \<lparr>per_request = DEFAULT_PER_REQUEST_TIMEOUT, overall = DEFAULT_OVERALL_DEADLINE\<rparr>"

section \<open>What was negotiated\<close>

record negotiated =
  max_mpx_count :: u16
  max_buffer_size :: u32
  capabilities :: u32

definition admission_limit :: "negotiated \<Rightarrow> nat" where
  "admission_limit n =
     (if max_mpx_count n = 0 \<or> max_mpx_count n = 1 then 1
      else min (unat (max_mpx_count n)) ADMISSION_CEILING)"

lemma admission_limit_bounds: "1 \<le> admission_limit n \<and> admission_limit n \<le> ADMISSION_CEILING"
proof -
  have "unat (max_mpx_count n) = 0 \<longleftrightarrow> max_mpx_count n = 0" by (simp add: unat_eq_0)
  then show ?thesis by (auto simp: admission_limit_def ADMISSION_CEILING_def)
qed

section \<open>Requests\<close>

record request =
  rq_command :: u8
  rq_tid :: u16
  rq_uid :: u16
  rq_body :: bytes
  rq_max_parameter_count :: u16
  rq_max_data_count :: u16
  rq_outcome :: "hook option"

definition request_new :: "u8 \<Rightarrow> u16 \<Rightarrow> u16 \<Rightarrow> bytes \<Rightarrow> request" where
  "request_new command tid uid bdy =
     \<lparr>rq_command = command, rq_tid = tid, rq_uid = uid, rq_body = bdy, rq_max_parameter_count = 0,
      rq_max_data_count = 0, rq_outcome = None\<rparr>"

definition request_transaction :: "u8 \<Rightarrow> u16 \<Rightarrow> u16 \<Rightarrow> bytes \<Rightarrow> u16 \<Rightarrow> u16 \<Rightarrow> request" where
  "request_transaction command tid uid bdy mp md =
     \<lparr>rq_command = command, rq_tid = tid, rq_uid = uid, rq_body = bdy, rq_max_parameter_count = mp,
      rq_max_data_count = md, rq_outcome = None\<rparr>"

definition outliving :: "hook \<Rightarrow> request \<Rightarrow> request" where
  "outliving arranged r = r\<lparr>rq_outcome := Some arranged\<rparr>"

definition reply_status :: "reply \<Rightarrow> nt_status" where "reply_status r = h_status (header (rp_message r))"
definition reply_command :: "reply \<Rightarrow> u8" where "reply_command r = h_command (header (rp_message r))"
definition reply_tid :: "reply \<Rightarrow> u16" where "reply_tid r = h_tid (header (rp_message r))"
definition reply_uid :: "reply \<Rightarrow> u16" where "reply_uid r = h_uid (header (rp_message r))"

section \<open>Chunk sizes\<close>

record connection =
  cn_negotiated :: negotiated
  cn_downgraded :: bool

text \<open>\<open>max_buffer_size - PROTOCOL_OVERHEAD\<close> is a plain 32-bit subtraction, which wraps here.\<close>

definition chunk_size :: "u32 \<Rightarrow> connection \<Rightarrow> nat" where
  "chunk_size capability c =
     (let buffered = unat (max_buffer_size (cn_negotiated c) - PROTOCOL_OVERHEAD) in
      if cn_downgraded c then buffered
      else if capabilities (cn_negotiated c) AND capability \<noteq> 0 then LARGE_IO_CHUNK
      else min buffered SMALL_IO_CHUNK)"

definition read_chunk_size :: "connection \<Rightarrow> nat" where
  "read_chunk_size c = chunk_size CAP_LARGE_READX c"

definition write_chunk_size :: "connection \<Rightarrow> nat" where
  "write_chunk_size c = chunk_size CAP_LARGE_WRITEX c"

definition record_small_buffer :: "connection \<Rightarrow> connection" where
  "record_small_buffer c = c\<lparr>cn_downgraded := True\<rparr>"

definition spawn_accepts :: "negotiated \<Rightarrow> bool" where
  "spawn_accepts n \<longleftrightarrow> MIN_BUFFER_SIZE \<le> max_buffer_size n"

lemma buffered_exact:
  assumes "spawn_accepts n"
  shows "unat (max_buffer_size n - PROTOCOL_OVERHEAD) = unat (max_buffer_size n) - 1024
     \<and> 4356 \<le> unat (max_buffer_size n)"
proof -
  have "unat MIN_BUFFER_SIZE \<le> unat (max_buffer_size n)"
    using assms by (simp add: spawn_accepts_def word_le_nat_alt)
  then have "4356 \<le> unat (max_buffer_size n)" by (simp add: MIN_BUFFER_SIZE_def)
  moreover from this have "PROTOCOL_OVERHEAD \<le> max_buffer_size n"
    by (simp add: PROTOCOL_OVERHEAD_def word_le_nat_alt)
  ultimately show ?thesis by (simp add: unat_sub PROTOCOL_OVERHEAD_def)
qed

text \<open>
  On every connection that passed the 4,356-byte floor no chunk size wraps: a chunk carries at
  least 3,332 bytes; without the large-I/O capability it leaves 1,024 bytes of the negotiated
  buffer to the headers and fits the 16-bit count that asks for it; with it, headers and chunk
  together fit a NetBIOS frame; and once downgraded it fits the negotiated buffer whatever the
  server advertised.
\<close>

theorem chunk_sizes_sound:
  assumes "spawn_accepts (cn_negotiated c)"
  shows "3332 \<le> chunk_size cap c
     \<and> (chunk_size cap (record_small_buffer c) + 1024 = unat (max_buffer_size (cn_negotiated c)))
     \<and> (\<not> cn_downgraded c \<and> capabilities (cn_negotiated c) AND cap = 0 \<longrightarrow>
          chunk_size cap c + 1024 \<le> unat (max_buffer_size (cn_negotiated c)) \<and> chunk_size cap c < 65536)
     \<and> (\<not> cn_downgraded c \<and> capabilities (cn_negotiated c) AND cap \<noteq> 0 \<longrightarrow>
          chunk_size cap c + 1023 = MAX_MESSAGE_LEN)"
  using buffered_exact [OF assms]
  by (auto simp: chunk_size_def record_small_buffer_def LARGE_IO_CHUNK_def SMALL_IO_CHUNK_def
      MAX_MESSAGE_LEN_def Let_def)

theorem chunk_sizes_sound_witness:
  "let c = \<lparr>cn_negotiated = \<lparr>max_mpx_count = 50, max_buffer_size = 4356, capabilities = 0\<rparr>,
            cn_downgraded = False\<rparr> in
   3332 \<le> chunk_size CAP_LARGE_READX c \<and> chunk_size CAP_LARGE_READX c + 1024 \<le> 4356"
proof -
  let ?c = "\<lparr>cn_negotiated = \<lparr>max_mpx_count = 50, max_buffer_size = 4356, capabilities = 0\<rparr>,
            cn_downgraded = False\<rparr>"
  have "spawn_accepts (cn_negotiated ?c)" by (simp add: spawn_accepts_def MIN_BUFFER_SIZE_def)
  then show ?thesis using chunk_sizes_sound [of ?c CAP_LARGE_READX] by (simp add: Let_def)
qed

end
