(* ===== verification/Frames.thy ===== *)
theory Frames
  imports Table
begin

text \<open>
  The incremental frame reader (\<open>FrameReader\<close> in \<open>connection/actor.rs\<close>): a state machine fed
  whatever the socket delivers, whose buffer is sized to exactly what is being read.
\<close>

datatype inbound = InMessage message | InKeepAlive

datatype reading = ReadHeader | ReadBody | ReadKeepAlive

record frame_reader =
  fr_buffer :: bytes
  fr_filled :: nat
  fr_state :: reading

definition reader_new :: frame_reader where
  "reader_new = \<lparr>fr_buffer = replicate NB_HEADER_LEN 0, fr_filled = 0, fr_state = ReadHeader\<rparr>"

definition expect_header :: "frame_reader \<Rightarrow> frame_reader" where
  "expect_header r = r\<lparr>fr_buffer := replicate NB_HEADER_LEN 0, fr_filled := 0, fr_state := ReadHeader\<rparr>"

text \<open>
  \<open>take\<close> over a buffer that has just filled.  The conversion of the header buffer to four bytes
  is the \<open>expect\<close> that cannot fail: a header buffer always has four.
\<close>

definition reader_take :: "frame_reader \<Rightarrow> (halt + inbound option) \<times> frame_reader" where
  "reader_take r =
     (case fr_state r of
        ReadHeader \<Rightarrow>
          (case fr_buffer r of
             [b0, b1, b2, b3] \<Rightarrow>
               (case decode_header b0 b1 b2 b3 of
                  Inl e \<Rightarrow> (Inl (Failed (Wire e)), r)
                | Inr (kind, len) \<Rightarrow>
                    (Inr None,
                     r\<lparr>fr_state := (case kind of SessionMessage \<Rightarrow> ReadBody | KeepAlive \<Rightarrow> ReadKeepAlive),
                       fr_buffer := replicate len 0, fr_filled := 0\<rparr>))
           | _ \<Rightarrow> (Inl (Panic ''the header buffer is four bytes''), r))
      | ReadBody \<Rightarrow>
          (case parse (fr_buffer r) of
             Inl e \<Rightarrow> (Inl (Failed (Wire e)), r\<lparr>fr_buffer := []\<rparr>)
           | Inr m \<Rightarrow> (Inr (Some (InMessage m)), expect_header (r\<lparr>fr_buffer := []\<rparr>)))
      | ReadKeepAlive \<Rightarrow> (Inr (Some InKeepAlive), expect_header r))"

lemma reader_take_continues:
  "reader_take r = (Inr None, r') \<Longrightarrow> fr_state r = ReadHeader \<and> fr_state r' \<noteq> ReadHeader"
  by (auto simp: reader_take_def split: reading.splits list.splits sum.splits prod.splits message_type.splits)

text \<open>The loop of \<open>step\<close>: a header's turn leads to a body's or a keep-alive's, which return.\<close>

function reader_loop :: "frame_reader \<Rightarrow> (halt + inbound option) \<times> frame_reader" where
  "reader_loop r =
     (if fr_filled r < length (fr_buffer r) then (Inr None, r)
      else
        (case reader_take r of
           (Inr None, r') \<Rightarrow> reader_loop r'
         | res \<Rightarrow> res))"
  by pat_completeness auto

termination
  by (relation "measure (\<lambda>r. if fr_state r = ReadHeader then 1 else 0)")
     (auto dest: reader_take_continues [OF sym])

declare reader_loop.simps [simp del]

definition space_owed :: "frame_reader \<Rightarrow> nat" where
  "space_owed r = length (fr_buffer r) - fr_filled r"

text \<open>
  One poll: \<open>chunk\<close> is what the socket's \<open>read\<close> put into the space still owed, empty at the end
  of the stream.
\<close>

definition reader_step :: "bytes \<Rightarrow> frame_reader \<Rightarrow> (halt + inbound option) \<times> frame_reader" where
  "reader_step chunk r =
     (if fr_filled r < length (fr_buffer r) then
        (if chunk = [] then (Inl (Failed (Io ''the server closed the connection'')), r)
         else reader_loop (r\<lparr>fr_buffer := write_at (fr_filled r) chunk (fr_buffer r),
                             fr_filled := fr_filled r + length chunk\<rparr>))
      else reader_loop r)"

text \<open>
  Reading a stream: each poll takes at most \<open>k\<close> bytes of it, for the \<open>k\<close> the socket chooses, and
  never more than the space owed.
\<close>

fun reader_run :: "nat list \<Rightarrow> bytes \<Rightarrow> frame_reader \<Rightarrow> halt + (inbound list \<times> bytes \<times> frame_reader)" where
  "reader_run [] stream r = Inr ([], stream, r)"
| "reader_run (k # ks) stream r =
     (if stream = [] then Inr ([], [], r)
      else
        (let n = min k (space_owed r) in
         case reader_step (take n stream) r of
           (Inl h, _) \<Rightarrow> Inl h
         | (Inr None, r') \<Rightarrow> reader_run ks (drop n stream) r'
         | (Inr (Some i), r') \<Rightarrow>
             (case reader_run ks (drop n stream) r' of
                Inl h \<Rightarrow> Inl h
              | Inr (is, rest, r'') \<Rightarrow> Inr (i # is, rest, r''))))"

section \<open>The reader inside a frame\<close>

text \<open>A whole frame and what it delivers.\<close>

definition framed :: "bytes \<Rightarrow> inbound \<Rightarrow> bool" where
  "framed f i \<longleftrightarrow>
     NB_HEADER_LEN \<le> length f
     \<and> (case decode_header (f ! 0) (f ! 1) (f ! 2) (f ! 3) of
          Inl _ \<Rightarrow> False
        | Inr (kind, len) \<Rightarrow> length f = NB_HEADER_LEN + len
            \<and> (case kind of
                 SessionMessage \<Rightarrow> (case parse (drop NB_HEADER_LEN f) of Inl _ \<Rightarrow> False | Inr m \<Rightarrow> i = InMessage m)
               | KeepAlive \<Rightarrow> i = InKeepAlive))"

text \<open>The reader's state after \<open>n\<close> bytes of the frame \<open>f\<close>.\<close>

definition filled_with :: "bytes \<Rightarrow> nat \<Rightarrow> bytes" where
  "filled_with bs n = take n bs @ replicate (length bs - n) 0"

definition reader_at :: "bytes \<Rightarrow> nat \<Rightarrow> frame_reader" where
  "reader_at f n =
     (if n < NB_HEADER_LEN
      then \<lparr>fr_buffer = filled_with (take NB_HEADER_LEN f) n, fr_filled = n, fr_state = ReadHeader\<rparr>
      else \<lparr>fr_buffer = filled_with (drop NB_HEADER_LEN f) (n - NB_HEADER_LEN),
            fr_filled = n - NB_HEADER_LEN,
            fr_state = (if f ! 0 = TYPE_SESSION_MESSAGE then ReadBody else ReadKeepAlive)\<rparr>)"

lemma length_filled_with [simp]: "n \<le> length bs \<Longrightarrow> length (filled_with bs n) = length bs"
  by (simp add: filled_with_def)

lemma filled_with_0: "filled_with bs 0 = replicate (length bs) 0"
  by (simp add: filled_with_def)

lemma filled_with_all: "filled_with bs (length bs) = bs"
  by (simp add: filled_with_def)

lemma write_filled:
  assumes "n + k \<le> length bs"
  shows "write_at n (take k (drop n bs)) (filled_with bs n) = filled_with bs (n + k)"
proof (rule nth_equalityI)
  have k: "length (take k (drop n bs)) = k" using assms by simp
  show "length (write_at n (take k (drop n bs)) (filled_with bs n)) = length (filled_with bs (n + k))"
    using assms by simp
  fix i assume "i < length (write_at n (take k (drop n bs)) (filled_with bs n))"
  then have i: "i < length bs" using assms by simp
  show "write_at n (take k (drop n bs)) (filled_with bs n) ! i = filled_with bs (n + k) ! i"
    using assms i k by (auto simp: nth_write_at filled_with_def nth_append)
qed

lemma reader_at_0: "framed f i \<Longrightarrow> reader_at f 0 = reader_new"
  by (simp add: reader_at_def reader_new_def framed_def filled_with_def NB_HEADER_LEN_def)

lemma take_header: "NB_HEADER_LEN \<le> length f \<Longrightarrow> take NB_HEADER_LEN f = [f ! 0, f ! 1, f ! 2, f ! 3]"
  by (rule nth_equalityI)
    (auto simp: NB_HEADER_LEN_def less_Suc_eq numeral_eq_Suc nth_Cons split: nat.splits)

lemma framed_cases:
  assumes "framed f i"
  obtains kind where
    "decode_header (f ! 0) (f ! 1) (f ! 2) (f ! 3) = Inr (kind, length f - NB_HEADER_LEN)"
    "NB_HEADER_LEN \<le> length f"
    "kind = SessionMessage \<longleftrightarrow> f ! 0 = TYPE_SESSION_MESSAGE"
    "kind = SessionMessage \<Longrightarrow> \<exists>m. parse (drop NB_HEADER_LEN f) = Inr m \<and> i = InMessage m"
    "kind = KeepAlive \<Longrightarrow> i = InKeepAlive"
proof -
  obtain kind len where d: "decode_header (f ! 0) (f ! 1) (f ! 2) (f ! 3) = Inr (kind, len)"
    using assms by (auto simp: framed_def split: sum.splits)
  moreover have "kind = SessionMessage \<longleftrightarrow> f ! 0 = TYPE_SESSION_MESSAGE"
    using d by (auto simp: decode_header_Inr_iff TYPE_SESSION_MESSAGE_def TYPE_SESSION_KEEP_ALIVE_def)
  ultimately show thesis
    using assms that [of kind] by (auto simp: framed_def split: sum.splits message_type.splits)
qed

lemma reader_body_done:
  assumes f: "framed f i" and r: "fr_buffer r = drop NB_HEADER_LEN f" "fr_filled r = length (fr_buffer r)"
    and st: "fr_state r = (if f ! 0 = TYPE_SESSION_MESSAGE then ReadBody else ReadKeepAlive)"
  shows "reader_loop r = (Inr (Some i), reader_new)"
  using f
proof (cases rule: framed_cases)
  case (1 kind)
  show ?thesis
  proof (cases kind)
    case SessionMessage
    then obtain m where "parse (drop NB_HEADER_LEN f) = Inr m" "i = InMessage m" using 1 by auto
    then show ?thesis
      using r st 1(3) SessionMessage
      by (simp add: reader_loop.simps [of r] reader_take_def expect_header_def reader_new_def)
  next
    case KeepAlive
    then show ?thesis
      using r st 1(3,5)
      by (simp add: reader_loop.simps [of r] reader_take_def expect_header_def reader_new_def)
  qed
qed

lemma reader_header_done:
  assumes f: "framed f i" and r: "fr_buffer r = take NB_HEADER_LEN f" "fr_filled r = NB_HEADER_LEN"
      "fr_state r = ReadHeader"
  shows "reader_loop r =
     (if length f = NB_HEADER_LEN then (Inr (Some i), reader_new) else (Inr None, reader_at f NB_HEADER_LEN))"
  using f
proof (cases rule: framed_cases)
  case (1 kind)
  have t: "fr_buffer r = [f ! 0, f ! 1, f ! 2, f ! 3]" using r(1) take_header [OF 1(2)] by simp
  have "reader_take r = (Inr None, reader_at f NB_HEADER_LEN)"
    using t 1 r(3) by (cases kind) (auto simp: reader_take_def reader_at_def filled_with_0)
  moreover have "\<not> fr_filled r < length (fr_buffer r)" using t r(2) by (simp add: NB_HEADER_LEN_def)
  ultimately have step: "reader_loop r = reader_loop (reader_at f NB_HEADER_LEN)"
    by (simp add: reader_loop.simps [of r])
  show ?thesis
  proof (cases "length f = NB_HEADER_LEN")
    case True
    then show ?thesis
      unfolding step using reader_body_done [OF f, of "reader_at f NB_HEADER_LEN"]
      by (simp add: reader_at_def filled_with_def)
  next
    case False
    then show ?thesis
      unfolding step using 1(2) by (simp add: reader_loop.simps [of "reader_at f NB_HEADER_LEN"])
        (simp add: reader_at_def)
  qed
qed

lemma space_owed_at:
  "NB_HEADER_LEN \<le> length f \<Longrightarrow> n \<le> length f \<Longrightarrow>
     space_owed (reader_at f n) = (if n < NB_HEADER_LEN then NB_HEADER_LEN - n else length f - n)"
  by (simp add: space_owed_def reader_at_def min_def)

lemma reader_step_frame:
  assumes f: "framed f i" and n: "n < length f" and k: "0 < k" "k \<le> space_owed (reader_at f n)"
  shows "reader_step (take k (drop n f)) (reader_at f n) =
     (if n + k < length f then (Inr None, reader_at f (n + k)) else (Inr (Some i), reader_new))"
proof -
  have len: "NB_HEADER_LEN \<le> length f" using f by (simp add: framed_def)
  have so: "space_owed (reader_at f n) = (if n < NB_HEADER_LEN then NB_HEADER_LEN - n else length f - n)"
    using space_owed_at [OF len] n by simp
  have "k \<le> length f - n" using k(2) so len n by (auto split: if_splits)
  then have ne: "take k (drop n f) \<noteq> []" "length (take k (drop n f)) = k" using n k(1) by auto
  show ?thesis
  proof (cases "n < NB_HEADER_LEN")
    case True
    have nk: "n + k \<le> NB_HEADER_LEN" using k so True by simp
    have chunk: "take k (drop n f) = take k (drop n (take NB_HEADER_LEN f))"
      using nk by (simp add: drop_take min_def)
    let ?r = "\<lparr>fr_buffer = filled_with (take NB_HEADER_LEN f) (n + k), fr_filled = n + k, fr_state = ReadHeader\<rparr>"
    have "reader_step (take k (drop n f)) (reader_at f n) = reader_loop ?r"
      using True ne len nk write_filled [of n k "take NB_HEADER_LEN f"]
      by (simp add: reader_step_def reader_at_def chunk [symmetric] min_def)
    moreover have "reader_loop ?r = (if n + k < length f then (Inr None, reader_at f (n + k)) else (Inr (Some i), reader_new))"
    proof (cases "n + k < NB_HEADER_LEN")
      case True
      then show ?thesis using len nk by (simp add: reader_loop.simps [of ?r] reader_at_def min_def)
    next
      case False
      then have e: "n + k = NB_HEADER_LEN" using nk by simp
      have "filled_with (take NB_HEADER_LEN f) NB_HEADER_LEN = take NB_HEADER_LEN f"
        using len by (simp add: filled_with_def min_def)
      then show ?thesis using reader_header_done [OF f, of ?r] e len by auto
    qed
    ultimately show ?thesis by simp
  next
    case False
    define d where "d = n - NB_HEADER_LEN"
    have nk: "n + k \<le> length f" and n_d: "n = NB_HEADER_LEN + d" using k so False n by (auto simp: d_def)
    have dk: "d < length (drop NB_HEADER_LEN f)" "d + k \<le> length (drop NB_HEADER_LEN f)"
      using nk n_d n len by simp_all
    have chunk: "take k (drop n f) = take k (drop d (drop NB_HEADER_LEN f))"
      by (simp add: n_d add.commute)
    let ?r = "\<lparr>fr_buffer = filled_with (drop NB_HEADER_LEN f) (d + k), fr_filled = d + k,
        fr_state = (if f ! 0 = TYPE_SESSION_MESSAGE then ReadBody else ReadKeepAlive)\<rparr>"
    have "reader_step (take k (drop n f)) (reader_at f n) = reader_loop ?r"
      using ne write_filled [OF dk(2)] dk(1)
      unfolding chunk by (simp add: reader_step_def reader_at_def n_d)
    moreover have "reader_loop ?r = (if n + k < length f then (Inr None, reader_at f (n + k)) else (Inr (Some i), reader_new))"
    proof (cases "n + k < length f")
      case True
      then have "d + k < length (drop NB_HEADER_LEN f)" using n_d dk by simp
      then show ?thesis using True by (simp add: reader_loop.simps [of ?r] reader_at_def n_d)
    next
      case False
      then have "d + k = length (drop NB_HEADER_LEN f)" using nk n_d by simp
      then have "filled_with (drop NB_HEADER_LEN f) (d + k) = drop NB_HEADER_LEN f"
        by (simp only: filled_with_all)
      then show ?thesis
        using reader_body_done [OF f, of ?r] False \<open>d + k = _\<close> by simp
    qed
    ultimately show ?thesis by simp
  qed
qed

lemma reader_run_stopped: "reader_run ks [] r = Inr ([], [], r)"
  by (cases ks) auto

lemma reader_run_frames:
  assumes "list_all2 framed fs is" "framed f i" "n < length f" "\<forall>k \<in> set ks. 0 < k"
    "length (drop n f @ concat fs) \<le> length ks"
  shows "reader_run ks (drop n f @ concat fs) (reader_at f n) = Inr (i # is, [], reader_new)"
  using assms
proof (induction ks arbitrary: fs "is" f i n)
  case Nil
  then show ?case by simp
next
  case (Cons k ks)
  have len: "NB_HEADER_LEN \<le> length f" using Cons.prems(2) by (simp add: framed_def)
  define t where "t = min k (space_owed (reader_at f n))"
  have so: "0 < space_owed (reader_at f n)" "space_owed (reader_at f n) \<le> length f - n"
    using space_owed_at [OF len] Cons.prems(3) len by auto
  then have t: "0 < t" "t \<le> space_owed (reader_at f n)" "t \<le> length f - n"
    using Cons.prems(4) by (auto simp: t_def)
  have chunk: "take t (drop n f @ concat fs) = take t (drop n f)"
      "drop t (drop n f @ concat fs) = drop (n + t) f @ concat fs"
    using t(3) by (simp_all add: add.commute)
  note step = reader_step_frame [OF Cons.prems(2,3) t(1,2)]
  have ne: "drop n f @ concat fs \<noteq> []" using Cons.prems(3) by simp
  have room: "length (drop (n + t) f @ concat fs) \<le> length ks" using Cons.prems(3,5) t(1) by simp
  show ?case
  proof (cases "n + t < length f")
    case True
    have "reader_run ks (drop (n + t) f @ concat fs) (reader_at f (n + t)) = Inr (i # is, [], reader_new)"
      using Cons.prems True room by (intro Cons.IH) auto
    then show ?thesis
      unfolding reader_run.simps if_not_P [OF ne] Let_def t_def [symmetric] chunk step if_P [OF True]
      by simp
  next
    case False
    then have all: "drop (n + t) f = []" using t(3) by simp
    have "reader_run ks (concat fs) reader_new = Inr (is, [], reader_new)"
    proof (cases fs)
      case Nil
      then show ?thesis using Cons.prems(1) by (simp add: reader_run_stopped)
    next
      case (Cons f2 fs2)
      then obtain i2 is2 where i2: "is = i2 # is2" "framed f2 i2" "list_all2 framed fs2 is2"
        using Cons.prems(1) by (auto simp: list_all2_Cons1)
      have "0 < length f2" using i2(2) by (auto simp: framed_def NB_HEADER_LEN_def)
      moreover have "length (drop 0 f2 @ concat fs2) \<le> length ks" using room all Cons by simp
      ultimately have "reader_run ks (drop 0 f2 @ concat fs2) (reader_at f2 0) = Inr (i2 # is2, [], reader_new)"
        using i2 Cons.prems(4) by (intro Cons.IH) auto
      then show ?thesis using i2(1,2) Cons by (simp add: reader_at_0)
    qed
    then show ?thesis
      unfolding reader_run.simps if_not_P [OF ne] Let_def t_def [symmetric] chunk step
        if_not_P [OF False] all
      by simp
  qed
qed

text \<open>
  C36. The reader is indifferent to how the socket cuts the stream: fed any sequence of well-formed
  frames in reads of any sizes of at least one byte, it delivers exactly the frames' messages and
  keep-alives, in order and nothing else, and is left at the start of a header.
\<close>

theorem reader_any_chunking:
  assumes "list_all2 framed fs is" "\<forall>k \<in> set ks. 0 < k" "length (concat fs) \<le> length ks"
  shows "reader_run ks (concat fs) reader_new = Inr (is, [], reader_new)"
proof (cases fs)
  case Nil
  then show ?thesis using assms(1) by (simp add: reader_run_stopped)
next
  case (Cons f fs')
  then obtain i is' where i: "is = i # is'" "framed f i" "list_all2 framed fs' is'"
    using assms(1) by (auto simp: list_all2_Cons1)
  have "0 < length f" using i(2) by (auto simp: framed_def NB_HEADER_LEN_def)
  then show ?thesis
    using reader_run_frames [OF i(3) i(2), of 0 ks] assms(2,3) Cons i(1,2) by (simp add: reader_at_0)
qed

lemma frame_framed:
  assumes "frame bs = Inr f" "parse bs = Inr m"
  shows "framed f (InMessage m)"
proof -
  obtain hdr where h: "encode_header (length bs) = Inr hdr" "f = hdr @ bs"
    using assms(1) by (auto simp: frame_def rbind_Inr_iff)
  have "length bs \<le> MAX_MESSAGE_LEN" using h(1) by (auto simp: encode_header_def split: if_splits)
  then obtain b1 b2 b3 where "encode_header (length bs) = Inr [TYPE_SESSION_MESSAGE, b1, b2, b3]"
      "decode_header TYPE_SESSION_MESSAGE b1 b2 b3 = Inr (SessionMessage, length bs)"
    by (rule encode_header_Inr)
  then show ?thesis using h assms(2) by (simp add: framed_def NB_HEADER_LEN_def)
qed

theorem reader_any_chunking_witness:
  "let bs = write_header (header_request CMD_ECHO) @ body [] [7];
       ka = [0x85, 0, 0, 2, 9, 9];
       f = [0, 0, 0, 36] @ bs in
   reader_run (replicate 60 3) (concat [ka, f]) reader_new
     = Inr ([InKeepAlive, InMessage (built (header_request CMD_ECHO) [] [7])], [], reader_new)"
proof -
  let ?bs = "write_header (header_request CMD_ECHO) @ body [] [7]"
  have len: "length ?bs = 36" by code_simp
  have fr: "frame ?bs = Inr ([0, 0, 0, 36] @ ?bs)"
    unfolding frame_def len by (simp add: encode_header_def MAX_MESSAGE_LEN_def TYPE_SESSION_MESSAGE_def)
  have pr: "parse ?bs = Inr (built (header_request CMD_ECHO) [] [7])"
    by (rule parse_built) (simp_all add: wf_words_def)
  have ka: "framed [0x85, 0, 0, 2, 9, 9] InKeepAlive"
    by (simp add: framed_def decode_header_def NB_HEADER_LEN_def TYPE_SESSION_MESSAGE_def
        TYPE_SESSION_KEEP_ALIVE_def)
  have "length (concat [[0x85, 0, 0, 2, 9, 9], [0, 0, 0, 36] @ ?bs]) \<le> length (replicate 60 3)"
    using len by simp
  then have "reader_run (replicate 60 3) (concat [[0x85, 0, 0, 2, 9, 9], [0, 0, 0, 36] @ ?bs]) reader_new
     = Inr ([InKeepAlive, InMessage (built (header_request CMD_ECHO) [] [7])], [], reader_new)"
    using frame_framed [OF fr pr] ka by (intro reader_any_chunking) simp_all
  then show ?thesis unfolding Let_def .
qed

end
