(* ===== verification/Actor.thy ===== *)
theory Actor
  imports Connection Frames
begin

text \<open>
  The connection task (\<open>connection/actor.rs\<close>): admission, dispatch at the first byte written,
  routing, timers, the silence rule and the fairness of the two channels.

  The two channels are lists of waiting dispatches.  The socket and the clock are the environment:
  a step is given the bytes a read delivered, the count a write accepted and the instant at which
  it runs.  The tracer writes logs only and is left out.  \<open>gone\<close> tells which callers have dropped
  the receiving end of their one-shot channel.
\<close>

definition CLOSE_RUN :: nat where "CLOSE_RUN = 8"

definition ANDX_RESPONSES :: "u8 list" where
  "ANDX_RESPONSES =
     [CMD_READ_ANDX, CMD_WRITE_ANDX, CMD_SESSION_SETUP_ANDX, CMD_LOGOFF_ANDX, CMD_TREE_CONNECT_ANDX,
      CMD_NT_CREATE_ANDX]"

record queued =
  qd_mid :: mid
  qd_command :: u8
  qd_reply :: "caller option"
  qd_assembly :: "assembly option"
  qd_outcome :: "hook option"

record writing =
  wt_frame :: bytes
  wt_cursor :: nat
  wt_queued :: "queued option"

record dispatch_msg =
  dp_request :: request
  dp_reply :: "caller option"

record actor =
  ac_inbound :: frame_reader
  ac_writing :: "writing option"
  ac_requests :: "dispatch_msg list"
  ac_closes :: "dispatch_msg list"
  ac_requests_done :: bool
  ac_closes_done :: bool
  ac_table :: table
  ac_timeouts :: timeouts
  ac_silent_for :: duration
  ac_waiting_since :: "instant option"
  ac_consecutive_closes :: nat

definition actor_new :: "negotiated \<Rightarrow> timeouts \<Rightarrow> actor" where
  "actor_new n ts =
     \<lparr>ac_inbound = reader_new, ac_writing = None, ac_requests = [], ac_closes = [],
      ac_requests_done = False, ac_closes_done = False, ac_table = table_new (admission_limit n) ts,
      ac_timeouts = ts, ac_silent_for = 0, ac_waiting_since = None, ac_consecutive_closes = 0\<rparr>"

definition chained_command :: "message \<Rightarrow> u8 option" where
  "chained_command m =
     (if h_command (header m) \<notin> set ANDX_RESPONSES then None
      else (case words m of
              [] \<Rightarrow> None
            | next # _ \<Rightarrow> if next \<noteq> NO_FURTHER_COMMAND then Some next else None))"

section \<open>The silence window\<close>

definition note_waiting :: "instant \<Rightarrow> actor \<Rightarrow> actor" where
  "note_waiting now ac =
     (case (ac_waiting_since ac, 0 < tb_charging (ac_table ac)) of
        (None, True) \<Rightarrow> ac\<lparr>ac_waiting_since := Some now\<rparr>
      | (Some since, False) \<Rightarrow>
          ac\<lparr>ac_silent_for := ac_silent_for ac + (now - since), ac_waiting_since := None\<rparr>
      | _ \<Rightarrow> ac)"

definition silent_for :: "instant \<Rightarrow> actor \<Rightarrow> duration" where
  "silent_for now ac =
     ac_silent_for ac + (case ac_waiting_since ac of None \<Rightarrow> 0 | Some since \<Rightarrow> now - since)"

definition next_wake :: "actor \<Rightarrow> instant option" where
  "next_wake ac =
     (let silence = map_option (\<lambda>since. since + (overall (ac_timeouts ac) - ac_silent_for ac))
                      (ac_waiting_since ac) in
      case (next_expiry (ac_table ac), silence) of
        (Some expiry, Some silence) \<Rightarrow> Some (min expiry silence)
      | (Some expiry, None) \<Rightarrow> Some expiry
      | (None, silence) \<Rightarrow> silence)"

section \<open>What each event does\<close>

definition begin_request ::
    "(caller \<Rightarrow> bool) \<Rightarrow> dispatch_msg \<Rightarrow> actor \<Rightarrow> actor \<times> event list \<times> halt option" where
  "begin_request gone d ac =
     (let rq = dp_request d;
          ended = (\<lambda>err. case rq_outcome rq of Some arranged \<Rightarrow> [Ended arranged (Inl err)] | None \<Rightarrow> []) in
      if (case dp_reply d of Some c \<Rightarrow> gone c | None \<Rightarrow> False) then (ac, ended Lost, None)
      else
        (case allocate (ac_table ac) of
           (None, tb) \<Rightarrow> (ac\<lparr>ac_table := tb\<rparr>, [], Some (Failed PoolExhausted))
         | (Some mid, tb) \<Rightarrow>
             (let ac = ac\<lparr>ac_table := tb\<rparr>;
                  hdr = (header_request (rq_command rq))\<lparr>h_mid := mid, h_tid := rq_tid rq, h_uid := rq_uid rq\<rparr> in
              case rbind (message_of hdr (rq_body rq)) frame of
                Inl e \<Rightarrow>
                  (ac, ended (Wire e) @ (case dp_reply d of Some c \<Rightarrow> [Replied c (Inl (Wire e))] | None \<Rightarrow> []),
                   None)
              | Inr fr \<Rightarrow>
                  (let asm = (if rq_command rq = CMD_TRANSACTION \<or> rq_command rq = CMD_TRANSACTION2
                              then Some (assembly_new (rq_max_parameter_count rq) (rq_max_data_count rq))
                              else None) in
                   (ac\<lparr>ac_writing := Some \<lparr>wt_frame = fr, wt_cursor = 0,
                      wt_queued = Some \<lparr>qd_mid = mid, qd_command = rq_command rq, qd_reply = dp_reply d,
                                        qd_assembly = asm, qd_outcome = rq_outcome rq\<rparr>\<rparr>\<rparr>, [], None)))))"

definition wrote :: "instant \<Rightarrow> nat \<Rightarrow> actor \<Rightarrow> actor \<times> event list \<times> halt option" where
  "wrote now n ac =
     (if n = 0 then (ac, [], Some (Failed (Io ''the socket accepted no bytes of a request'')))
      else
        (case ac_writing ac of
           None \<Rightarrow> (ac, [], Some (Panic ''a write reported progress without one in progress''))
         | Some w \<Rightarrow>
             (let cursor = wt_cursor w + n;
                  tb = (case wt_queued w of
                          None \<Rightarrow> ac_table ac
                        | Some q \<Rightarrow> dispatch (qd_mid q) (qd_command q) (qd_reply q) (qd_assembly q)
                                      (qd_outcome q) now (ac_table ac));
                  ac = ac\<lparr>ac_table := tb,
                          ac_writing := (if length (wt_frame w) \<le> cursor then None
                            else Some (w\<lparr>wt_cursor := cursor, wt_queued := None\<rparr>))\<rparr> in
              (note_waiting now ac, [], None))))"

definition route :: "instant \<Rightarrow> inbound \<Rightarrow> actor \<Rightarrow> actor \<times> event list \<times> halt option" where
  "route now i ac =
     (case i of
        InKeepAlive \<Rightarrow> (ac, [], None)
      | InMessage m \<Rightarrow>
          (case chained_command m of
             Some next \<Rightarrow> (ac, [], Some (Failed (ChainedResponse next)))
           | None \<Rightarrow>
               (let ac = ac\<lparr>ac_silent_for := 0, ac_waiting_since := None\<rparr> in
                case table_accept m now (ac_table ac) of
                  (tb, evs, Some h) \<Rightarrow> (ac\<lparr>ac_table := tb\<rparr>, evs, Some h)
                | (tb, evs, None) \<Rightarrow>
                    (note_waiting now (ac\<lparr>ac_table := tb\<rparr>), evs,
                     if h_status (header m) = USER_SESSION_DELETED then Some (Failed SessionDeleted)
                     else None))))"

definition tick :: "instant \<Rightarrow> actor \<Rightarrow> actor \<times> event list \<times> halt option" where
  "tick now ac =
     (if ac_waiting_since ac \<noteq> None \<and> overall (ac_timeouts ac) \<le> silent_for now ac
      then (ac, [], Some (Failed Silent))
      else
        (case expire now (ac_table ac) of
           (tb, evs, r) \<Rightarrow> (note_waiting now (ac\<lparr>ac_table := tb\<rparr>), evs, r)))"

definition inbound_event :: "instant \<Rightarrow> bytes \<Rightarrow> actor \<Rightarrow> actor \<times> event list \<times> halt option" where
  "inbound_event now chunk ac =
     (case reader_step chunk (ac_inbound ac) of
        (Inl h, r) \<Rightarrow> (ac\<lparr>ac_inbound := r\<rparr>, [], Some h)
      | (Inr None, r) \<Rightarrow> (ac\<lparr>ac_inbound := r\<rparr>, [], None)
      | (Inr (Some i), r) \<Rightarrow> route now i (ac\<lparr>ac_inbound := r\<rparr>))"

section \<open>One turn of the pump\<close>

definition pump_head :: "actor \<Rightarrow> actor" where
  "pump_head ac =
     (if ac_requests ac = [] \<or> ac_closes ac = [] then ac\<lparr>ac_consecutive_closes := 0\<rparr> else ac)"

definition pump_done :: "actor \<Rightarrow> bool" where
  "pump_done ac \<longleftrightarrow>
     ac_requests_done ac \<and> ac_closes_done ac \<and> ac_writing ac = None \<and> tb_charging (ac_table ac) = 0"

definition can_admit :: "actor \<Rightarrow> bool" where
  "can_admit ac \<longleftrightarrow> ac_writing ac = None \<and> tb_charging (ac_table ac) < tb_limit (ac_table ac)"

definition take_close :: "actor \<Rightarrow> bool" where
  "take_close ac \<longleftrightarrow> can_admit ac \<and> \<not> ac_closes_done ac \<and> ac_consecutive_closes ac < CLOSE_RUN"

definition take_request :: "actor \<Rightarrow> bool" where
  "take_request ac \<longleftrightarrow>
     can_admit ac \<and> \<not> ac_requests_done ac
     \<and> (CLOSE_RUN \<le> ac_consecutive_closes ac \<or> ac_closes ac = [])"

text \<open>
  The sources of the \<open>select\<close>, each under its precondition.  \<open>pump_turn\<close> is the handling of the one
  that fired, on an actor that has been through \<open>pump_head\<close> and is not done; a channel yields
  nothing only when it is empty and every sender has gone, which the flag reports.
\<close>

datatype source =
    FromCloses
  | FromRequests
  | ClosesEnded
  | RequestsEnded
  | FromSocket bytes
  | Written nat
  | WriteFailed string
  | Timer

definition source_ready :: "instant \<Rightarrow> actor \<Rightarrow> source \<Rightarrow> bool" where
  "source_ready now ac src =
     (case src of
        FromCloses \<Rightarrow> take_close ac \<and> ac_closes ac \<noteq> []
      | ClosesEnded \<Rightarrow> take_close ac \<and> ac_closes ac = []
      | FromRequests \<Rightarrow> take_request ac \<and> ac_requests ac \<noteq> []
      | RequestsEnded \<Rightarrow> take_request ac \<and> ac_requests ac = []
      | FromSocket chunk \<Rightarrow> length chunk \<le> space_owed (ac_inbound ac)
      | Written n \<Rightarrow>
          (case ac_writing ac of None \<Rightarrow> False | Some w \<Rightarrow> wt_cursor w + n \<le> length (wt_frame w))
      | WriteFailed _ \<Rightarrow> ac_writing ac \<noteq> None
      | Timer \<Rightarrow> (case next_wake ac of None \<Rightarrow> False | Some at \<Rightarrow> at \<le> now))"

definition pump_turn ::
    "(caller \<Rightarrow> bool) \<Rightarrow> instant \<Rightarrow> source \<Rightarrow> actor \<Rightarrow> actor \<times> event list \<times> halt option" where
  "pump_turn gone now src ac =
     (case src of
        ClosesEnded \<Rightarrow> (ac\<lparr>ac_closes_done := True\<rparr>, [], None)
      | FromCloses \<Rightarrow>
          begin_request gone (hd (ac_closes ac))
            (ac\<lparr>ac_closes := tl (ac_closes ac),
               ac_consecutive_closes := ac_consecutive_closes ac + 1\<rparr>)
      | RequestsEnded \<Rightarrow> (ac\<lparr>ac_requests_done := True\<rparr>, [], None)
      | FromRequests \<Rightarrow>
          begin_request gone (hd (ac_requests ac))
            (ac\<lparr>ac_requests := tl (ac_requests ac), ac_consecutive_closes := 0\<rparr>)
      | FromSocket chunk \<Rightarrow> inbound_event now chunk ac
      | Written n \<Rightarrow> wrote now n ac
      | WriteFailed why \<Rightarrow> (ac, [], Some (Failed (Io why)))
      | Timer \<Rightarrow> tick now ac)"

text \<open>What \<open>run\<close> does when the pump returns, for whatever reason: end every request held.\<close>

definition actor_end :: "actor \<Rightarrow> actor \<times> event list" where
  "actor_end ac = (case fail_all (ac_table ac) of (tb, evs) \<Rightarrow> (ac\<lparr>ac_table := tb\<rparr>, evs))"

section \<open>The connection's invariant\<close>

definition reader_ok :: "frame_reader \<Rightarrow> bool" where
  "reader_ok r \<longleftrightarrow> fr_filled r \<le> length (fr_buffer r)
     \<and> (fr_state r = ReadHeader \<longrightarrow> length (fr_buffer r) = NB_HEADER_LEN)"

definition unsent :: "actor \<Rightarrow> queued option" where
  "unsent ac = Option.bind (ac_writing ac) wt_queued"

definition writing_ok :: "actor \<Rightarrow> bool" where
  "writing_ok ac \<longleftrightarrow>
     (\<forall>w. ac_writing ac = Some w \<longrightarrow> wt_cursor w < length (wt_frame w) \<and> (wt_queued w \<noteq> None \<longrightarrow> wt_cursor w = 0))
     \<and> (\<forall>q. unsent ac = Some q \<longrightarrow> may_dispatch (qd_mid q) (qd_assembly q) (ac_table ac))"

definition load :: "actor \<Rightarrow> nat" where
  "load ac = tb_charging (ac_table ac) + (if unsent ac = None then 0 else 1)"

definition actor_inv :: "actor \<Rightarrow> bool" where
  "actor_inv ac \<longleftrightarrow>
     table_inv (ac_table ac) \<and> tb_retired (ac_table ac) < RETIREMENT_BUDGET
     \<and> reader_ok (ac_inbound ac) \<and> writing_ok ac
     \<and> load ac \<le> tb_limit (ac_table ac)
     \<and> ac_consecutive_closes ac \<le> CLOSE_RUN
     \<and> (ac_waiting_since ac \<noteq> None \<longleftrightarrow> 0 < tb_charging (ac_table ac))"

definition no_panic :: "halt option \<Rightarrow> bool" where
  "no_panic r \<longleftrightarrow> (\<forall>s. r \<noteq> Some (Panic s))"

lemma no_panic_simps [simp]: "no_panic None" "no_panic (Some (Failed e))" "\<not> no_panic (Some (Panic s))"
  by (simp_all add: no_panic_def)

lemma reader_new_ok: "reader_ok reader_new"
  by (simp add: reader_ok_def reader_new_def)

lemma reader_take_ok:
  assumes "reader_ok r" "reader_take r = (res, r')"
  shows "(\<forall>h. res = Inl h \<longrightarrow> no_panic (Some h)) \<and> (is_ok res \<longrightarrow> reader_ok r')"
proof (cases "fr_state r")
  case ReadHeader
  then have "length (fr_buffer r) = Suc (Suc (Suc (Suc 0)))"
    using assms(1) by (simp add: reader_ok_def NB_HEADER_LEN_def)
  then obtain b0 b1 b2 b3 where "fr_buffer r = [b0, b1, b2, b3]" by (auto simp: length_Suc_conv)
  then show ?thesis
    using assms(2) ReadHeader
    by (auto simp: reader_take_def reader_ok_def split: sum.splits prod.splits message_type.splits)
next
  case ReadBody
  then show ?thesis
    using assms(2) by (auto simp: reader_take_def reader_ok_def expect_header_def split: sum.splits)
next
  case ReadKeepAlive
  then show ?thesis using assms(2) by (auto simp: reader_take_def reader_ok_def expect_header_def)
qed

lemma reader_loop_ok:
  "reader_ok r \<Longrightarrow> reader_loop r = (res, r') \<Longrightarrow>
     (\<forall>h. res = Inl h \<longrightarrow> no_panic (Some h)) \<and> (is_ok res \<longrightarrow> reader_ok r')"
proof (induction r arbitrary: res r' rule: reader_loop.induct)
  case (1 r)
  obtain q s where t: "reader_take r = (q, s)" by fastforce
  note ok = reader_take_ok [OF "1.prems"(1) t]
  show ?case
  proof (cases "fr_filled r < length (fr_buffer r)")
    case True
    then show ?thesis using "1.prems" by (auto simp: reader_loop.simps [of r])
  next
    case False
    show ?thesis
    proof (cases "q = Inr None")
      case True
      then have "reader_loop s = (res, r')"
        using "1.prems"(2) False t by (simp add: reader_loop.simps [of r])
      then show ?thesis using "1.IH" [OF False t [symmetric] True refl] ok True by simp
    next
      case other: False
      then have "res = q" "r' = s"
        using "1.prems"(2) False t
        by (auto simp: reader_loop.simps [of r] split: sum.splits option.splits)
      then show ?thesis using ok by simp
    qed
  qed
qed

lemma reader_step_ok:
  assumes "reader_ok r" "length chunk \<le> space_owed r" "reader_step chunk r = (res, r')"
  shows "(\<forall>h. res = Inl h \<longrightarrow> no_panic (Some h)) \<and> (is_ok res \<longrightarrow> reader_ok r')"
proof (cases "fr_filled r < length (fr_buffer r)")
  case True
  show ?thesis
  proof (cases "chunk = []")
    case True
    then show ?thesis using assms \<open>fr_filled r < _\<close> by (auto simp: reader_step_def)
  next
    case False
    let ?r = "r\<lparr>fr_buffer := write_at (fr_filled r) chunk (fr_buffer r), fr_filled := fr_filled r + length chunk\<rparr>"
    have "fr_filled r + length chunk \<le> length (fr_buffer r)"
      using assms(2) True by (simp add: space_owed_def)
    moreover from this have
      "length (write_at (fr_filled r) chunk (fr_buffer r)) = length (fr_buffer r)"
      by (rule length_write_at)
    ultimately have "reader_ok ?r" using assms(1) by (auto simp: reader_ok_def)
    then show ?thesis using reader_loop_ok [of ?r] assms(3) True False by (simp add: reader_step_def)
  qed
next
  case False
  then show ?thesis using reader_loop_ok [OF assms(1)] assms(3) by (simp add: reader_step_def)
qed

section \<open>Each event keeps the invariant\<close>

text \<open>
  What one turn does: \<open>iss\<close> are the callers it takes on.  Every caller is afterwards waiting in the
  table, held by the frame being written, or answered.
\<close>

definition held_callers :: "actor \<Rightarrow> caller multiset" where
  "held_callers ac = waiting_callers (ac_table ac)
     + (case unsent ac of None \<Rightarrow> {#} | Some q \<Rightarrow> caller_of (qd_reply q))"

definition turn_ok :: "caller multiset \<Rightarrow> actor \<Rightarrow> actor \<Rightarrow> event list \<Rightarrow> halt option \<Rightarrow> bool" where
  "turn_ok iss ac ac' evs r \<longleftrightarrow>
     table_inv (ac_table ac') \<and> (r = None \<longrightarrow> actor_inv ac') \<and> no_panic r
     \<and> (r \<noteq> Some (Failed PoolExhausted) \<longrightarrow> iss + held_callers ac = held_callers ac' + replied_to evs)
     \<and> load ac' \<le> tb_limit (ac_table ac') \<and> tb_limit (ac_table ac') = tb_limit (ac_table ac)"

lemma note_waiting_simps [simp]:
  "ac_table (note_waiting now ac) = ac_table ac"
  "ac_writing (note_waiting now ac) = ac_writing ac"
  "ac_inbound (note_waiting now ac) = ac_inbound ac"
  "ac_consecutive_closes (note_waiting now ac) = ac_consecutive_closes ac"
  "unsent (note_waiting now ac) = unsent ac"
  "load (note_waiting now ac) = load ac"
  "held_callers (note_waiting now ac) = held_callers ac"
  "writing_ok (note_waiting now ac) = writing_ok ac"
  "(\<exists>since. ac_waiting_since (note_waiting now ac) = Some since) \<longleftrightarrow> 0 < tb_charging (ac_table ac)"
  by (auto simp: note_waiting_def unsent_def load_def held_callers_def writing_ok_def split: option.splits bool.splits)

lemma unsent_simps [simp]:
  "unsent (ac\<lparr>ac_table := tb\<rparr>) = unsent ac"
  "unsent (ac\<lparr>ac_inbound := x\<rparr>) = unsent ac"
  "unsent (ac\<lparr>ac_silent_for := d\<rparr>) = unsent ac"
  "unsent (ac\<lparr>ac_waiting_since := w\<rparr>) = unsent ac"
  "unsent (ac\<lparr>ac_closes := q\<rparr>) = unsent ac"
  "unsent (ac\<lparr>ac_requests := q\<rparr>) = unsent ac"
  "unsent (ac\<lparr>ac_closes_done := b\<rparr>) = unsent ac"
  "unsent (ac\<lparr>ac_requests_done := b\<rparr>) = unsent ac"
  "unsent (ac\<lparr>ac_consecutive_closes := n\<rparr>) = unsent ac"
  by (simp_all add: unsent_def)

lemma held_outcome_silent: "replied_to (case rq_outcome rq of Some arranged \<Rightarrow> [Ended arranged res] | None \<Rightarrow> []) = {#}"
  by (simp split: option.split)

lemma assembly_new_buffered: "as_buffered (assembly_new a b)"
  by (simp add: assembly_new_def)

lemma allocated_table:
  assumes "table_inv tb" "allocate tb = (found, tb')"
  shows "table_inv tb' \<and> tb' = tb\<lparr>tb_cursor := tb_cursor tb'\<rparr>
    \<and> (\<forall>mid. found = Some mid \<longrightarrow> map_of (tb_entries tb) mid = None \<and> mid \<le> LAST_MID)"
proof -
  have c: "tb_cursor tb \<le> LAST_MID" using assms(1) by (simp add: table_inv_def)
  obtain f c' where p: "probe POOL (tb_entries tb) (tb_cursor tb) = (f, c')" by fastforce
  show ?thesis
    using assms probe_cursor [OF p c] p table_inv_cursor [of tb c']
    by (cases f) (auto simp: allocate_def split: if_splits dest: probe_Some [OF _ c])
qed

lemma framed_nonempty: "rbind (message_of hdr b) frame = Inr fr \<Longrightarrow> fr \<noteq> []"
  using length_encode_header
  by (fastforce simp: rbind_Inr_iff frame_def NB_HEADER_LEN_def)

lemma begin_ok:
  assumes inv: "actor_inv ac" and room: "can_admit ac"
    and b: "begin_request gone d ac = (ac', evs, r)"
  shows "turn_ok (if \<exists>c. dp_reply d = Some c \<and> gone c then {#} else caller_of (dp_reply d)) ac ac' evs r"
proof -
  have w: "ac_writing ac = None" "tb_charging (ac_table ac) < tb_limit (ac_table ac)"
    using room by (auto simp: can_admit_def)
  then have un: "unsent ac = None" by (simp add: unsent_def)
  show ?thesis
  proof (cases "\<exists>c. dp_reply d = Some c \<and> gone c")
    case True
    then have "ac' = ac" "r = None" "replied_to evs = {#}"
      using b by (auto simp: begin_request_def held_outcome_silent Let_def)
    then show ?thesis using inv True by (simp add: turn_ok_def actor_inv_def)
  next
    case False
    obtain found tb where al: "allocate (ac_table ac) = (found, tb)" by fastforce
    have t: "table_inv tb" "tb = (ac_table ac)\<lparr>tb_cursor := tb_cursor tb\<rparr>"
        "\<And>mid. found = Some mid \<Longrightarrow> map_of (tb_entries (ac_table ac)) mid = None \<and> mid \<le> LAST_MID"
      using allocated_table [OF _ al] inv by (auto simp: actor_inv_def)
    have same: "tb_entries tb = tb_entries (ac_table ac)" "tb_charging tb = tb_charging (ac_table ac)"
        "tb_limit tb = tb_limit (ac_table ac)" "tb_retired tb = tb_retired (ac_table ac)"
      using arg_cong [OF t(2), of tb_entries] arg_cong [OF t(2), of tb_charging]
        arg_cong [OF t(2), of tb_limit] arg_cong [OF t(2), of tb_retired] by simp_all
    have live: "\<not> (case dp_reply d of Some c \<Rightarrow> gone c | None \<Rightarrow> False)"
      using False by (auto split: option.splits)
    let ?ac = "ac\<lparr>ac_table := tb\<rparr>"
    have base: "actor_inv ?ac" "held_callers ?ac = held_callers ac"
      using inv same t(1) w un
      by (auto simp: actor_inv_def writing_ok_def load_def held_callers_def waiting_callers_def unsent_def)
    show ?thesis
    proof (cases found)
      case None
      then have "ac' = ?ac" "r = Some (Failed PoolExhausted)"
        using b al live by (simp_all add: begin_request_def Let_def)
      then show ?thesis using base t(1) same by (simp add: turn_ok_def actor_inv_def)
    next
      case (Some mid)
      define hdr where "hdr = (header_request (rq_command (dp_request d)))
          \<lparr>h_mid := mid, h_tid := rq_tid (dp_request d), h_uid := rq_uid (dp_request d)\<rparr>"
      show ?thesis
      proof (cases "rbind (message_of hdr (rq_body (dp_request d))) frame")
        case (Inl e)
        then have "ac' = ?ac" "r = None" "replied_to evs = caller_of (dp_reply d)"
          using b al live Some
          by (auto simp: begin_request_def Let_def hdr_def held_outcome_silent caller_of_def split: option.split)
        then show ?thesis
          using base False t(1) same by (auto simp: turn_ok_def actor_inv_def)
      next
        case (Inr fr)
        define asm where "asm = (if rq_command (dp_request d) = CMD_TRANSACTION \<or> rq_command (dp_request d) = CMD_TRANSACTION2
              then Some (assembly_new (rq_max_parameter_count (dp_request d)) (rq_max_data_count (dp_request d)))
              else None)"
        define q where "q = \<lparr>qd_mid = mid, qd_command = rq_command (dp_request d), qd_reply = dp_reply d,
            qd_assembly = asm, qd_outcome = rq_outcome (dp_request d)\<rparr>"
        have ac': "ac' = ?ac\<lparr>ac_writing := Some \<lparr>wt_frame = fr, wt_cursor = 0, wt_queued = Some q\<rparr>\<rparr>"
            "evs = []" "r = None"
          using b al live Some Inr
          by (auto simp: begin_request_def Let_def hdr_def asm_def q_def)
        have "fr \<noteq> []" using framed_nonempty Inr by blast
        moreover have "may_dispatch mid asm tb"
          using t(3) [OF Some] same(1) by (simp add: may_dispatch_def asm_def assembly_new_buffered)
        ultimately have "writing_ok ac'" by (simp add: writing_ok_def ac' unsent_def q_def)
        moreover have "unsent ac' = Some q" by (simp add: unsent_def ac')
        ultimately show ?thesis
          using base w un False same t(1) unfolding ac'(2,3)
          by (auto simp: turn_ok_def actor_inv_def load_def held_callers_def ac'(1) q_def ac_simps)
      qed
    qed
  qed
qed

lemma wrote_ok:
  assumes inv: "actor_inv ac" and w: "ac_writing ac = Some wr" "wt_cursor wr + n \<le> length (wt_frame wr)"
    and b: "wrote now n ac = (ac', evs, r)"
  shows "turn_ok {#} ac ac' evs r"
proof (cases "n = 0")
  case True
  then show ?thesis using b inv by (auto simp: wrote_def turn_ok_def actor_inv_def)
next
  case False
  define ac1 where "ac1 = ac\<lparr>ac_table := (case wt_queued wr of
          None \<Rightarrow> ac_table ac
        | Some q \<Rightarrow> dispatch (qd_mid q) (qd_command q) (qd_reply q) (qd_assembly q) (qd_outcome q) now (ac_table ac)),
      ac_writing := (if length (wt_frame wr) \<le> wt_cursor wr + n then None
          else Some (wr\<lparr>wt_cursor := wt_cursor wr + n, wt_queued := None\<rparr>))\<rparr>"
  have ac': "ac' = note_waiting now ac1" "evs = []" "r = None"
    using b False w by (auto simp: wrote_def ac1_def Let_def)
  have un: "unsent ac1 = None" by (simp add: unsent_def ac1_def)
  have wo: "writing_ok ac1" using w(2) un by (auto simp: writing_ok_def ac1_def)
  have tb: "table_inv (ac_table ac1) \<and> tb_retired (ac_table ac1) = tb_retired (ac_table ac)
      \<and> tb_charging (ac_table ac1) = load ac \<and> tb_limit (ac_table ac1) = tb_limit (ac_table ac)
      \<and> waiting_callers (ac_table ac1) = held_callers ac"
  proof (cases "wt_queued wr")
    case None
    then show ?thesis
      using inv w by (simp add: ac1_def actor_inv_def load_def unsent_def held_callers_def)
  next
    case (Some q)
    then have "unsent ac = Some q" using w by (simp add: unsent_def)
    moreover from this have "may_dispatch (qd_mid q) (qd_assembly q) (ac_table ac)"
      using inv by (simp add: actor_inv_def writing_ok_def)
    ultimately show ?thesis
      using dispatch_ok [of "ac_table ac" "qd_mid q" "qd_assembly q"] inv Some
      by (simp add: ac1_def actor_inv_def load_def held_callers_def may_dispatch_def)
        (simp add: dispatch_def Let_def)
  qed
  have "ac_inbound ac1 = ac_inbound ac" "ac_consecutive_closes ac1 = ac_consecutive_closes ac"
    by (simp_all add: ac1_def)
  then show ?thesis
    using inv tb wo un unfolding ac'
    by (simp add: turn_ok_def actor_inv_def) (simp add: load_def held_callers_def)
qed

lemma route_ok:
  assumes inv: "actor_inv ac" and b: "route now i ac = (ac', evs, r)"
  shows "turn_ok {#} ac ac' evs r"
proof (cases i)
  case InKeepAlive
  then show ?thesis using b inv by (simp add: route_def turn_ok_def actor_inv_def)
next
  case (InMessage m)
  show ?thesis
  proof (cases "chained_command m")
    case (Some nxt)
    then show ?thesis using b inv InMessage by (auto simp: route_def turn_ok_def actor_inv_def)
  next
    case None
    obtain tb ev h where a: "table_accept m now (ac_table ac) = (tb, ev, h)" by (metis prod_cases3)
    have ti: "table_inv (ac_table ac)" using inv by (simp add: actor_inv_def)
    have ok: "table_step_ok (ac_table ac) tb ev h" by (rule table_accept_ok [OF ti a])
    define ac1 where "ac1 = ac\<lparr>ac_silent_for := 0, ac_waiting_since := None, ac_table := tb\<rparr>"
    have res: "evs = ev" "ac' = (if h = None then note_waiting now ac1 else ac1)"
        "r = (if h = None then if h_status (header m) = USER_SESSION_DELETED then Some (Failed SessionDeleted) else None
              else h)"
      using b InMessage None a by (auto simp: route_def ac1_def Let_def split: option.splits)
    have un: "unsent ac1 = unsent ac" by (simp add: ac1_def)
    have "writing_ok ac1"
      using inv table_accept_free [OF _ a]
      by (auto simp: actor_inv_def writing_ok_def may_dispatch_def ac1_def)
    moreover have "load ac1 \<le> tb_limit tb" "tb_limit tb = tb_limit (ac_table ac)"
      using ok inv by (auto simp: table_step_ok_def load_def ac1_def actor_inv_def)
    moreover have "held_callers ac = held_callers ac1 + replied_to ev"
      using ok by (simp add: held_callers_def table_step_ok_def un) (simp add: ac1_def)
    moreover have "ac_table ac1 = tb" "ac_inbound ac1 = ac_inbound ac"
        "ac_consecutive_closes ac1 = ac_consecutive_closes ac" by (simp_all add: ac1_def)
    ultimately show ?thesis
      using ok inv res
      by (auto simp: turn_ok_def actor_inv_def table_step_ok_def no_panic_def)
  qed
qed

lemma tick_ok:
  assumes inv: "actor_inv ac" and b: "tick now ac = (ac', evs, r)"
  shows "turn_ok {#} ac ac' evs r"
proof (cases "ac_waiting_since ac \<noteq> None \<and> overall (ac_timeouts ac) \<le> silent_for now ac")
  case True
  then have "ac' = ac" "evs = []" "r = Some (Failed Silent)" using b by (auto simp: tick_def)
  then show ?thesis using inv by (simp add: turn_ok_def actor_inv_def)
next
  case False
  obtain tb ev h where a: "expire now (ac_table ac) = (tb, ev, h)" by (metis prod_cases3)
  have ti: "table_inv (ac_table ac)" using inv by (simp add: actor_inv_def)
  have ok: "table_step_ok (ac_table ac) tb ev h" by (rule expire_ok [OF ti a])
  define ac1 where "ac1 = ac\<lparr>ac_table := tb\<rparr>"
  have res: "evs = ev" "ac' = note_waiting now ac1" "r = h"
    using b False a by (auto simp: tick_def ac1_def)
  have un: "unsent ac1 = unsent ac" by (simp add: ac1_def)
  have "writing_ok ac1"
    using inv expire_free [OF _ a]
    by (auto simp: actor_inv_def writing_ok_def may_dispatch_def ac1_def)
  moreover have "load ac1 \<le> tb_limit tb" "tb_limit tb = tb_limit (ac_table ac)"
    using ok inv by (auto simp: table_step_ok_def load_def ac1_def actor_inv_def)
  moreover have "held_callers ac = held_callers ac1 + replied_to ev"
    using ok by (simp add: held_callers_def table_step_ok_def un) (simp add: ac1_def)
  moreover have "ac_table ac1 = tb" "ac_inbound ac1 = ac_inbound ac"
      "ac_consecutive_closes ac1 = ac_consecutive_closes ac" by (simp_all add: ac1_def)
  ultimately show ?thesis
    using ok inv res by (auto simp: turn_ok_def actor_inv_def table_step_ok_def no_panic_def)
qed

lemma inbound_ok:
  assumes inv: "actor_inv ac" and len: "length chunk \<le> space_owed (ac_inbound ac)"
    and b: "inbound_event now chunk ac = (ac', evs, r)"
  shows "turn_ok {#} ac ac' evs r"
proof -
  obtain res rd where s: "reader_step chunk (ac_inbound ac) = (res, rd)" by fastforce
  have rok: "(\<forall>h. res = Inl h \<longrightarrow> no_panic (Some h)) \<and> (is_ok res \<longrightarrow> reader_ok rd)"
    using inv by (intro reader_step_ok [OF _ len s]) (simp add: actor_inv_def)
  let ?ac = "ac\<lparr>ac_inbound := rd\<rparr>"
  have same: "held_callers ?ac = held_callers ac" "load ?ac = load ac"
    by (simp_all add: held_callers_def load_def)
  have inv1: "is_ok res \<Longrightarrow> actor_inv ?ac"
    using inv rok by (auto simp: actor_inv_def writing_ok_def load_def)
  show ?thesis
  proof (cases res)
    case (Inl h)
    then have "ac' = ?ac" "evs = []" "r = Some h" using b s by (auto simp: inbound_event_def)
    then show ?thesis using inv rok Inl same by (auto simp: turn_ok_def actor_inv_def)
  next
    case (Inr i)
    then have i1: "actor_inv ?ac" using inv1 by simp
    show ?thesis
    proof (cases i)
      case None
      then have "ac' = ?ac" "evs = []" "r = None" using b s Inr by (auto simp: inbound_event_def)
      then show ?thesis using i1 same by (auto simp: turn_ok_def actor_inv_def)
    next
      case (Some x)
      then have "route now x ?ac = (ac', evs, r)" using b s Inr by (simp add: inbound_event_def)
      then show ?thesis using route_ok [OF i1] same by (fastforce simp: turn_ok_def)
    qed
  qed
qed

text \<open>The callers a turn takes on: that of the dispatch it takes from a channel, unless it has gone.\<close>

definition taken_on :: "(caller \<Rightarrow> bool) \<Rightarrow> source \<Rightarrow> actor \<Rightarrow> caller multiset" where
  "taken_on gone src ac =
     (let waiting = (\<lambda>d. case dp_reply d of Some c \<Rightarrow> if gone c then {#} else {#c#} | None \<Rightarrow> {#}) in
      case src of
        FromCloses \<Rightarrow> waiting (hd (ac_closes ac))
      | FromRequests \<Rightarrow> waiting (hd (ac_requests ac))
      | _ \<Rightarrow> {#})"

lemma pump_head_inv: "actor_inv ac \<Longrightarrow> actor_inv (pump_head ac)"
  by (auto simp: pump_head_def actor_inv_def writing_ok_def load_def)

lemma pump_head_simps [simp]:
  "ac_table (pump_head ac) = ac_table ac"
  "held_callers (pump_head ac) = held_callers ac"
  "ac_waiting_since (pump_head ac) = ac_waiting_since ac"
  "ac_silent_for (pump_head ac) = ac_silent_for ac"
  "ac_timeouts (pump_head ac) = ac_timeouts ac"
  "ac_requests (pump_head ac) = ac_requests ac"
  "ac_closes (pump_head ac) = ac_closes ac"
  by (auto simp: pump_head_def held_callers_def)

lemma pump_turn_ok:
  assumes inv: "actor_inv ac" and ready: "source_ready now ac src"
    and b: "pump_turn gone now src ac = (ac', evs, r)"
  shows "turn_ok (taken_on gone src ac) ac ac' evs r"
proof (cases src)
  case FromCloses
  let ?ac = "ac\<lparr>ac_closes := tl (ac_closes ac), ac_consecutive_closes := ac_consecutive_closes ac + 1\<rparr>"
  have "actor_inv ?ac" "can_admit ?ac" "held_callers ?ac = held_callers ac"
    using inv ready FromCloses
    by (auto simp: actor_inv_def writing_ok_def load_def source_ready_def take_close_def can_admit_def held_callers_def)
  then show ?thesis
    using begin_ok [of ?ac gone "hd (ac_closes ac)" ac' evs r] b FromCloses
    by (auto simp: pump_turn_def turn_ok_def taken_on_def caller_of_def split: option.splits if_splits)
next
  case FromRequests
  let ?ac = "ac\<lparr>ac_requests := tl (ac_requests ac), ac_consecutive_closes := 0\<rparr>"
  have "actor_inv ?ac" "can_admit ?ac" "held_callers ?ac = held_callers ac"
    using inv ready FromRequests
    by (auto simp: actor_inv_def writing_ok_def load_def source_ready_def take_request_def can_admit_def held_callers_def)
  then show ?thesis
    using begin_ok [of ?ac gone "hd (ac_requests ac)" ac' evs r] b FromRequests
    by (auto simp: pump_turn_def turn_ok_def taken_on_def caller_of_def split: option.splits if_splits)
next
  case ClosesEnded
  then show ?thesis using inv b
    by (auto simp: pump_turn_def taken_on_def turn_ok_def actor_inv_def writing_ok_def load_def held_callers_def)
next
  case RequestsEnded
  then show ?thesis using inv b
    by (auto simp: pump_turn_def taken_on_def turn_ok_def actor_inv_def writing_ok_def load_def held_callers_def)
next
  case (FromSocket chunk)
  then show ?thesis using inbound_ok [OF inv] b ready
    by (simp add: pump_turn_def taken_on_def source_ready_def)
next
  case (Written n)
  then show ?thesis using wrote_ok [OF inv] b ready
    by (auto simp: pump_turn_def taken_on_def source_ready_def split: option.splits)
next
  case (WriteFailed why)
  then show ?thesis using inv b by (auto simp: pump_turn_def taken_on_def turn_ok_def actor_inv_def)
next
  case Timer
  then show ?thesis using tick_ok [OF inv] b by (simp add: pump_turn_def taken_on_def)
qed

section \<open>The life of a connection\<close>

text \<open>Whether a turn delivers a message, which starts the silence window over.\<close>

definition delivers :: "source \<Rightarrow> actor \<Rightarrow> bool" where
  "delivers src ac =
     (case src of
        FromSocket chunk \<Rightarrow>
          (case fst (reader_step chunk (ac_inbound ac)) of Inr (Some (InMessage m)) \<Rightarrow> chained_command m = None
             | _ \<Rightarrow> False)
      | _ \<Rightarrow> False)"

text \<open>
  Every state a connection can reach: its clock, the instant of the last message routed (at first
  that of the spawn), the callers taken on, the events emitted and how the last turn ended.
\<close>

inductive actor_life ::
    "negotiated \<Rightarrow> timeouts \<Rightarrow> instant \<Rightarrow> instant \<Rightarrow> actor \<Rightarrow> caller multiset \<Rightarrow> event list \<Rightarrow> halt option \<Rightarrow> bool"
  for n :: negotiated and ts :: timeouts where
  actor_spawn: "actor_life n ts t t (actor_new n ts) {#} [] None"
| actor_submit: "actor_life n ts t heard ac iss evs None \<Longrightarrow> \<not> ac_requests_done ac \<Longrightarrow>
    length (ac_requests ac) < admission_limit n \<Longrightarrow>
    actor_life n ts t heard (ac\<lparr>ac_requests := ac_requests ac @ [d]\<rparr>) iss evs None"
| actor_close: "actor_life n ts t heard ac iss evs None \<Longrightarrow> \<not> ac_closes_done ac \<Longrightarrow>
    actor_life n ts t heard (ac\<lparr>ac_closes := ac_closes ac @ [d]\<rparr>) iss evs None"
| actor_turn: "actor_life n ts t heard ac iss evs None \<Longrightarrow> t \<le> now \<Longrightarrow> \<not> pump_done (pump_head ac) \<Longrightarrow>
    source_ready now (pump_head ac) src \<Longrightarrow> pump_turn gone now src (pump_head ac) = (ac', ev, r) \<Longrightarrow>
    actor_life n ts now (if delivers src (pump_head ac) then now else heard) ac'
      (iss + taken_on gone src ac) (evs @ ev) r"

lemma actor_new_inv: "actor_inv (actor_new n ts)"
  using table_inv_new [of "admission_limit n" ts] reader_new_ok
  by (simp add: actor_inv_def actor_new_def writing_ok_def unsent_def load_def RETIREMENT_BUDGET_def)
    (simp add: table_new_def)

lemma taken_on_head [simp]: "taken_on gone src (pump_head ac) = taken_on gone src ac"
  by (cases src) (simp_all add: taken_on_def)

lemma actor_life_inv:
  "actor_life n ts t heard ac iss evs r \<Longrightarrow>
     (r = None \<longrightarrow> actor_inv ac) \<and> table_inv (ac_table ac) \<and> load ac \<le> tb_limit (ac_table ac)
     \<and> tb_limit (ac_table ac) = admission_limit n \<and> no_panic r
     \<and> (r \<noteq> Some (Failed PoolExhausted) \<longrightarrow> iss = held_callers ac + replied_to evs)"
proof (induction rule: actor_life.induct)
  case (actor_spawn t)
  have "tb_limit (ac_table (actor_new n ts)) = admission_limit n"
    by (simp add: actor_new_def table_new_def)
  moreover have "held_callers (actor_new n ts) = {#}"
    by (simp add: held_callers_def actor_new_def waiting_callers_def unsent_def table_new_def)
  ultimately show ?case using actor_new_inv [of n ts] by (simp add: actor_inv_def)
next
  case (actor_submit t heard ac iss evs d)
  then show ?case by (simp add: actor_inv_def writing_ok_def load_def held_callers_def)
next
  case (actor_close t heard ac iss evs d)
  then show ?case by (simp add: actor_inv_def writing_ok_def load_def held_callers_def)
next
  case (actor_turn t heard ac iss evs now src gone ac' ev r)
  then have "turn_ok (taken_on gone src ac) (pump_head ac) ac' ev r"
    using pump_turn_ok [of "pump_head ac"] pump_head_inv by fastforce
  then show ?case using actor_turn.IH by (auto simp: turn_ok_def actor_inv_def ac_simps)
qed

text \<open>
  C7. The admission limit holds at every moment: the requests on the wire and the one whose frame
  has not yet put a byte there never exceed min(MaxMpxCount, 50), and at least one is always
  allowed.  The multiplex id of the frame waiting to be written is free in the table and not
  0xFFFF, and no turn of the connection task panics.
\<close>

theorem admission_respected:
  assumes "actor_life n ts t heard ac iss evs r"
  shows "tb_charging (ac_table ac) + (if unsent ac = None then 0 else 1) \<le> admission_limit n
     \<and> 1 \<le> admission_limit n \<and> admission_limit n \<le> 50
     \<and> (r = None \<longrightarrow> (\<forall>q. unsent ac = Some q \<longrightarrow>
           map_of (tb_entries (ac_table ac)) (qd_mid q) = None \<and> qd_mid q \<noteq> 0xFFFF))
     \<and> (\<forall>s. r \<noteq> Some (Panic s))"
proof -
  have "\<not> (0xFFFF :: mid) \<le> LAST_MID" by (simp add: LAST_MID_def)
  then show ?thesis
    using actor_life_inv [OF assms] admission_limit_bounds [of n]
    by (auto simp: actor_inv_def writing_ok_def may_dispatch_def load_def no_panic_def ADMISSION_CEILING_def)
qed


section \<open>Silence\<close>

definition quiet :: "timeouts \<Rightarrow> instant \<Rightarrow> instant \<Rightarrow> actor \<Rightarrow> bool" where
  "quiet ts heard t ac \<longleftrightarrow>
     ac_timeouts ac = ts \<and> heard \<le> t
     \<and> (case ac_waiting_since ac of
          None \<Rightarrow> ac_silent_for ac + heard \<le> t
        | Some since \<Rightarrow> since \<le> t \<and> ac_silent_for ac + heard \<le> since)"

lemma quiet_later: "quiet ts heard t ac \<Longrightarrow> t \<le> now \<Longrightarrow> quiet ts heard now ac"
  by (auto simp: quiet_def split: option.splits)

lemma quiet_same:
  "quiet ts heard t ac \<Longrightarrow> ac_waiting_since ac' = ac_waiting_since ac \<Longrightarrow>
     ac_silent_for ac' = ac_silent_for ac \<Longrightarrow> ac_timeouts ac' = ac_timeouts ac \<Longrightarrow> quiet ts heard t ac'"
  by (auto simp: quiet_def split: option.splits)

lemma quiet_note: "quiet ts heard t ac \<Longrightarrow> t \<le> now \<Longrightarrow> quiet ts heard now (note_waiting now ac)"
  by (auto simp: quiet_def note_waiting_def split: option.splits bool.splits)

lemma silent_for_bound: "quiet ts heard t ac \<Longrightarrow> t \<le> now \<Longrightarrow> silent_for now ac \<le> now - heard"
  by (auto simp: quiet_def silent_for_def split: option.splits)

lemma begin_clock:
  "begin_request gone d ac = (ac', evs, r) \<Longrightarrow>
     ac_waiting_since ac' = ac_waiting_since ac \<and> ac_silent_for ac' = ac_silent_for ac
     \<and> ac_timeouts ac' = ac_timeouts ac \<and> r \<noteq> Some (Failed Silent)"
  by (auto simp: begin_request_def Let_def split: if_splits option.splits prod.splits sum.splits)

lemma reader_take_fails: "reader_take r = (Inl h, r') \<Longrightarrow> h \<noteq> Failed Silent"
  by (auto simp: reader_take_def split: reading.splits list.splits sum.splits prod.splits)

lemma reader_loop_fails: "reader_loop r = (Inl h, r') \<Longrightarrow> h \<noteq> Failed Silent"
proof (induction r arbitrary: r' rule: reader_loop.induct)
  case (1 r)
  obtain q s where t: "reader_take r = (q, s)" by fastforce
  show ?case
    using "1.prems" "1.IH" [OF _ t [symmetric]] t reader_take_fails
    by (auto simp: reader_loop.simps [of r] split: if_splits sum.splits option.splits)
qed

lemma reader_step_fails: "reader_step chunk r = (Inl h, r') \<Longrightarrow> h \<noteq> Failed Silent"
  by (auto simp: reader_step_def split: if_splits dest: reader_loop_fails)

lemma retire_fails: "retire mid tb = (tb', Some h) \<Longrightarrow> h \<noteq> Failed Silent"
  by (auto simp: retire_def Let_def split: option.splits if_splits)

lemma table_accept_fails: "table_accept m now tb = (tb', evs, Some h) \<Longrightarrow> h \<noteq> Failed Silent"
  using entry_accept_no_panic
  by (auto simp: table_accept_def Let_def dest: retire_fails
      split: option.splits if_splits sum.splits prod.splits table_step.splits)

lemma expire_one_fails: "expire_one now mid tb = (tb', evs, Some h) \<Longrightarrow> h \<noteq> Failed Silent"
  by (auto simp: expire_one_def Let_def dest: retire_fails
      split: option.splits if_splits prod.splits req_state.splits)

lemma expire_fails: "expire now tb = (tb', evs, Some h) \<Longrightarrow> h \<noteq> Failed Silent"
proof (induction now tb arbitrary: tb' evs h rule: expire.induct)
  case (1 now tb)
  show ?case
  proof (cases "tb_expiry tb")
    case Nil
    then show ?thesis using "1.prems" by (simp add: expire.simps [of now tb])
  next
    case (Cons p rest)
    obtain at i where p: "p = (at, i)" by (cases p)
    obtain tb1 ev1 r1 where one: "expire_one now i (tb\<lparr>tb_expiry := rest\<rparr>) = (tb1, ev1, r1)"
      by (metis prod_cases3)
    obtain tb2 ev2 r2 where two: "expire now tb1 = (tb2, ev2, r2)" by (metis prod_cases3)
    consider "now < at" | "\<not> now < at" "r1 = None" | h1 where "\<not> now < at" "r1 = Some h1"
      by (cases r1) auto
    then show ?thesis
    proof cases
      case 1
      then show ?thesis using "1.prems" Cons p by (simp add: expire.simps [of now tb])
    next
      case 2
      then have "r2 = Some h" using "1.prems" Cons p one two by (simp add: expire.simps [of now tb])
      then show ?thesis using "1.IH" [OF Cons p [symmetric] 2(1) one [symmetric] refl 2(2)] two by simp
    next
      case 3
      then have "h = h1" using "1.prems" Cons p one by (simp add: expire.simps [of now tb])
      then show ?thesis using expire_one_fails one 3 by blast
    qed
  qed
qed

text \<open>What a turn does to the window, and when it fails silent.\<close>

lemma route_clock:
  assumes q: "quiet ts heard t ac" "t \<le> now" and b: "route now i ac = (ac', evs, r)"
  shows "quiet ts (case i of InMessage m \<Rightarrow> if chained_command m = None then now else heard | InKeepAlive \<Rightarrow> heard)
       now ac' \<and> r \<noteq> Some (Failed Silent)"
proof (cases i)
  case InKeepAlive
  then show ?thesis using b quiet_later [OF q] by (simp add: route_def)
next
  case (InMessage m)
  show ?thesis
  proof (cases "chained_command m")
    case (Some nxt)
    then show ?thesis using b InMessage quiet_later [OF q] by (auto simp: route_def)
  next
    case None
    obtain tb ev h where a: "table_accept m now (ac_table ac) = (tb, ev, h)" by (metis prod_cases3)
    have base: "quiet ts now now (ac\<lparr>ac_silent_for := 0, ac_waiting_since := None, ac_table := tb\<rparr>)"
      using q(1) by (simp add: quiet_def)
    show ?thesis
    proof (cases h)
      case None
      then show ?thesis
        using b InMessage \<open>chained_command m = None\<close> a quiet_note [OF base]
        by (auto simp: route_def Let_def split: if_splits)
    next
      case (Some x)
      then show ?thesis
        using b InMessage \<open>chained_command m = None\<close> a base
        by (auto simp: route_def Let_def dest: table_accept_fails)
    qed
  qed
qed

lemma tick_clock:
  assumes q: "quiet ts heard t ac" "t \<le> now" and b: "tick now ac = (ac', evs, r)"
  shows "quiet ts heard now ac'
    \<and> (r = Some (Failed Silent) \<longrightarrow> ac_waiting_since ac' \<noteq> None \<and> overall ts \<le> now - heard)"
proof (cases "ac_waiting_since ac \<noteq> None \<and> overall (ac_timeouts ac) \<le> silent_for now ac")
  case True
  then have "ac' = ac" "overall ts \<le> silent_for now ac"
    using b q(1) by (auto simp: tick_def quiet_def)
  then show ?thesis using True quiet_later [OF q] silent_for_bound [OF q] by auto
next
  case False
  obtain tb ev h where a: "expire now (ac_table ac) = (tb, ev, h)" by (metis prod_cases3)
  have "quiet ts heard t (ac\<lparr>ac_table := tb\<rparr>)" by (rule quiet_same [OF q(1)]) simp_all
  then have "quiet ts heard now (note_waiting now (ac\<lparr>ac_table := tb\<rparr>))" using q(2) by (rule quiet_note)
  moreover have "ac' = note_waiting now (ac\<lparr>ac_table := tb\<rparr>)" "r = h"
    using b False a by (auto simp: tick_def)
  moreover have "h \<noteq> Some (Failed Silent)" using expire_fails a by blast
  ultimately show ?thesis by simp
qed

lemma wrote_clock:
  assumes q: "quiet ts heard t ac" "t \<le> now" and b: "wrote now n ac = (ac', evs, r)"
  shows "quiet ts heard now ac' \<and> r \<noteq> Some (Failed Silent)"
proof (cases "n = 0 \<or> ac_writing ac = None")
  case True
  then show ?thesis using b quiet_later [OF q] by (auto simp: wrote_def split: if_splits)
next
  case False
  then obtain w where w: "ac_writing ac = Some w" by auto
  define tb where "tb = (case wt_queued w of None \<Rightarrow> ac_table ac
      | Some q \<Rightarrow> dispatch (qd_mid q) (qd_command q) (qd_reply q) (qd_assembly q) (qd_outcome q) now (ac_table ac))"
  define ac1 where "ac1 = ac\<lparr>ac_table := tb, ac_writing := (if length (wt_frame w) \<le> wt_cursor w + n then None
      else Some (w\<lparr>wt_cursor := wt_cursor w + n, wt_queued := None\<rparr>))\<rparr>"
  have "quiet ts heard t ac1" by (rule quiet_same [OF q(1)]) (simp_all add: ac1_def)
  then have "quiet ts heard now (note_waiting now ac1)" using q(2) by (rule quiet_note)
  moreover have "ac' = note_waiting now ac1" "r = None"
    using b False w by (auto simp: wrote_def Let_def ac1_def tb_def)
  ultimately show ?thesis by simp
qed

lemma pump_turn_clock:
  assumes q: "quiet ts heard t ac" "t \<le> now" and b: "pump_turn gone now src ac = (ac', evs, r)"
  shows "quiet ts (if delivers src ac then now else heard) now ac'
    \<and> (r = Some (Failed Silent) \<longrightarrow> ac_waiting_since ac' \<noteq> None \<and> overall ts \<le> now - heard
         \<and> \<not> delivers src ac)"
proof -
  have later: "quiet ts heard now ac" using quiet_later [OF q] .
  show ?thesis
  proof (cases src)
    case FromCloses
    then show ?thesis
      using b later begin_clock by (auto simp: pump_turn_def delivers_def intro: quiet_same)
  next
    case FromRequests
    then show ?thesis
      using b later begin_clock by (auto simp: pump_turn_def delivers_def intro: quiet_same)
  next
    case (FromSocket chunk)
    obtain res rd where s: "reader_step chunk (ac_inbound ac) = (res, rd)" by fastforce
    have l: "quiet ts heard now (ac\<lparr>ac_inbound := rd\<rparr>)" "quiet ts heard t (ac\<lparr>ac_inbound := rd\<rparr>)"
      by (rule quiet_same [OF later], simp_all) (rule quiet_same [OF q(1)], simp_all)
    consider h where "res = Inl h" | "res = Inr None" | i where "res = Inr (Some i)"
      by (metis not_None_eq sumE)
    then show ?thesis
    proof cases
      case 1
      then show ?thesis
        using b FromSocket s l(1) reader_step_fails [of chunk "ac_inbound ac"]
        by (auto simp: pump_turn_def inbound_event_def delivers_def)
    next
      case 2
      then show ?thesis
        using b FromSocket s l(1) by (auto simp: pump_turn_def inbound_event_def delivers_def)
    next
      case 3
      then have "route now i (ac\<lparr>ac_inbound := rd\<rparr>) = (ac', evs, r)"
        using b FromSocket s by (simp add: pump_turn_def inbound_event_def)
      from route_clock [OF l(2) q(2) this] show ?thesis
        using 3 FromSocket s by (cases i) (auto simp: delivers_def)
    qed
  next
    case (Written n)
    then show ?thesis using b wrote_clock [OF q] by (auto simp: pump_turn_def delivers_def)
  next
    case Timer
    then show ?thesis using b tick_clock [OF q] by (auto simp: pump_turn_def delivers_def)
  qed (use b later in \<open>auto simp: pump_turn_def delivers_def intro: quiet_same\<close>)
qed

lemma actor_life_quiet:
  "actor_life n ts t heard ac iss evs r \<Longrightarrow>
     quiet ts heard t ac
     \<and> (r = Some (Failed Silent) \<longrightarrow> ac_waiting_since ac \<noteq> None \<and> overall ts \<le> t - heard)"
proof (induction rule: actor_life.induct)
  case (actor_spawn t)
  then show ?case by (simp add: quiet_def actor_new_def)
next
  case (actor_submit t heard ac iss evs d)
  then show ?case by (auto intro: quiet_same)
next
  case (actor_close t heard ac iss evs d)
  then show ?case by (auto intro: quiet_same)
next
  case (actor_turn t heard ac iss evs now src gone ac' ev r)
  have "quiet ts heard t (pump_head ac)"
    using actor_turn.IH by (auto intro: quiet_same)
  from pump_turn_clock [OF this actor_turn.hyps(2,5)] show ?case by auto
qed


section \<open>The two channels\<close>

definition channels_ok :: "actor \<Rightarrow> bool" where
  "channels_ok ac \<longleftrightarrow>
     (ac_requests_done ac \<longrightarrow> ac_requests ac = []) \<and> (ac_closes_done ac \<longrightarrow> ac_closes ac = [])"

lemma note_waiting_channels [simp]:
  "ac_requests (note_waiting now ac) = ac_requests ac"
  "ac_closes (note_waiting now ac) = ac_closes ac"
  "ac_requests_done (note_waiting now ac) = ac_requests_done ac"
  "ac_closes_done (note_waiting now ac) = ac_closes_done ac"
  by (auto simp: note_waiting_def split: option.splits bool.splits)

text \<open>What an event may touch: never the channels, and the run of closes only when a dispatch is taken.\<close>

definition same_channels :: "actor \<Rightarrow> actor \<Rightarrow> bool" where
  "same_channels ac ac' \<longleftrightarrow>
     ac_requests ac' = ac_requests ac \<and> ac_closes ac' = ac_closes ac
     \<and> ac_requests_done ac' = ac_requests_done ac \<and> ac_closes_done ac' = ac_closes_done ac
     \<and> ac_consecutive_closes ac' = ac_consecutive_closes ac"

lemma begin_channels: "begin_request gone d ac = (ac', evs, r) \<Longrightarrow> same_channels ac ac'"
  by (auto simp: begin_request_def same_channels_def Let_def
      split: if_splits option.splits prod.splits sum.splits)

lemma wrote_channels: "wrote now n ac = (ac', evs, r) \<Longrightarrow> same_channels ac ac'"
  by (auto simp: wrote_def same_channels_def Let_def split: if_splits option.splits)

lemma route_channels: "route now i ac = (ac', evs, r) \<Longrightarrow> same_channels ac ac'"
  by (auto simp: route_def same_channels_def Let_def
      split: inbound.splits option.splits prod.splits)

lemma tick_channels: "tick now ac = (ac', evs, r) \<Longrightarrow> same_channels ac ac'"
  by (auto simp: tick_def same_channels_def split: if_splits prod.splits)

lemma inbound_channels:
  assumes "inbound_event now chunk ac = (ac', evs, r)"
  shows "same_channels ac ac'"
proof -
  obtain res rd where s: "reader_step chunk (ac_inbound ac) = (res, rd)" by fastforce
  consider h where "res = Inl h" | "res = Inr None" | i where "res = Inr (Some i)"
    by (metis not_None_eq sumE)
  then show ?thesis
  proof cases
    case 3
    then have "route now i (ac\<lparr>ac_inbound := rd\<rparr>) = (ac', evs, r)"
      using assms s by (simp add: inbound_event_def)
    from route_channels [OF this] show ?thesis by (simp add: same_channels_def)
  qed (use assms s in \<open>auto simp: inbound_event_def same_channels_def\<close>)
qed

lemma pump_turn_channels:
  assumes "pump_turn gone now src ac = (ac', evs, r)"
  shows "ac_consecutive_closes ac' =
       (case src of FromCloses \<Rightarrow> ac_consecutive_closes ac + 1 | FromRequests \<Rightarrow> 0
          | _ \<Rightarrow> ac_consecutive_closes ac)
     \<and> ac_requests ac' = (if src = FromRequests then tl (ac_requests ac) else ac_requests ac)
     \<and> ac_closes ac' = (if src = FromCloses then tl (ac_closes ac) else ac_closes ac)
     \<and> ac_requests_done ac' = (src = RequestsEnded \<or> ac_requests_done ac)
     \<and> ac_closes_done ac' = (src = ClosesEnded \<or> ac_closes_done ac)"
  using assms
  by (cases src)
    (auto simp: pump_turn_def same_channels_def
      dest!: begin_channels wrote_channels inbound_channels tick_channels)

lemma channels_head [simp]: "channels_ok (pump_head ac) = channels_ok ac"
  by (simp add: channels_ok_def pump_head_def)

lemma actor_life_channels: "actor_life n ts t heard ac iss evs r \<Longrightarrow> channels_ok ac"
proof (induction rule: actor_life.induct)
  case (actor_spawn t)
  then show ?case by (simp add: channels_ok_def actor_new_def)
next
  case (actor_submit t heard ac iss evs d)
  then show ?case by (simp add: channels_ok_def)
next
  case (actor_close t heard ac iss evs d)
  then show ?case by (simp add: channels_ok_def)
next
  case (actor_turn t heard ac iss evs now src gone ac' ev r)
  then have "channels_ok (pump_head ac)" by simp
  then show ?case
    using pump_turn_channels [OF actor_turn.hyps(5)] actor_turn.hyps(4)
    by (auto simp: channels_ok_def source_ready_def)
qed

text \<open>
  C35. Closes go first, and starve nobody.  Whenever there is capacity, a waiting close is ready to
  be taken before a waiting request until eight closes have been taken in a row over its head, and
  then the request is the one ready; whichever channel has something, one of them is ready, so
  capacity is never left idle.  A close taken lengthens the run by one, a request taken ends it.
\<close>

theorem close_fairness:
  assumes "actor_life n ts t heard ac iss evs None"
  shows "(can_admit (pump_head ac) \<and> ac_requests ac \<noteq> [] \<longrightarrow>
            (source_ready now (pump_head ac) FromRequests \<longleftrightarrow>
               ac_closes ac = [] \<or> ac_consecutive_closes (pump_head ac) = 8)
          \<and> (source_ready now (pump_head ac) FromCloses \<longleftrightarrow>
               ac_closes ac \<noteq> [] \<and> ac_consecutive_closes (pump_head ac) < 8))
     \<and> (can_admit (pump_head ac) \<and> ac_requests ac = [] \<and> ac_closes ac \<noteq> [] \<longrightarrow>
          source_ready now (pump_head ac) FromCloses)
     \<and> ac_consecutive_closes (pump_head ac) \<le> 8
     \<and> (\<forall>gone src ac' ev r. pump_turn gone now src (pump_head ac) = (ac', ev, r) \<longrightarrow>
          ac_consecutive_closes ac' =
            (case src of FromCloses \<Rightarrow> ac_consecutive_closes (pump_head ac) + 1 | FromRequests \<Rightarrow> 0
               | _ \<Rightarrow> ac_consecutive_closes (pump_head ac)))"
proof -
  have inv: "actor_inv (pump_head ac)" using actor_life_inv [OF assms] pump_head_inv by simp
  have ch: "channels_ok (pump_head ac)" using actor_life_channels [OF assms] by simp
  have le: "ac_consecutive_closes (pump_head ac) \<le> 8"
    using inv by (simp add: actor_inv_def CLOSE_RUN_def)
  have run0: "ac_consecutive_closes (pump_head ac) = 0" if "ac_requests ac = [] \<or> ac_closes ac = []"
    using that by (simp add: pump_head_def)
  have a: "source_ready now (pump_head ac) FromRequests \<longleftrightarrow>
      ac_closes ac = [] \<or> ac_consecutive_closes (pump_head ac) = 8"
    "source_ready now (pump_head ac) FromCloses \<longleftrightarrow>
      ac_closes ac \<noteq> [] \<and> ac_consecutive_closes (pump_head ac) < 8"
    if "can_admit (pump_head ac)" "ac_requests ac \<noteq> []"
    using that ch le
    by (auto simp: source_ready_def take_request_def take_close_def channels_ok_def CLOSE_RUN_def)
  have b: "source_ready now (pump_head ac) FromCloses"
    if "can_admit (pump_head ac)" "ac_requests ac = []" "ac_closes ac \<noteq> []"
    using that ch run0 by (auto simp: source_ready_def take_close_def channels_ok_def CLOSE_RUN_def)
  show ?thesis using a b le pump_turn_channels by blast
qed

section \<open>A connection at work\<close>

text \<open>One echo submitted at instant 0, written at instant 1 and never answered.\<close>

definition demo_negotiated :: negotiated where
  "demo_negotiated = \<lparr>max_mpx_count = 50, max_buffer_size = 65535, capabilities = 0\<rparr>"

definition demo_timeouts :: timeouts where
  "demo_timeouts = \<lparr>per_request = 30, overall = 300\<rparr>"

definition demo_dispatch :: dispatch_msg where
  "demo_dispatch = \<lparr>dp_request = request_new CMD_ECHO 0 0 [0, 0, 0], dp_reply = Some 7\<rparr>"

definition demo_frame :: bytes where
  "demo_frame = [0, 0, 0, 35] @ write_header (header_request CMD_ECHO) @ [0, 0, 0]"

definition demo_submitted :: actor where
  "demo_submitted = (actor_new demo_negotiated demo_timeouts)\<lparr>ac_requests := [demo_dispatch]\<rparr>"

definition demo_begun :: actor where
  "demo_begun = (actor_new demo_negotiated demo_timeouts)
     \<lparr>ac_table := (table_new 50 demo_timeouts)\<lparr>tb_cursor := 1\<rparr>,
      ac_writing := Some \<lparr>wt_frame = demo_frame, wt_cursor = 0,
        wt_queued = Some \<lparr>qd_mid = 0, qd_command = CMD_ECHO, qd_reply = Some 7, qd_assembly = None,
                          qd_outcome = None\<rparr>\<rparr>\<rparr>"

definition demo_sent :: actor where
  "demo_sent = demo_begun
     \<lparr>ac_table := dispatch 0 CMD_ECHO (Some 7) None None 1 (ac_table demo_begun),
      ac_writing := None, ac_waiting_since := Some 1\<rparr>"

lemmas demo_defs = demo_negotiated_def demo_timeouts_def demo_dispatch_def demo_submitted_def

lemma demo_allocate:
  "allocate (table_new 50 demo_timeouts) = (Some 0, (table_new 50 demo_timeouts)\<lparr>tb_cursor := 1\<rparr>)"
proof -
  have "probe POOL [] 0 = probe (Suc 65534) [] 0" by (simp add: POOL_def)
  also have "\<dots> = (Some 0, 1)"
    unfolding probe.simps(2) by (simp add: next_cursor_def LAST_MID_def)
  finally show ?thesis by (simp add: allocate_def table_new_def) (simp add: POOL_def)
qed

lemma demo_limit: "admission_limit demo_negotiated = 50"
  by (simp add: admission_limit_def demo_negotiated_def ADMISSION_CEILING_def)

lemma demo_head: "pump_head demo_submitted = demo_submitted"
  by (simp add: pump_head_def demo_submitted_def actor_new_def)

lemma demo_framed: "rbind (message_of (header_request CMD_ECHO) [0, 0, 0]) frame = Inr demo_frame"
proof -
  have len: "length (write_header (header_request CMD_ECHO) @ [0, 0, 0]) = 35" by code_simp
  show ?thesis
    unfolding message_of_def rbind_simps frame_def len demo_frame_def
    by (simp add: encode_header_def MAX_MESSAGE_LEN_def TYPE_SESSION_MESSAGE_def)
qed

lemma demo_begin:
  "pump_turn (\<lambda>_. False) 0 FromRequests demo_submitted = (demo_begun, [], None)"
proof -
  have "(header_request CMD_ECHO)\<lparr>h_mid := 0, h_tid := 0, h_uid := 0\<rparr> = header_request CMD_ECHO"
    by (simp add: header_request_def)
  then show ?thesis
    using demo_allocate demo_framed demo_limit
    by (simp add: pump_turn_def begin_request_def demo_submitted_def demo_begun_def demo_dispatch_def
        actor_new_def request_new_def Let_def CMD_ECHO_def CMD_TRANSACTION_def CMD_TRANSACTION2_def)
qed

lemma demo_frame_length: "length demo_frame = 39"
  by code_simp

lemma demo_wrote: "pump_turn (\<lambda>_. False) 1 (Written 39) demo_begun = (demo_sent, [], None)"
  using demo_frame_length
  by (simp add: pump_turn_def wrote_def demo_begun_def demo_sent_def Let_def note_waiting_def
      dispatch_def table_new_def actor_new_def)

lemma demo_life_sent: "actor_life demo_negotiated demo_timeouts 1 0 demo_sent {#7#} [] None"
proof -
  let ?n = demo_negotiated and ?ts = demo_timeouts
  have "actor_life ?n ?ts 0 0 ((actor_new ?n ?ts)\<lparr>ac_requests := ac_requests (actor_new ?n ?ts) @ [demo_dispatch]\<rparr>)
      {#} [] None"
    by (rule actor_submit [OF actor_spawn]) (simp_all add: actor_new_def demo_limit)
  then have a: "actor_life ?n ?ts 0 0 demo_submitted {#} [] None"
    by (simp add: demo_submitted_def actor_new_def)
  have b: "actor_life ?n ?ts 0 0 demo_begun {#7#} [] None"
    using actor_turn [OF a, of 0 FromRequests "\<lambda>_. False" demo_begun "[]" None] demo_begin
    by (simp add: demo_head delivers_def taken_on_def source_ready_def take_request_def can_admit_def
        pump_done_def demo_limit)
      (simp add: demo_submitted_def demo_dispatch_def actor_new_def table_new_def demo_limit)
  have h: "pump_head demo_begun = demo_begun"
    by (simp add: pump_head_def demo_begun_def actor_new_def)
  have "ac_writing demo_begun \<noteq> None" by (simp add: demo_begun_def)
  moreover have "source_ready 1 demo_begun (Written 39)"
    using demo_frame_length by (simp add: source_ready_def demo_begun_def)
  ultimately show ?thesis
    using actor_turn [OF b, of 1 "Written 39" "\<lambda>_. False" demo_sent "[]" None] demo_wrote
    by (simp add: h delivers_def taken_on_def pump_done_def)
qed

lemma demo_silent:
  "pump_turn (\<lambda>_. False) 301 Timer (pump_head demo_sent) = (pump_head demo_sent, [], Some (Failed Silent))"
  by (simp add: pump_turn_def tick_def silent_for_def)
    (simp add: demo_sent_def demo_begun_def actor_new_def demo_timeouts_def)

lemma demo_life_silent:
  "actor_life demo_negotiated demo_timeouts 301 0 (pump_head demo_sent) {#7#} [] (Some (Failed Silent))"
proof -
  have "source_ready 301 (pump_head demo_sent) Timer"
    by (simp add: source_ready_def next_wake_def Let_def next_expiry_def)
      (simp add: demo_sent_def demo_begun_def actor_new_def demo_timeouts_def dispatch_def table_new_def
        bt_insert_def Let_def)
  moreover have "\<not> pump_done (pump_head demo_sent)"
    by (simp add: pump_done_def demo_sent_def dispatch_def Let_def)
  ultimately show ?thesis
    using actor_turn [OF demo_life_sent, of 301 Timer "\<lambda>_. False"] demo_silent
    by (simp add: delivers_def taken_on_def)
qed

theorem admission_respected_witness:
  "tb_charging (ac_table demo_sent) + (if unsent demo_sent = None then 0 else 1) \<le> 50"
  using admission_respected [OF demo_life_sent] demo_limit by simp



theorem close_fairness_witness:
  "source_ready 0 (pump_head demo_submitted) FromRequests \<and> \<not> source_ready 0 (pump_head demo_submitted) FromCloses"
proof -
  have "actor_life demo_negotiated demo_timeouts 0 0
      ((actor_new demo_negotiated demo_timeouts)
        \<lparr>ac_requests := ac_requests (actor_new demo_negotiated demo_timeouts) @ [demo_dispatch]\<rparr>) {#} [] None"
    by (rule actor_submit [OF actor_spawn]) (simp_all add: actor_new_def demo_limit)
  then have life: "actor_life demo_negotiated demo_timeouts 0 0 demo_submitted {#} [] None"
    by (simp add: demo_submitted_def actor_new_def)
  have "can_admit (pump_head demo_submitted)" "ac_requests demo_submitted \<noteq> []" "ac_closes demo_submitted = []"
    unfolding demo_head
    by (simp_all add: can_admit_def demo_submitted_def actor_new_def table_new_def demo_limit)
  then show ?thesis using close_fairness [OF life, of 0] by blast
qed

end
