(* ===== verification/Ndr.thy ===== *)
theory Ndr
  imports Unicode "HOL-Library.Sublist"
begin

text \<open>
  The NDR32 marshalling of share enumeration (\<open>rpc/ndr.rs\<close>): a cursor that aligns every
  field to four bytes, and the writer that puts the same padding in.  A failed reader is dropped by
  its callers, so an error is returned alone.  A \<open>usize\<close> is 64 bits wide, so twice a 32-bit
  count never saturates.
\<close>

definition ALIGN :: nat where "ALIGN = 4"

datatype ndr_error =
    NdrTruncated string nat nat nat
    \<comment> \<open>field, offset, needed, length\<close>
  | InconsistentString nat u32 u32 u32
    \<comment> \<open>offset, maximum, first, actual\<close>
  | InvalidUtf16 nat

section \<open>The reader\<close>

record stub_reader =
  rd_stub :: bytes
  rd_at :: nat

definition stub_reader_new :: "bytes \<Rightarrow> stub_reader" where
  "stub_reader_new stub = \<lparr>rd_stub = stub, rd_at = 0\<rparr>"

definition stub_align :: "stub_reader \<Rightarrow> stub_reader" where
  "stub_align r = r\<lparr>rd_at := next_multiple_of (rd_at r) ALIGN\<rparr>"

definition stub_take :: "string \<Rightarrow> nat \<Rightarrow> stub_reader \<Rightarrow> ndr_error + bytes \<times> stub_reader" where
  "stub_take field n r =
     (case slice_at (rd_stub r) (rd_at r) n of
        None \<Rightarrow> Inl (NdrTruncated field (rd_at r) n (length (rd_stub r)))
      | Some raw \<Rightarrow> Inr (raw, r\<lparr>rd_at := rd_at r + n\<rparr>))"

definition stub_u32 :: "string \<Rightarrow> stub_reader \<Rightarrow> ndr_error + u32 \<times> stub_reader" where
  "stub_u32 field r =
     rbind (stub_take field 4 (stub_align r)) (\<lambda>(raw, r).
     Inr (u32_le (raw ! 0) (raw ! 1) (raw ! 2) (raw ! 3), r))"

definition is_null_pointer :: "string \<Rightarrow> stub_reader \<Rightarrow> ndr_error + bool \<times> stub_reader" where
  "is_null_pointer field r = rbind (stub_u32 field r) (\<lambda>(v, r). Inr (v = 0, r))"

text \<open>\<open>units.strip_suffix(&[0]).unwrap_or(&units)\<close>.\<close>

definition strip_nul :: "u16 list \<Rightarrow> u16 list" where
  "strip_nul units = (if units \<noteq> [] \<and> last units = 0 then butlast units else units)"

definition stub_string :: "string \<Rightarrow> stub_reader \<Rightarrow> ndr_error + rstr \<times> stub_reader" where
  "stub_string field r =
     (let counts_at = next_multiple_of (rd_at r) ALIGN in
      rbind (stub_u32 field r) (\<lambda>(maximum, r).
      rbind (stub_u32 field r) (\<lambda>(first, r).
      rbind (stub_u32 field r) (\<lambda>(actual, r).
      if first \<noteq> 0 \<or> maximum < actual then Inl (InconsistentString counts_at maximum first actual)
      else
        (let characters_at = rd_at r in
         rbind (stub_take field (2 * unat actual) r) (\<lambda>(bs, r).
         case decode_utf16 (strip_nul (le_units bs)) of
           None \<Rightarrow> Inl (InvalidUtf16 characters_at)
         | Some text \<Rightarrow> Inr (text, r)))))))"

section \<open>The writer\<close>

definition writer_align :: "bytes \<Rightarrow> bytes" where
  "writer_align stub = resize (next_multiple_of (length stub) ALIGN) 0 stub"

definition writer_u32 :: "u32 \<Rightarrow> bytes \<Rightarrow> bytes" where
  "writer_u32 v stub = writer_align stub @ le32 v"

definition writer_string :: "rstr \<Rightarrow> bytes \<Rightarrow> bytes" where
  "writer_string text stub =
     (let units = encode_utf16 text @ [0]; count = of_nat (length units) in
      writer_align
        (writer_u32 count (writer_u32 0 (writer_u32 count stub)) @ units_le units))"

section \<open>Alignment\<close>

lemma writer_align_prefix: "\<exists>pad. writer_align s = s @ pad"
  using next_multiple_of_ge [of "length s" 4] by (simp add: writer_align_def ALIGN_def resize_def)

lemma length_writer_align [simp]: "length (writer_align s) = next_multiple_of (length s) ALIGN"
  by (simp add: writer_align_def)

lemma length_writer_u32 [simp]: "length (writer_u32 v s) = next_multiple_of (length s) ALIGN + 4"
  by (simp add: writer_u32_def)

lemma aligned_writer_u32: "next_multiple_of (length (writer_u32 v s)) ALIGN = length (writer_u32 v s)"
  using next_multiple_of_dvd [of 4 "length s"] by (simp add: ALIGN_def next_multiple_of_idem)

lemma aligned_writer_string:
  "next_multiple_of (length (writer_string t s)) ALIGN = length (writer_string t s)"
  by (simp add: writer_string_def Let_def ALIGN_def next_multiple_of_idem next_multiple_of_dvd)

section \<open>Reading back what was written\<close>

text \<open>
  \<open>located w s r\<close>: a reader over the whole stub \<open>w\<close> that has consumed its prefix
  \<open>s\<close>, but perhaps for the prefix's trailing padding.
\<close>

definition located :: "bytes \<Rightarrow> bytes \<Rightarrow> stub_reader \<Rightarrow> bool" where
  "located w s r \<longleftrightarrow>
     rd_stub r = w \<and> next_multiple_of (rd_at r) ALIGN = next_multiple_of (length s) ALIGN"

lemma located_new: "located w [] (stub_reader_new w)"
  by (simp add: located_def stub_reader_new_def)

lemma stub_take_at:
  "rd_stub r = xs @ ys @ zs \<Longrightarrow> rd_at r = length xs \<Longrightarrow> length ys = n \<Longrightarrow>
   stub_take field n r = Inr (ys, r\<lparr>rd_at := rd_at r + n\<rparr>)"
  by (simp add: stub_take_def slice_at_append)

lemma writer_u32_prefix: "\<exists>p. writer_u32 v s = s @ p"
  using writer_align_prefix [of s] by (auto simp: writer_u32_def)

lemma writer_string_prefix: "\<exists>p. writer_string t s = s @ p"
proof -
  let ?us = "encode_utf16 t @ [0]" and ?n = "of_nat (length (encode_utf16 t @ [0])) :: u32"
  obtain a where a: "writer_u32 ?n s = s @ a" using writer_u32_prefix by blast
  obtain b where b: "writer_u32 0 (s @ a) = s @ a @ b" using writer_u32_prefix [of 0 "s @ a"] by auto
  obtain c where c: "writer_u32 ?n (s @ a @ b) = s @ a @ b @ c"
    using writer_u32_prefix [of ?n "s @ a @ b"] by auto
  show ?thesis
    using writer_align_prefix [of "s @ a @ b @ c @ units_le ?us"]
    by (auto simp only: writer_string_def Let_def a b c append.assoc)
qed

lemma stub_u32_back:
  assumes "rd_stub r = writer_u32 v s @ rest"
    and "next_multiple_of (rd_at r) ALIGN = next_multiple_of (length s) ALIGN"
  shows "stub_u32 field r = Inr (v, r\<lparr>rd_at := length (writer_u32 v s)\<rparr>)"
proof -
  have "stub_take field 4 (stub_align r) = Inr (le32 v, r\<lparr>rd_at := length (writer_u32 v s)\<rparr>)"
    using assms by (subst stub_take_at [of _ "writer_align s" "le32 v" rest])
      (simp_all add: stub_align_def writer_u32_def)
  then show ?thesis
    by (simp add: stub_u32_def le32_def u32_le_le32)
qed

lemma strip_nul_terminated: "strip_nul (us @ [0]) = us"
  by (simp add: strip_nul_def)

lemma stub_string_back:
  assumes "rd_stub r = writer_string t s @ rest"
    and "next_multiple_of (rd_at r) ALIGN = next_multiple_of (length s) ALIGN"
    and "valid_str t" "length (encode_utf16 t) + 1 < 2 ^ 32"
  shows "\<exists>at. stub_string field r = Inr (t, r\<lparr>rd_at := at\<rparr>) \<and>
              next_multiple_of at ALIGN = length (writer_string t s)"
proof -
  define us where "us = encode_utf16 t @ [0]"
  define n :: u32 where "n = of_nat (length us)"
  define s1 where "s1 = writer_u32 n s"
  define s2 where "s2 = writer_u32 0 s1"
  define s3 where "s3 = writer_u32 n s2"
  define a where "a = length s3 + 2 * length us"
  obtain pad where pad: "writer_string t s = s3 @ units_le us @ pad"
    using writer_align_prefix [of "s3 @ units_le us"]
    by (auto simp: writer_string_def Let_def us_def n_def s1_def s2_def s3_def)
  obtain p1 p2 where p: "s2 = s1 @ p1" "s3 = s2 @ p2"
    using writer_u32_prefix s2_def s3_def by metis
  have u1: "stub_u32 field r = Inr (n, r\<lparr>rd_at := length s1\<rparr>)"
    unfolding s1_def by (rule stub_u32_back) (use assms(1,2) pad p s1_def in auto)
  have u2: "stub_u32 field (r\<lparr>rd_at := length s1\<rparr>) = Inr (0, r\<lparr>rd_at := length s2\<rparr>)"
    using stub_u32_back [of "r\<lparr>rd_at := length s1\<rparr>" 0 s1 "p2 @ units_le us @ pad @ rest" field]
      assms(1) pad p(2) by (simp add: s2_def)
  have u3: "stub_u32 field (r\<lparr>rd_at := length s2\<rparr>) = Inr (n, r\<lparr>rd_at := length s3\<rparr>)"
    using stub_u32_back [of "r\<lparr>rd_at := length s2\<rparr>" n s2 "units_le us @ pad @ rest" field]
      assms(1) pad by (simp add: s3_def)
  have un: "unat n = length us"
    unfolding n_def by (subst unat_of_nat) (use assms(4) in \<open>simp add: us_def\<close>)
  have tk: "stub_take field (2 * unat n) (r\<lparr>rd_at := length s3\<rparr>) = Inr (units_le us, r\<lparr>rd_at := a\<rparr>)"
    using stub_take_at [of "r\<lparr>rd_at := length s3\<rparr>" s3 "units_le us" "pad @ rest" "2 * unat n" field]
      assms(1) pad un by (simp add: a_def)
  have "stub_string field r = Inr (t, r\<lparr>rd_at := a\<rparr>)"
    using tk assms(3)
    by (simp add: stub_string_def u1 u2 u3 Let_def strip_nul_terminated us_def decode_encode_utf16)
  moreover have "next_multiple_of a ALIGN = length (writer_string t s)"
    by (simp add: a_def writer_string_def Let_def us_def n_def s1_def s2_def s3_def)
  ultimately show ?thesis by blast
qed

lemma prefix_writer: "prefix s (writer_u32 v s)" "prefix s (writer_string t s)"
  using writer_u32_prefix [of v s] writer_string_prefix [of t s] by (auto simp: prefix_def)

lemma u32_back:
  assumes "prefix (writer_u32 v s) w" "located w s r"
  shows "\<exists>r'. stub_u32 field r = Inr (v, r') \<and> located w (writer_u32 v s) r'"
proof -
  obtain rest where "w = writer_u32 v s @ rest" using assms(1) by (auto simp: prefix_def)
  then have "stub_u32 field r = Inr (v, r\<lparr>rd_at := length (writer_u32 v s)\<rparr>)"
    using assms(2) by (intro stub_u32_back) (auto simp: located_def)
  then show ?thesis using assms(2) by (simp add: located_def aligned_writer_u32)
qed

lemma pointer_back:
  assumes "prefix (writer_u32 v s) w" "located w s r"
  shows "\<exists>r'. is_null_pointer field r = Inr (v = 0, r') \<and> located w (writer_u32 v s) r'"
  using u32_back [OF assms, of field] by (auto simp: is_null_pointer_def)

lemma string_back:
  assumes "prefix (writer_string t s) w" "located w s r" "valid_str t" "length (encode_utf16 t) + 1 < 2 ^ 32"
  shows "\<exists>r'. stub_string field r = Inr (t, r') \<and> located w (writer_string t s) r'"
proof -
  obtain rest where "w = writer_string t s @ rest" using assms(1) by (auto simp: prefix_def)
  then obtain at where "stub_string field r = Inr (t, r\<lparr>rd_at := at\<rparr>)"
      "next_multiple_of at ALIGN = length (writer_string t s)"
    using assms(2-4) stub_string_back [of r t s rest field] by (auto simp: located_def)
  then show ?thesis using assms(2) by (simp add: located_def aligned_writer_string)
qed

end
