(* ===== verification/Srvsvc.thy ===== *)
theory Srvsvc
  imports Ndr
begin

text \<open>
  Share enumeration over \<open>srvsvc\<close> (\<open>rpc/srvsvc.rs\<close>, and the share types of
  \<open>rpc/mod.rs\<close>): the request stub and the two-pass decoder of the reply.
\<close>

unbundle bit_operations_syntax

section \<open>Shares\<close>

datatype share_service = Disk | PrintQueue | Device | IpcService | OtherService u16

record share_kind =
  sk_service :: share_service
  sk_special :: bool
  sk_temporary :: bool

record share =
  sh_name :: rstr
  sh_kind :: share_kind
  sh_comment :: rstr

definition SRVSVC_SPECIAL :: u32 where "SRVSVC_SPECIAL = 0x80000000"
definition SRVSVC_TEMPORARY :: u32 where "SRVSVC_TEMPORARY = 0x40000000"
definition RAP_SPECIAL :: u16 where "RAP_SPECIAL = 0x8000"
definition RAP_TEMPORARY :: u16 where "RAP_TEMPORARY = 0x4000"

definition from_code :: "u16 \<Rightarrow> share_service" where
  "from_code code =
     (if code = 0 then Disk else if code = 1 then PrintQueue else if code = 2 then Device
      else if code = 3 then IpcService else OtherService code)"

definition from_srvsvc :: "u32 \<Rightarrow> share_kind" where
  "from_srvsvc kind =
     \<lparr>sk_service = from_code (ucast (kind AND NOT (SRVSVC_SPECIAL OR SRVSVC_TEMPORARY))),
      sk_special = kind AND SRVSVC_SPECIAL \<noteq> 0, sk_temporary = kind AND SRVSVC_TEMPORARY \<noteq> 0\<rparr>"

definition from_rap :: "u16 \<Rightarrow> share_kind" where
  "from_rap kind =
     \<lparr>sk_service = from_code (kind AND NOT (RAP_SPECIAL OR RAP_TEMPORARY)),
      sk_special = kind AND RAP_SPECIAL \<noteq> 0, sk_temporary = kind AND RAP_TEMPORARY \<noteq> 0\<rparr>"

section \<open>The request\<close>

definition INTERFACE :: bytes where
  "INTERFACE =
     [0xc8, 0x4f, 0x32, 0x4b, 0x70, 0x16, 0xd3, 0x01, 0x12, 0x78, 0x5a, 0x47, 0xbf, 0x6e, 0xe1, 0x88]"
definition INTERFACE_VERSION :: u32 where "INTERFACE_VERSION = 3"
definition OPNUM :: u16 where "OPNUM = 15"
definition LEVEL :: u32 where "LEVEL = 1"
definition NO_PREFERRED_MAXIMUM :: u32 where "NO_PREFERRED_MAXIMUM = 0xFFFFFFFF"
definition SERVER_NAME_REFERENT :: u32 where "SERVER_NAME_REFERENT = 0x00020000"
definition CONTAINER_REFERENT :: u32 where "CONTAINER_REFERENT = 0x00020004"
definition RESUME_HANDLE_REFERENT :: u32 where "RESUME_HANDLE_REFERENT = 0x00020008"
definition WERR_OK :: u32 where "WERR_OK = 0"
definition SRVSVC_MORE_DATA :: u32 where "SRVSVC_MORE_DATA = 234"

text \<open>\<open>unc\<close>: two backslashes, whatever run of them the name came with.\<close>

definition server_unc :: "rstr \<Rightarrow> rstr" where
  "server_unc server =
     (case server of
        c # rest \<Rightarrow>
          if c = 0x5C then [0x5C, 0x5C] @ dropWhile (\<lambda>d. d = 0x5C) rest
          else [0x5C, 0x5C] @ server
      | [] \<Rightarrow> [0x5C, 0x5C] @ server)"

definition srvsvc_request :: "rstr \<Rightarrow> u32 \<Rightarrow> bytes" where
  "srvsvc_request server resume =
     (writer_u32 resume \<circ> writer_u32 RESUME_HANDLE_REFERENT \<circ> writer_u32 NO_PREFERRED_MAXIMUM
      \<circ> writer_u32 0 \<circ> writer_u32 0 \<circ> writer_u32 CONTAINER_REFERENT
      \<circ> writer_u32 LEVEL \<circ> writer_u32 LEVEL \<circ> writer_string (server_unc server)
      \<circ> writer_u32 SERVER_NAME_REFERENT) []"

section \<open>The reply\<close>

datatype srvsvc_error =
    Ndr ndr_error
  | Level u32
  | LevelMismatch u32 u32
    \<comment> \<open>outer, inner\<close>
  | ArrayTooSmall u32 u32
    \<comment> \<open>entries, maximum\<close>
  | TotalBelowEntries u32 u32
    \<comment> \<open>entries, total\<close>
  | SrvsvcFailed u32

record page =
  pg_shares :: "share list"
  pg_total :: u32
  pg_resume :: u32
  pg_more :: bool

text \<open>The \<open>?\<close> on an \<open>NdrError\<close>.\<close>

definition ndr :: "ndr_error + 'a \<Rightarrow> srvsvc_error + 'a" where
  "ndr m = map_sum Ndr id m"

lemma ndr_simps [simp]: "ndr (Inl e) = Inl (Ndr e)" "ndr (Inr x) = Inr x"
  by (simp_all add: ndr_def)

fun read_structures :: "nat \<Rightarrow> stub_reader \<Rightarrow> srvsvc_error + (bool \<times> share_kind \<times> bool) list \<times> stub_reader" where
  "read_structures 0 r = Inr ([], r)"
| "read_structures (Suc n) r =
     rbind (ndr (is_null_pointer ''share netname pointer'' r)) (\<lambda>(unnamed, r).
     rbind (ndr (stub_u32 ''share type'' r)) (\<lambda>(kind, r).
     rbind (ndr (is_null_pointer ''share remark pointer'' r)) (\<lambda>(uncommented, r).
     rbind (read_structures n r) (\<lambda>(ss, r).
     Inr ((\<not> unnamed, from_srvsvc kind, \<not> uncommented) # ss, r)))))"

definition read_target :: "string \<Rightarrow> bool \<Rightarrow> stub_reader \<Rightarrow> srvsvc_error + rstr \<times> stub_reader" where
  "read_target field present r = (if present then ndr (stub_string field r) else Inr ([], r))"

fun read_shares :: "(bool \<times> share_kind \<times> bool) list \<Rightarrow> stub_reader \<Rightarrow> srvsvc_error + share list \<times> stub_reader" where
  "read_shares [] r = Inr ([], r)"
| "read_shares ((named, kind, commented) # ss) r =
     rbind (read_target ''share netname'' named r) (\<lambda>(name, r).
     rbind (read_target ''share remark'' commented r) (\<lambda>(comment, r).
     rbind (read_shares ss r) (\<lambda>(shares, r).
     Inr (\<lparr>sh_name = name, sh_kind = kind, sh_comment = comment\<rparr> # shares, r))))"

definition share_info_1_array :: "u32 \<Rightarrow> stub_reader \<Rightarrow> srvsvc_error + share list \<times> stub_reader" where
  "share_info_1_array entries r =
     rbind (ndr (stub_u32 ''array conformance'' r)) (\<lambda>(maximum, r).
     if maximum < entries then Inl (ArrayTooSmall entries maximum)
     else rbind (read_structures (unat entries) r) (\<lambda>(ss, r). read_shares ss r))"

text \<open>The container: its entry count and its shares, both absent behind a null pointer.\<close>

definition read_container :: "stub_reader \<Rightarrow> srvsvc_error + (u32 \<times> share list) \<times> stub_reader" where
  "read_container r =
     rbind (ndr (is_null_pointer ''ShareInfo1 container'' r)) (\<lambda>(none, r).
     if none then Inr ((0, []), r)
     else
       rbind (ndr (stub_u32 ''EntriesRead'' r)) (\<lambda>(entries, r).
       rbind (ndr (is_null_pointer ''container Buffer'' r)) (\<lambda>(empty, r).
       if empty then Inr ((entries, []), r)
       else rbind (share_info_1_array entries r) (\<lambda>(shares, r). Inr ((entries, shares), r)))))"

definition read_resume :: "stub_reader \<Rightarrow> srvsvc_error + u32 \<times> stub_reader" where
  "read_resume r =
     rbind (ndr (is_null_pointer ''ResumeHandle'' r)) (\<lambda>(none, r).
     if none then Inr (0, r) else ndr (stub_u32 ''ResumeHandle'' r))"

definition srvsvc_response :: "bytes \<Rightarrow> srvsvc_error + page" where
  "srvsvc_response stub =
     rbind (ndr (stub_u32 ''Level'' (stub_reader_new stub))) (\<lambda>(outer, r).
     if outer \<noteq> LEVEL then Inl (Level outer)
     else
       rbind (ndr (stub_u32 ''InfoStruct.Level'' r)) (\<lambda>(inner, r).
       if inner \<noteq> outer then Inl (LevelMismatch outer inner)
       else
         rbind (read_container r) (\<lambda>((entries, shares), r).
         rbind (ndr (stub_u32 ''TotalEntries'' r)) (\<lambda>(total, r).
         if total < entries then Inl (TotalBelowEntries entries total)
         else
           rbind (read_resume r) (\<lambda>(resume, r).
           rbind (ndr (stub_u32 ''return value'' r)) (\<lambda>(code, r).
           if code = WERR_OK then
             Inr \<lparr>pg_shares = shares, pg_total = total, pg_resume = resume, pg_more = False\<rparr>
           else if code = SRVSVC_MORE_DATA then
             Inr \<lparr>pg_shares = shares, pg_total = total, pg_resume = resume, pg_more = True\<rparr>
           else Inl (SrvsvcFailed code)))))))"

section \<open>A reply decodes to what the server wrote\<close>

text \<open>
  The stub a server marshals, of entries given by name, type code and comment: every structure first,
  then every string, in order.  Referents are any non-null value.
\<close>

type_synonym share_info = "rstr \<times> u32 \<times> rstr"

definition write_structure :: "u32 \<Rightarrow> share_info \<Rightarrow> bytes \<Rightarrow> bytes" where
  "write_structure ref info s = (case info of (n, k, c) \<Rightarrow> writer_u32 ref (writer_u32 k (writer_u32 ref s)))"

definition write_strings :: "share_info \<Rightarrow> bytes \<Rightarrow> bytes" where
  "write_strings info s = (case info of (n, k, c) \<Rightarrow> writer_string c (writer_string n s))"

definition reply_stub :: "u32 \<Rightarrow> u32 \<Rightarrow> share_info list \<Rightarrow> u32 \<Rightarrow> u32 \<Rightarrow> u32 \<Rightarrow> bytes" where
  "reply_stub ref maximum infos tot resume code =
     (let s = (writer_u32 maximum \<circ> writer_u32 ref \<circ> writer_u32 (of_nat (length infos)) \<circ> writer_u32 ref
               \<circ> writer_u32 LEVEL \<circ> writer_u32 LEVEL) [];
          s = fold write_strings infos (fold (write_structure ref) infos s) in
      (writer_u32 code \<circ> writer_u32 resume \<circ> writer_u32 ref \<circ> writer_u32 tot) s)"

definition share_of :: "share_info \<Rightarrow> share" where
  "share_of info = (case info of (n, k, c) \<Rightarrow> \<lparr>sh_name = n, sh_kind = from_srvsvc k, sh_comment = c\<rparr>)"

definition info_ok :: "share_info \<Rightarrow> bool" where
  "info_ok info = (case info of (n, k, c) \<Rightarrow>
     valid_str n \<and> valid_str c \<and> length (encode_utf16 n) + 1 < 2 ^ 32 \<and> length (encode_utf16 c) + 1 < 2 ^ 32)"

lemma prefix_fold: "(\<And>x t. prefix t (f x t)) \<Longrightarrow> prefix s (fold f xs s)"
  by (induction xs arbitrary: s) (auto intro: prefix_order.trans)

lemma write_structure_tuple:
  "write_structure ref (n, k, c) s = writer_u32 ref (writer_u32 k (writer_u32 ref s))"
  by (simp add: write_structure_def)

lemma write_strings_tuple: "write_strings (n, k, c) s = writer_string c (writer_string n s)"
  by (simp add: write_strings_def)

lemma prefix_down:
  "prefix (writer_u32 v s) w \<Longrightarrow> prefix s w" "prefix (writer_string t s) w \<Longrightarrow> prefix s w"
  using prefix_writer prefix_order.trans by blast+

lemma prefix_structure: "prefix s (write_structure ref info s)"
proof (cases info)
  case (fields n k c)
  have "prefix s (writer_u32 ref (writer_u32 k (writer_u32 ref s)))"
    by (rule prefix_down(1) [OF prefix_down(1) [OF prefix_writer(1)]])
  then show ?thesis by (simp add: fields write_structure_tuple)
qed

lemma prefix_strings: "prefix s (write_strings info s)"
proof (cases info)
  case (fields n k c)
  have "prefix s (writer_string c (writer_string n s))"
    by (rule prefix_down(2) [OF prefix_writer(2)])
  then show ?thesis by (simp add: fields write_strings_tuple)
qed

lemma prefix_fold_down:
  "prefix (fold (write_structure ref) infos s) w \<Longrightarrow> prefix s w"
  "prefix (fold write_strings infos s) w \<Longrightarrow> prefix s w"
  using prefix_fold [of "write_structure ref", OF prefix_structure] prefix_order.trans
    prefix_fold [of write_strings, OF prefix_strings] by blast+

lemma structures_back:
  assumes "ref \<noteq> 0" "prefix (fold (write_structure ref) infos s) w" "located w s r"
  shows "\<exists>r'. read_structures (length infos) r = Inr (map (\<lambda>(n, k, c). (True, from_srvsvc k, True)) infos, r') \<and>
              located w (fold (write_structure ref) infos s) r'"
  using assms(2,3)
proof (induction infos arbitrary: s r)
  case Nil
  then show ?case by simp
next
  case (Cons info infos)
  obtain n k c where info: "info = (n, k, c)" by (cases info)
  let ?s1 = "writer_u32 ref s" let ?s2 = "writer_u32 k ?s1" let ?s3 = "writer_u32 ref ?s2"
  have 3: "prefix ?s3 w"
    using prefix_fold_down(1) [of ref infos ?s3] Cons.prems(1) by (simp add: info write_structure_tuple)
  note 2 = prefix_down(1) [OF 3] and 1 = prefix_down(1) [OF prefix_down(1) [OF 3]]
  obtain r1 where r1: "is_null_pointer ''share netname pointer'' r = Inr (False, r1)" "located w ?s1 r1"
    using pointer_back [OF 1 Cons.prems(2), of "''share netname pointer''"] assms(1) by auto
  obtain r2 where r2: "stub_u32 ''share type'' r1 = Inr (k, r2)" "located w ?s2 r2"
    using u32_back [OF 2 r1(2), of "''share type''"] by auto
  obtain r3 where r3: "is_null_pointer ''share remark pointer'' r2 = Inr (False, r3)" "located w ?s3 r3"
    using pointer_back [OF 3 r2(2), of "''share remark pointer''"] assms(1) by auto
  show ?case
    using Cons.IH [of ?s3 r3] Cons.prems(1) r1 r2 r3 by (auto simp: info write_structure_tuple)
qed

lemma shares_back:
  assumes "list_all info_ok infos" "prefix (fold write_strings infos s) w" "located w s r"
  shows "\<exists>r'. read_shares (map (\<lambda>(n, k, c). (True, from_srvsvc k, True)) infos) r = Inr (map share_of infos, r') \<and>
              located w (fold write_strings infos s) r'"
  using assms
proof (induction infos arbitrary: s r)
  case Nil
  then show ?case by simp
next
  case (Cons info infos)
  obtain n k c where info: "info = (n, k, c)" by (cases info)
  let ?s1 = "writer_string n s" let ?s2 = "writer_string c ?s1"
  have ok: "valid_str n" "valid_str c" "length (encode_utf16 n) + 1 < 2 ^ 32" "length (encode_utf16 c) + 1 < 2 ^ 32"
    using Cons.prems(1) by (simp_all add: info info_ok_def)
  have 2: "prefix ?s2 w"
    using prefix_fold_down(2) [of infos ?s2] Cons.prems(2) by (simp add: info write_strings_tuple)
  obtain r1 where r1: "stub_string ''share netname'' r = Inr (n, r1)" "located w ?s1 r1"
    using string_back [OF prefix_down(2) [OF 2] Cons.prems(3) ok(1,3), of "''share netname''"] by auto
  obtain r2 where r2: "stub_string ''share remark'' r1 = Inr (c, r2)" "located w ?s2 r2"
    using string_back [OF 2 r1(2) ok(2,4), of "''share remark''"] by auto
  show ?case
    using Cons.IH [of ?s2 r2] Cons.prems(1,2) r1 r2
    by (auto simp: info write_strings_tuple read_target_def share_of_def)
qed

lemma container_back:
  assumes "ref \<noteq> 0" "length infos < 2 ^ 32" "length infos \<le> unat maximum" "list_all info_ok infos"
    and "located w s r"
    and "prefix (fold write_strings infos (fold (write_structure ref) infos
           ((writer_u32 maximum \<circ> writer_u32 ref \<circ> writer_u32 (of_nat (length infos)) \<circ> writer_u32 ref) s))) w"
      (is "prefix (fold write_strings infos ?structures) w")
  shows "\<exists>r'. read_container r = Inr ((of_nat (length infos), map share_of infos), r') \<and>
              located w (fold write_strings infos ?structures) r'"
proof -
  let ?n = "of_nat (length infos) :: u32"
  let ?s1 = "writer_u32 ref s" let ?s2 = "writer_u32 ?n ?s1" let ?s3 = "writer_u32 ref ?s2"
  let ?s4 = "writer_u32 maximum ?s3"
  note s5 = prefix_fold_down(2) [OF assms(6)]
  have s4: "prefix ?s4 w" using prefix_fold_down(1) [OF s5] by simp
  note s3 = prefix_down(1) [OF s4]
  note s2 = prefix_down(1) [OF s3]
  note s1 = prefix_down(1) [OF s2]
  have un: "unat ?n = length infos" using assms(2) by (simp add: unat_of_nat)
  obtain r1 where r1: "is_null_pointer ''ShareInfo1 container'' r = Inr (False, r1)" "located w ?s1 r1"
    using pointer_back [OF s1 assms(5), of "''ShareInfo1 container''"] assms(1) by auto
  obtain r2 where r2: "stub_u32 ''EntriesRead'' r1 = Inr (?n, r2)" "located w ?s2 r2"
    using u32_back [OF s2 r1(2), of "''EntriesRead''"] by auto
  obtain r3 where r3: "is_null_pointer ''container Buffer'' r2 = Inr (False, r3)" "located w ?s3 r3"
    using pointer_back [OF s3 r2(2), of "''container Buffer''"] assms(1) by auto
  obtain r4 where r4: "stub_u32 ''array conformance'' r3 = Inr (maximum, r4)" "located w ?s4 r4"
    using u32_back [OF s4 r3(2), of "''array conformance''"] by auto
  obtain r5 where r5: "read_structures (length infos) r4 = Inr (map (\<lambda>(n, k, c). (True, from_srvsvc k, True)) infos, r5)"
      "located w ?structures r5"
    using structures_back [OF assms(1), of infos ?s4 w r4] s5 r4(2) by auto
  have "\<not> maximum < ?n" using assms(3) un by (simp add: word_less_nat_alt)
  then show ?thesis
    using shares_back [OF assms(4,6) r5(2)] r1(1) r2(1) r3(1) r4(1) r5(1)
    by (auto simp: read_container_def share_info_1_array_def un)
qed

text \<open>
  A \<open>NetrShareEnum\<close> reply decodes to the shares the server marshalled: however many entries,
  whatever their names and comments, names of odd length and their padding included, and with the
  total, the resume handle and the more-to-come flag the server gave.
\<close>

theorem srvsvc_reply_roundtrip:
  assumes "ref \<noteq> 0" "length infos < 2 ^ 32" "length infos \<le> unat maximum" "list_all info_ok infos"
    and "length infos \<le> unat tot" "code = WERR_OK \<or> code = SRVSVC_MORE_DATA"
  shows "srvsvc_response (reply_stub ref maximum infos tot resume code) =
           Inr \<lparr>pg_shares = map share_of infos, pg_total = tot, pg_resume = resume,
                pg_more = (code = SRVSVC_MORE_DATA)\<rparr>"
proof -
  define w where "w = reply_stub ref maximum infos tot resume code"
  let ?n = "of_nat (length infos) :: u32"
  let ?s1 = "writer_u32 LEVEL []" let ?s2 = "writer_u32 LEVEL ?s1"
  let ?s3 = "fold write_strings infos (fold (write_structure ref) infos
    ((writer_u32 maximum \<circ> writer_u32 ref \<circ> writer_u32 ?n \<circ> writer_u32 ref) ?s2))"
  let ?s4 = "writer_u32 tot ?s3" let ?s5 = "writer_u32 ref ?s4" let ?s6 = "writer_u32 resume ?s5"
  let ?s7 = "writer_u32 code ?s6"
  have s7: "prefix ?s7 w" by (simp add: w_def reply_stub_def)
  note s6 = prefix_down(1) [OF s7]
  note s5 = prefix_down(1) [OF s6]
  note s4 = prefix_down(1) [OF s5]
  note s3 = prefix_down(1) [OF s4]
  have s2: "prefix ?s2 w"
    using prefix_fold_down(1) [OF prefix_fold_down(2) [OF s3]] prefix_down(1) unfolding comp_def by blast
  note s1 = prefix_down(1) [OF s2]
  have un: "unat ?n = length infos" using assms(2) by (simp add: unat_of_nat)
  obtain r1 where r1: "stub_u32 ''Level'' (stub_reader_new w) = Inr (LEVEL, r1)" "located w ?s1 r1"
    using u32_back [OF s1 located_new, of "''Level''"] by auto
  obtain r2 where r2: "stub_u32 ''InfoStruct.Level'' r1 = Inr (LEVEL, r2)" "located w ?s2 r2"
    using u32_back [OF s2 r1(2), of "''InfoStruct.Level''"] by auto
  obtain r3 where r3: "read_container r2 = Inr ((?n, map share_of infos), r3)" "located w ?s3 r3"
    using container_back [OF assms(1-4) r2(2) s3] by auto
  obtain r4 where r4: "stub_u32 ''TotalEntries'' r3 = Inr (tot, r4)" "located w ?s4 r4"
    using u32_back [OF s4 r3(2), of "''TotalEntries''"] by auto
  obtain r5 where r5: "is_null_pointer ''ResumeHandle'' r4 = Inr (False, r5)" "located w ?s5 r5"
    using pointer_back [OF s5 r4(2), of "''ResumeHandle''"] assms(1) by auto
  obtain r6 where r6: "stub_u32 ''ResumeHandle'' r5 = Inr (resume, r6)" "located w ?s6 r6"
    using u32_back [OF s6 r5(2), of "''ResumeHandle''"] by auto
  obtain r7 where r7: "stub_u32 ''return value'' r6 = Inr (code, r7)"
    using u32_back [OF s7 r6(2), of "''return value''"] by auto
  have "\<not> tot < ?n" using assms(5) un by (simp add: word_less_nat_alt)
  then have "srvsvc_response w = Inr \<lparr>pg_shares = map share_of infos, pg_total = tot, pg_resume = resume,
      pg_more = (code = SRVSVC_MORE_DATA)\<rparr>"
    using assms(6) r1(1) r2(1) r3(1) r4(1) r5(1) r6(1) r7
    by (auto simp: srvsvc_response_def read_resume_def WERR_OK_def SRVSVC_MORE_DATA_def)
  then show ?thesis by (simp only: w_def)
qed

theorem srvsvc_reply_roundtrip_witness:
  "srvsvc_response (reply_stub 0x20000 1 [(lit ''IPC$'', 0x80000003, lit ''Remote'')] 3 7 SRVSVC_MORE_DATA) =
     Inr \<lparr>pg_shares = [share_of (lit ''IPC$'', 0x80000003, lit ''Remote'')], pg_total = 3, pg_resume = 7,
          pg_more = True\<rparr>"
  using srvsvc_reply_roundtrip [of "0x20000" "[(lit ''IPC$'', 0x80000003, lit ''Remote'')]" 1 3 SRVSVC_MORE_DATA 7]
  by (simp add: info_ok_def lit_def utf16_char_def scalar_def)

end
