(* ===== verification/Pdu.thy ===== *)
theory Pdu
  imports Prelude
begin

text \<open>
  DCE/RPC connection-oriented PDUs (\<open>rpc/pdu.rs\<close>): the header, the bind, the call and the
  collector that assembles a reply out of whatever chunks the pipe delivers.  A collector that has
  failed is dropped by its callers, so an error is returned alone.
\<close>

unbundle bit_operations_syntax

definition PDU_HEADER_LEN :: nat where "PDU_HEADER_LEN = 16"
definition REQUEST_PROLOGUE :: nat where "REQUEST_PROLOGUE = 8"
definition RESPONSE_PROLOGUE :: nat where "RESPONSE_PROLOGUE = 8"
definition STUB_CAP :: nat where "STUB_CAP = 8 * 1024 * 1024"
definition MAX_FRAGMENT :: u16 where "MAX_FRAGMENT = 4280"
definition PDU_CAP :: nat where
  "PDU_CAP = STUB_CAP div (unat MAX_FRAGMENT - PDU_HEADER_LEN - RESPONSE_PROLOGUE) + 1"

definition RPC_VERSION :: "u8 \<times> u8" where "RPC_VERSION = (5, 0)"
definition DATA_REPRESENTATION :: bytes where "DATA_REPRESENTATION = [0x10, 0x00, 0x00, 0x00]"

definition PTYPE_REQUEST :: u8 where "PTYPE_REQUEST = 0x00"
definition PTYPE_RESPONSE :: u8 where "PTYPE_RESPONSE = 0x02"
definition PTYPE_FAULT :: u8 where "PTYPE_FAULT = 0x03"
definition PTYPE_BIND :: u8 where "PTYPE_BIND = 0x0B"
definition PTYPE_BIND_ACK :: u8 where "PTYPE_BIND_ACK = 0x0C"
definition PTYPE_BIND_NAK :: u8 where "PTYPE_BIND_NAK = 0x0D"

definition PFC_FIRST_FRAG :: u8 where "PFC_FIRST_FRAG = 0x01"
definition PFC_LAST_FRAG :: u8 where "PFC_LAST_FRAG = 0x02"

definition NDR32 :: bytes where
  "NDR32 = [0x04, 0x5d, 0x88, 0x8a, 0xeb, 0x1c, 0xc9, 0x11, 0x9f, 0xe8, 0x08, 0x00, 0x2b, 0x10, 0x48, 0x60]"
definition NDR32_VERSION :: u32 where "NDR32_VERSION = 2"
definition BIND_TIME_FEATURE_NEGOTIATION :: bytes where
  "BIND_TIME_FEATURE_NEGOTIATION =
     [0x2c, 0x1c, 0xb7, 0x6c, 0x12, 0x98, 0x40, 0x45, 0x03, 0x00, 0x00, 0x00, 0x00, 0x00, 0x00, 0x00]"
definition BIND_TIME_FEATURE_NEGOTIATION_VERSION :: u32 where
  "BIND_TIME_FEATURE_NEGOTIATION_VERSION = 1"
definition INTERFACE_CONTEXT :: u16 where "INTERFACE_CONTEXT = 0"
definition RESULT_ACCEPTANCE :: u16 where "RESULT_ACCEPTANCE = 0"

lemmas ptype_defs =
  PTYPE_REQUEST_def PTYPE_RESPONSE_def PTYPE_FAULT_def PTYPE_BIND_def PTYPE_BIND_ACK_def
  PTYPE_BIND_NAK_def

datatype pdu_error =
    Version u8 u8
  | DataRepresentation bytes
  | FragmentLengthTooSmall u16
  | UnexpectedType u8 u8
    \<comment> \<open>expected, actual\<close>
  | CallId u32 u32
    \<comment> \<open>expected, actual\<close>
  | NotFirstFragment
  | NoLastFragment nat
  | TooManyPdus
  | StubTooLarge
  | PduTruncated string nat nat
    \<comment> \<open>part, needed, length\<close>
  | BindRejected u16
  | ContextRejected u16 u16
    \<comment> \<open>result, reason\<close>
  | NotNdr32
  | Fault u32

section \<open>One PDU\<close>

text \<open>\<open>PduStream::next\<close>: the next whole PDU of what is pending, with the rest.\<close>

definition pdu_next :: "bytes \<Rightarrow> pdu_error + (bytes \<times> bytes) option" where
  "pdu_next pending =
     (if length pending < PDU_HEADER_LEN then Inr None
      else
        (let len = unat (u16_le (pending ! 8) (pending ! 9)) in
         if len < PDU_HEADER_LEN then Inl (FragmentLengthTooSmall (of_nat len))
         else if length pending < len then Inr None
         else Inr (Some (take len pending, drop len pending))))"

record pdu_header =
  ph_ptype :: u8
  ph_flags :: u8
  ph_call_id :: u32

definition pdu_header_parse :: "bytes \<Rightarrow> pdu_error + pdu_header" where
  "pdu_header_parse p =
     (case slice_at p 0 PDU_HEADER_LEN of
        None \<Rightarrow> Inl (PduTruncated ''PDU header'' PDU_HEADER_LEN (length p))
      | Some head \<Rightarrow>
          if (head ! 0, head ! 1) \<noteq> RPC_VERSION then Inl (Version (head ! 0) (head ! 1))
          else if [head ! 4, head ! 5, head ! 6, head ! 7] \<noteq> DATA_REPRESENTATION
          then Inl (DataRepresentation [head ! 4, head ! 5, head ! 6, head ! 7])
          else Inr \<lparr>ph_ptype = head ! 2, ph_flags = head ! 3,
                    ph_call_id = u32_le (head ! 12) (head ! 13) (head ! 14) (head ! 15)\<rparr>)"

text \<open>\<open>pdu\<close>: the length field is the low sixteen bits of the whole PDU's length.\<close>

definition pdu :: "u8 \<Rightarrow> u32 \<Rightarrow> bytes \<Rightarrow> bytes" where
  "pdu ptype call_id bdy =
     [fst RPC_VERSION, snd RPC_VERSION, ptype, PFC_FIRST_FRAG OR PFC_LAST_FRAG]
     @ DATA_REPRESENTATION @ le16 (of_nat (PDU_HEADER_LEN + length bdy)) @ le16 0 @ le32 call_id @ bdy"

definition presentation_context :: "bytes \<Rightarrow> u32 \<Rightarrow> u16 \<times> bytes \<times> u32 \<Rightarrow> bytes" where
  "presentation_context interface version c =
     (case c of (context, syntax, syntax_version) \<Rightarrow>
        le16 context @ [1, 0] @ interface @ le32 version @ syntax @ le32 syntax_version)"

definition bind_pdu :: "bytes \<Rightarrow> u32 \<Rightarrow> bytes" where
  "bind_pdu interface version =
     pdu PTYPE_BIND 0
       (le16 MAX_FRAGMENT @ le16 MAX_FRAGMENT @ le32 0 @ [2, 0, 0, 0]
        @ concat (map (presentation_context interface version)
            [(INTERFACE_CONTEXT, NDR32, NDR32_VERSION),
             (INTERFACE_CONTEXT + 1, BIND_TIME_FEATURE_NEGOTIATION, BIND_TIME_FEATURE_NEGOTIATION_VERSION)]))"

definition pdu_request :: "u32 \<Rightarrow> u16 \<Rightarrow> bytes \<Rightarrow> bytes" where
  "pdu_request call_id opnum stub =
     pdu PTYPE_REQUEST call_id (le32 (of_nat (length stub)) @ le16 INTERFACE_CONTEXT @ le16 opnum @ stub)"

section \<open>The answers\<close>

record answer =
  an_ptype :: u8
  an_payload :: bytes

definition read_u16 :: "bytes \<Rightarrow> nat \<Rightarrow> string \<Rightarrow> pdu_error + u16" where
  "read_u16 bdy at part =
     (case slice_at bdy at 2 of
        Some raw \<Rightarrow> Inr (u16_le (raw ! 0) (raw ! 1))
      | None \<Rightarrow> Inl (PduTruncated part (at + 2) (length bdy)))"

definition bind_ack :: "answer \<Rightarrow> pdu_error + unit" where
  "bind_ack an =
     (if an_ptype an = PTYPE_BIND_NAK then
        Inl (BindRejected (case slice_at (an_payload an) 0 2 of
               Some raw \<Rightarrow> u16_le (raw ! 0) (raw ! 1) | None \<Rightarrow> 0))
      else if an_ptype an \<noteq> PTYPE_BIND_ACK then Inl (UnexpectedType PTYPE_BIND_ACK (an_ptype an))
      else
        (let bdy = an_payload an in
         rbind (read_u16 bdy 8 ''sec_addr_len'') (\<lambda>sal.
         let results_at = next_multiple_of (10 + unat sal) 4 in
         rbind (if results_at < length bdy then Inr (unat (bdy ! results_at))
                else Inl (PduTruncated ''bind_ack results'' (results_at + 1) (length bdy))) (\<lambda>count.
         if count = 0 then Inl (ContextRejected 0 0)
         else
           (let first = results_at + 4 in
            rbind (read_u16 bdy first ''context result'') (\<lambda>result.
            rbind (read_u16 bdy (first + 2) ''context reason'') (\<lambda>reason.
            if result \<noteq> RESULT_ACCEPTANCE then Inl (ContextRejected result reason)
            else
              (case slice_at bdy (first + 4) 16 of
                 None \<Rightarrow> Inl (PduTruncated ''context transfer syntax'' (first + 20) (length bdy))
               | Some syntax \<Rightarrow> if syntax \<noteq> NDR32 then Inl NotNdr32 else Inr ()))))))))"

definition pdu_response :: "answer \<Rightarrow> pdu_error + bytes" where
  "pdu_response an =
     (if an_ptype an \<noteq> PTYPE_RESPONSE then Inl (UnexpectedType PTYPE_RESPONSE (an_ptype an))
      else Inr (an_payload an))"

definition fault_status :: "bytes \<Rightarrow> u32" where
  "fault_status fragment =
     (case slice_at fragment (PDU_HEADER_LEN + 8) 4 of
        Some raw \<Rightarrow> u32_le (raw ! 0) (raw ! 1) (raw ! 2) (raw ! 3)
      | None \<Rightarrow> 0)"

section \<open>The collector\<close>

record collector =
  co_pending :: bytes
  co_call_id :: u32
  co_ptype :: "u8 option"
  co_payload :: bytes
  co_pdus :: nat
  co_complete :: bool

definition collector_new :: "u32 \<Rightarrow> collector" where
  "collector_new call_id =
     \<lparr>co_pending = [], co_call_id = call_id, co_ptype = None, co_payload = [], co_pdus = 0,
      co_complete = False\<rparr>"

definition open_reply :: "pdu_header \<Rightarrow> collector \<Rightarrow> pdu_error + collector" where
  "open_reply h co =
     (case co_ptype co of
        None \<Rightarrow>
          if ph_flags h AND PFC_FIRST_FRAG = 0 then Inl NotFirstFragment
          else Inr (co\<lparr>co_ptype := Some (ph_ptype h)\<rparr>)
      | Some opened \<Rightarrow>
          if opened \<noteq> ph_ptype h then Inl (UnexpectedType opened (ph_ptype h)) else Inr co)"

definition collector_accept :: "bytes \<Rightarrow> collector \<Rightarrow> pdu_error + collector" where
  "collector_accept fragment co =
     (if co_complete co then Inr co
      else
        rbind (pdu_header_parse fragment) (\<lambda>h.
        if ph_call_id h \<noteq> co_call_id co then Inl (CallId (co_call_id co) (ph_call_id h))
        else if ph_ptype h = PTYPE_FAULT then Inl (Fault (fault_status fragment))
        else
          rbind (open_reply h co) (\<lambda>co.
          let co = co\<lparr>co_pdus := co_pdus co + 1\<rparr> in
          if PDU_CAP < co_pdus co then Inl TooManyPdus
          else
            (let prologue = (if ph_ptype h = PTYPE_RESPONSE then RESPONSE_PROLOGUE else 0) in
             if length fragment < PDU_HEADER_LEN + prologue
             then Inl (PduTruncated ''PDU payload'' (PDU_HEADER_LEN + prologue) (length fragment))
             else
               (let payload = drop (PDU_HEADER_LEN + prologue) fragment in
                if STUB_CAP < length (co_payload co) + length payload then Inl StubTooLarge
                else Inr (co\<lparr>co_payload := co_payload co @ payload,
                             co_complete := ph_flags h AND PFC_LAST_FRAG \<noteq> 0\<rparr>))))))"

text \<open>
  The loop of \<open>feed\<close> over what is pending.  Every PDU taken is at least a header long, so the
  pending bytes go down.
\<close>

lemma pdu_next_shrinks:
  "pdu_next pending = Inr (Some (fragment, rest)) \<Longrightarrow> length rest < length pending"
  by (auto simp: pdu_next_def PDU_HEADER_LEN_def Let_def split: if_splits)

lemma collector_accept_pending:
  "collector_accept fragment co = Inr co' \<Longrightarrow> co_pending co' = co_pending co"
  by (auto simp: collector_accept_def open_reply_def rbind_Inr_iff Let_def split: if_splits option.splits)

function collector_drain :: "collector \<Rightarrow> pdu_error + collector" where
  "collector_drain co =
     (case pdu_next (co_pending co) of
        Inl e \<Rightarrow> Inl e
      | Inr None \<Rightarrow> Inr co
      | Inr (Some (fragment, rest)) \<Rightarrow>
          (case collector_accept fragment (co\<lparr>co_pending := rest\<rparr>) of
             Inl e \<Rightarrow> Inl e
           | Inr co' \<Rightarrow> collector_drain co'))"
  by pat_completeness auto

termination
  by (relation "measure (\<lambda>co. length (co_pending co))")
    (auto dest!: pdu_next_shrinks collector_accept_pending)

declare collector_drain.simps [simp del]

definition feed :: "bytes \<Rightarrow> collector \<Rightarrow> pdu_error + collector" where
  "feed bs co = collector_drain (co\<lparr>co_pending := co_pending co @ bs\<rparr>)"

definition collector_finish :: "collector \<Rightarrow> pdu_error + answer" where
  "collector_finish co =
     (case co_ptype co of
        Some ptype \<Rightarrow>
          if co_complete co then Inr \<lparr>an_ptype = ptype, an_payload = co_payload co\<rparr>
          else Inl (NoLastFragment (co_pdus co))
      | None \<Rightarrow> Inl (NoLastFragment (co_pdus co)))"

fun feed_all :: "bytes list \<Rightarrow> collector \<Rightarrow> pdu_error + collector" where
  "feed_all [] co = Inr co"
| "feed_all (c # cs) co = rbind (feed c co) (feed_all cs)"

section \<open>Where the chunks fall does not matter\<close>

lemma pdu_next_append:
  "pdu_next p = Inl e \<Longrightarrow> pdu_next (p @ b) = Inl e"
  "pdu_next p = Inr (Some (f, r)) \<Longrightarrow> pdu_next (p @ b) = Inr (Some (f, r @ b))"
  by (auto simp: pdu_next_def PDU_HEADER_LEN_def Let_def nth_append split: if_splits)

lemma open_reply_frame:
  "open_reply h (co\<lparr>co_pending := x\<rparr>) = map_sum id (\<lambda>c. c\<lparr>co_pending := x\<rparr>) (open_reply h co)"
  by (simp add: open_reply_def split: option.split)

lemma collector_accept_frame:
  "collector_accept f (co\<lparr>co_pending := x\<rparr>) = map_sum id (\<lambda>c. c\<lparr>co_pending := x\<rparr>) (collector_accept f co)"
proof (cases "pdu_header_parse f")
  case (Inl e)
  then show ?thesis by (simp add: collector_accept_def)
next
  case (Inr h)
  show ?thesis
    by (cases "open_reply h co") (simp_all add: collector_accept_def Inr open_reply_frame Let_def)
qed

lemma collector_accept_grows:
  assumes "collector_accept f (co\<lparr>co_pending := r\<rparr>) = Inr c"
  shows "collector_accept f (co\<lparr>co_pending := r @ b\<rparr>) = Inr (c\<lparr>co_pending := co_pending c @ b\<rparr>)"
proof -
  obtain d where "collector_accept f co = Inr d" "c = d\<lparr>co_pending := r\<rparr>"
    using assms by (cases "collector_accept f co") (auto simp: collector_accept_frame)
  then show ?thesis by (simp add: collector_accept_frame)
qed

lemma collector_accept_fails:
  "collector_accept f (co\<lparr>co_pending := r\<rparr>) = Inl e \<longleftrightarrow> collector_accept f co = Inl e"
  by (cases "collector_accept f co") (auto simp: collector_accept_frame)

lemma collector_drain_append:
  "collector_drain (co\<lparr>co_pending := co_pending co @ b\<rparr>) =
     rbind (collector_drain co) (\<lambda>co'. collector_drain (co'\<lparr>co_pending := co_pending co' @ b\<rparr>))"
proof (induction co rule: collector_drain.induct)
  case (1 co)
  let ?more = "co\<lparr>co_pending := co_pending co @ b\<rparr>"
  consider e where "pdu_next (co_pending co) = Inl e" | "pdu_next (co_pending co) = Inr None"
    | f r where "pdu_next (co_pending co) = Inr (Some (f, r))"
    by (metis not_None_eq old.sum.exhaust surj_pair)
  then show ?case
  proof cases
    case 1
    then show ?thesis
      by (simp add: pdu_next_append(1) collector_drain.simps [of co] collector_drain.simps [of ?more])
  next
    case 2
    then show ?thesis by (simp add: collector_drain.simps [of co])
  next
    case 3
    have more: "collector_drain ?more =
        (case collector_accept f (co\<lparr>co_pending := r @ b\<rparr>) of Inl e \<Rightarrow> Inl e | Inr co' \<Rightarrow> collector_drain co')"
      using pdu_next_append(2) [OF 3] by (simp add: collector_drain.simps [of ?more])
    show ?thesis
    proof (cases "collector_accept f (co\<lparr>co_pending := r\<rparr>)")
      case (Inl e)
      then have "collector_accept f (co\<lparr>co_pending := r @ b\<rparr>) = Inl e"
        by (simp only: collector_accept_fails)
      then show ?thesis
        using 3 more Inl by (simp add: collector_drain.simps [of co])
    next
      case (Inr c)
      show ?thesis
        using "1.IH" [OF 3 refl refl Inr] 3 Inr more collector_accept_grows [OF Inr]
        by (simp add: collector_drain.simps [of co])
    qed
  qed
qed

definition drained :: "collector \<Rightarrow> bool" where
  "drained co \<longleftrightarrow> pdu_next (co_pending co) = Inr None"

lemma collector_drain_idle: "drained co \<Longrightarrow> collector_drain co = Inr co"
  by (simp add: drained_def collector_drain.simps [of co])

lemma feed_drained: "feed b co = Inr co' \<Longrightarrow> drained co'"
proof -
  have "collector_drain c = Inr co' \<Longrightarrow> drained co'" for c
  proof (induction c rule: collector_drain.induct)
    case (1 c)
    then show ?case
      by (auto simp: collector_drain.simps [of c] drained_def split: sum.splits option.splits)
  qed
  then show "feed b co = Inr co' \<Longrightarrow> drained co'" by (simp add: feed_def)
qed

lemma feed_append: "feed (a @ b) co = rbind (feed a co) (feed b)"
  using collector_drain_append [of "co\<lparr>co_pending := co_pending co @ a\<rparr>" b]
  by (simp add: feed_def [abs_def] comp_def)

lemma drained_new: "drained (collector_new call_id)"
  by (simp add: drained_def pdu_next_def collector_new_def PDU_HEADER_LEN_def)

lemma feed_all_drained: "drained co \<Longrightarrow> feed_all cs co = feed (concat cs) co"
proof (induction cs arbitrary: co)
  case Nil
  then show ?case by (simp add: feed_def collector_drain_idle)
next
  case (Cons c cs)
  show ?case
    using Cons.IH feed_drained [of c co]
    by (cases "feed c co") (simp_all add: feed_append)
qed

text \<open>
  C30. A reply is collected the same however the pipe cuts it up: feeding chunks one after another
  gives, error or collector, exactly what feeding their concatenation at once gives.
\<close>

theorem feed_any_chunking:
  "feed_all cs (collector_new call_id) = feed (concat cs) (collector_new call_id)"
  by (rule feed_all_drained [OF drained_new])

section \<open>Fragments of a reply\<close>

text \<open>A response fragment the way a server builds it, with an allocation hint and a context.\<close>

definition response_fragment :: "u32 \<Rightarrow> u8 \<Rightarrow> bytes \<Rightarrow> bytes \<Rightarrow> bytes" where
  "response_fragment call_id flags prologue part =
     [fst RPC_VERSION, snd RPC_VERSION, PTYPE_RESPONSE, flags] @ DATA_REPRESENTATION
     @ le16 (of_nat (PDU_HEADER_LEN + length prologue + length part)) @ le16 0 @ le32 call_id @ prologue @ part"

lemma length_fragment [simp]:
  "length (response_fragment i fl pro part) = PDU_HEADER_LEN + length pro + length part"
  by (simp add: response_fragment_def DATA_REPRESENTATION_def PDU_HEADER_LEN_def)

lemma pdu_next_fragment:
  assumes "PDU_HEADER_LEN + length pro + length part < 65536"
  shows "pdu_next (response_fragment i fl pro part @ rest) = Inr (Some (response_fragment i fl pro part, rest))"
proof -
  let ?n = "PDU_HEADER_LEN + length pro + length part"
  let ?w = "of_nat ?n :: u16"
  let ?f = "response_fragment i fl pro part @ rest"
  have "?f ! 8 = ucast ?w" "?f ! 9 = ucast (drop_bit 8 ?w)"
    by (simp_all only: response_fragment_def DATA_REPRESENTATION_def le16_def append.simps nth_Cons_numeral
        numeral_eq_Suc pred_numeral_simps nth_Cons_Suc nth_Cons_0 BitM.simps)
  then have "u16_le (?f ! 8) (?f ! 9) = ?w" by (simp only: u16_le_le16)
  then have "unat (u16_le (?f ! 8) (?f ! 9)) = ?n"
    using assms by (simp only: unat_of_nat) simp
  then show ?thesis by (simp add: pdu_next_def Let_def)
qed

lemma header_fragment:
  "pdu_header_parse (response_fragment i fl pro part) = Inr \<lparr>ph_ptype = PTYPE_RESPONSE, ph_flags = fl, ph_call_id = i\<rparr>"
  by (simp add: pdu_header_parse_def slice_at_def response_fragment_def DATA_REPRESENTATION_def
      PDU_HEADER_LEN_def RPC_VERSION_def le16_def le32_def u32_le_le32 [unfolded le32_def])

lemma accept_fragment:
  assumes "length pro = RESPONSE_PROLOGUE" "\<not> co_complete co" "co_call_id co = i"
    and "co_ptype co = None \<and> fl AND PFC_FIRST_FRAG \<noteq> 0 \<or> co_ptype co = Some PTYPE_RESPONSE"
    and "co_pdus co < PDU_CAP" "length (co_payload co) + length part \<le> STUB_CAP"
  shows "collector_accept (response_fragment i fl pro part) co =
           Inr (co\<lparr>co_ptype := Some PTYPE_RESPONSE, co_pdus := co_pdus co + 1,
                    co_payload := co_payload co @ part, co_complete := fl AND PFC_LAST_FRAG \<noteq> 0\<rparr>)"
proof -
  let ?h = "\<lparr>ph_ptype = PTYPE_RESPONSE, ph_flags = fl, ph_call_id = i\<rparr>"
  have opened: "open_reply ?h co = Inr (co\<lparr>co_ptype := Some PTYPE_RESPONSE\<rparr>)"
    using assms(4) by (auto simp: open_reply_def)
  have "drop (PDU_HEADER_LEN + RESPONSE_PROLOGUE) (response_fragment i fl pro part) = part"
    using assms(1)
    by (simp add: response_fragment_def DATA_REPRESENTATION_def PDU_HEADER_LEN_def RESPONSE_PROLOGUE_def
        le16_def le32_def)
  then show ?thesis
    using assms by (simp add: collector_accept_def header_fragment opened Let_def) (simp add: ptype_defs)
qed

text \<open>The fragments of a whole reply: the first is marked first, the last is marked last.\<close>

fun reply_fragments :: "u32 \<Rightarrow> bytes \<Rightarrow> u8 \<Rightarrow> bytes list \<Rightarrow> bytes" where
  "reply_fragments i pro fl [] = []"
| "reply_fragments i pro fl [part] = response_fragment i (fl OR PFC_LAST_FRAG) pro part"
| "reply_fragments i pro fl (part # parts) =
     response_fragment i fl pro part @ reply_fragments i pro 0 parts"

lemma pfc_flags:
  "(fl OR PFC_LAST_FRAG) AND PFC_LAST_FRAG \<noteq> 0" "PFC_LAST_FRAG \<noteq> 0"
  "fl AND PFC_FIRST_FRAG \<noteq> 0 \<Longrightarrow> (fl OR PFC_LAST_FRAG) AND PFC_FIRST_FRAG \<noteq> 0"
proof -
  have "(fl OR PFC_LAST_FRAG) AND PFC_LAST_FRAG = PFC_LAST_FRAG"
    by (rule bit_word_eqI) (auto simp: bit_simps)
  then show "(fl OR PFC_LAST_FRAG) AND PFC_LAST_FRAG \<noteq> 0" "PFC_LAST_FRAG \<noteq> 0"
    by (simp_all add: PFC_LAST_FRAG_def)
  have "PFC_LAST_FRAG AND PFC_FIRST_FRAG = 0" by (simp add: PFC_LAST_FRAG_def PFC_FIRST_FRAG_def)
  then have "(fl OR PFC_LAST_FRAG) AND PFC_FIRST_FRAG = fl AND PFC_FIRST_FRAG"
    by (simp add: and.commute [of _ PFC_FIRST_FRAG] bit.conj_disj_distrib)
  then show "fl AND PFC_FIRST_FRAG \<noteq> 0 \<Longrightarrow> (fl OR PFC_LAST_FRAG) AND PFC_FIRST_FRAG \<noteq> 0" by simp
qed

lemma drain_step:
  assumes "pdu_next (co_pending co) = Inr (Some (f, r))" "collector_accept f (co\<lparr>co_pending := r\<rparr>) = Inr c"
  shows "collector_drain co = collector_drain c"
  using assms by (simp add: collector_drain.simps [of co])

lemma drain_reply:
  assumes "length pro = RESPONSE_PROLOGUE"
    and "parts \<noteq> []" "\<forall>p\<in>set parts. PDU_HEADER_LEN + RESPONSE_PROLOGUE + length p < 65536"
    and "\<not> co_complete co" "co_call_id co = i" "co_pending co = reply_fragments i pro fl parts"
    and "co_ptype co = None \<and> fl AND PFC_FIRST_FRAG \<noteq> 0 \<or> co_ptype co = Some PTYPE_RESPONSE \<and> fl AND PFC_LAST_FRAG = 0"
    and "fl AND PFC_LAST_FRAG = 0"
    and "co_pdus co + length parts \<le> PDU_CAP" "length (co_payload co) + length (concat parts) \<le> STUB_CAP"
  shows "\<exists>co'. collector_drain co = Inr co' \<and>
           collector_finish co' = Inr \<lparr>an_ptype = PTYPE_RESPONSE, an_payload = co_payload co @ concat parts\<rparr>"
  using assms
proof (induction i pro fl parts arbitrary: co rule: reply_fragments.induct)
  case (2 i pro fl part)
  let ?c = "co\<lparr>co_pending := [], co_ptype := Some PTYPE_RESPONSE, co_pdus := co_pdus co + 1,
                co_payload := co_payload co @ part, co_complete := True\<rparr>"
  have "pdu_next (co_pending co) = Inr (Some (response_fragment i (fl OR PFC_LAST_FRAG) pro part, []))"
    using 2 pdu_next_fragment [of pro part i "fl OR PFC_LAST_FRAG" "[]"] by simp
  moreover have "collector_accept (response_fragment i (fl OR PFC_LAST_FRAG) pro part) (co\<lparr>co_pending := []\<rparr>) = Inr ?c"
    using 2 by (subst accept_fragment) (auto simp: pfc_flags)
  ultimately have "collector_drain co = collector_drain ?c" by (rule drain_step)
  then show ?case
    by (simp add: collector_drain_idle drained_def pdu_next_def PDU_HEADER_LEN_def collector_finish_def)
next
  case (3 i pro fl part q parts)
  let ?r = "reply_fragments i pro 0 (q # parts)"
  let ?c = "co\<lparr>co_pending := ?r, co_ptype := Some PTYPE_RESPONSE, co_pdus := co_pdus co + 1,
                co_payload := co_payload co @ part, co_complete := False\<rparr>"
  have "pdu_next (co_pending co) = Inr (Some (response_fragment i fl pro part, ?r))"
    using 3 by (simp add: pdu_next_fragment)
  moreover have "collector_accept (response_fragment i fl pro part) (co\<lparr>co_pending := ?r\<rparr>) = Inr ?c"
    using 3 by (subst accept_fragment) auto
  ultimately have "collector_drain co = collector_drain ?c" by (rule drain_step)
  moreover have "\<exists>co'. collector_drain ?c = Inr co' \<and>
      collector_finish co' = Inr \<lparr>an_ptype = PTYPE_RESPONSE, an_payload = co_payload ?c @ concat (q # parts)\<rparr>"
    by (rule "3.IH") (use 3 in auto)
  ultimately show ?case by simp
qed simp

text \<open>
  C31. A reply a server split into at most \<open>PDU_CAP\<close> response PDUs of any sizes that fit a PDU, the
  first marked first and the last marked last, is returned whole whatever the chunks the pipe
  delivered it in: the stub is the concatenation of the parts and nothing else.
\<close>

theorem reply_collected:
  assumes "length pro = RESPONSE_PROLOGUE"
    and "parts \<noteq> []" "\<forall>p\<in>set parts. PDU_HEADER_LEN + RESPONSE_PROLOGUE + length p < 65536"
    and "length parts \<le> PDU_CAP" "length (concat parts) \<le> STUB_CAP"
    and "concat chunks = reply_fragments i pro PFC_FIRST_FRAG parts"
  shows "rbind (rbind (feed_all chunks (collector_new i)) collector_finish) pdu_response = Inr (concat parts)"
proof -
  let ?co = "(collector_new i)\<lparr>co_pending := reply_fragments i pro PFC_FIRST_FRAG parts\<rparr>"
  have "\<exists>co'. collector_drain ?co = Inr co' \<and>
      collector_finish co' = Inr \<lparr>an_ptype = PTYPE_RESPONSE, an_payload = co_payload ?co @ concat parts\<rparr>"
    by (rule drain_reply [OF assms(1-3)])
      (use assms(4-5) in \<open>auto simp: collector_new_def PFC_FIRST_FRAG_def PFC_LAST_FRAG_def\<close>)
  then show ?thesis
    using assms(6) feed_all_drained [OF drained_new, of chunks] by (auto simp: feed_def collector_new_def pdu_response_def)
qed

theorem reply_collected_witness:
  "\<exists>chunks. concat chunks = reply_fragments 7 (replicate 8 0) PFC_FIRST_FRAG [[1, 2, 3], [4, 5]] \<and>
     rbind (rbind (feed_all chunks (collector_new 7)) collector_finish) pdu_response = Inr [1, 2, 3, 4, 5]"
proof (intro exI conjI)
  let ?cs = "map (\<lambda>b. [b]) (reply_fragments 7 (replicate 8 0) PFC_FIRST_FRAG [[1, 2, 3], [4, 5]])"
  show "concat ?cs = reply_fragments 7 (replicate 8 0) PFC_FIRST_FRAG [[1, 2, 3], [4, 5]]" by simp
  then show "rbind (rbind (feed_all ?cs (collector_new 7)) collector_finish) pdu_response = Inr [1, 2, 3, 4, 5]"
    using reply_collected [of "replicate 8 0" "[[1, 2, 3], [4, 5]]" ?cs 7]
    by (simp add: RESPONSE_PROLOGUE_def PDU_HEADER_LEN_def PDU_CAP_def STUB_CAP_def MAX_FRAGMENT_def)
qed

section \<open>What a collector may hold\<close>

definition collector_bounded :: "collector \<Rightarrow> bool" where
  "collector_bounded co \<longleftrightarrow>
     length (co_payload co) \<le> STUB_CAP \<and> co_pdus co \<le> PDU_CAP \<and> (co_complete co \<longrightarrow> co_ptype co \<noteq> None)"

lemma accept_bounded:
  "collector_accept f co = Inr co' \<Longrightarrow> collector_bounded co \<Longrightarrow> collector_bounded co'"
  by (auto simp: collector_bounded_def collector_accept_def open_reply_def rbind_Inr_iff Let_def
      split: if_splits option.splits)

lemma drain_bounded: "collector_drain co = Inr co' \<Longrightarrow> collector_bounded co \<Longrightarrow> collector_bounded co'"
proof (induction co rule: collector_drain.induct)
  case (1 co)
  have same: "collector_bounded (co\<lparr>co_pending := r\<rparr>) = collector_bounded co" for r
    by (simp add: collector_bounded_def)
  show ?case
    using 1 accept_bounded
    by (auto simp: collector_drain.simps [of co] same split: sum.splits option.splits)
qed

lemma drained_pending: "drained co \<Longrightarrow> length (co_pending co) < 65536"
proof -
  assume "drained co"
  moreover have "unat (u16_le a b) < 65536" for a b using unsigned_less [of "u16_le a b"] by simp
  ultimately show ?thesis
    by (auto simp: drained_def pdu_next_def PDU_HEADER_LEN_def Let_def split: if_splits)
      (meson less_trans)
qed



text \<open>
  Bytes past the fragment that completed a reply are still split into PDUs: a run that declares a
  length below a header fails the reply that had already arrived whole.
\<close>

lemma trailing_bytes_still_parsed:
  assumes "co_complete co" "co_pending co = []"
  shows "feed (replicate 16 0) co = Inl (FragmentLengthTooSmall 0)"
proof -
  have "pdu_next (replicate 16 0) = Inl (FragmentLengthTooSmall 0)"
    by (simp add: pdu_next_def PDU_HEADER_LEN_def u16_le_def numeral_eq_Suc)
  then show ?thesis using assms(2) by (simp add: feed_def collector_drain.simps)
qed

end
