(* ===== verification/Rap.thy ===== *)
theory Rap
  imports Srvsvc Pdu
begin

text \<open>
  Share enumeration over RAP (\<open>rpc/rap.rs\<close>): the request's parameter block, and the decoder of
  the reply's parameter and data blocks with its converted comment pointers.
\<close>

definition RAP_FUNCTION :: u16 where "RAP_FUNCTION = 0"
definition PARAMETER_DESCRIPTOR :: bytes where
  "PARAMETER_DESCRIPTOR = map of_char ''WrLeh'' @ [0]"
definition DATA_DESCRIPTOR :: bytes where
  "DATA_DESCRIPTOR = map of_char ''B13BWz'' @ [0]"
definition RAP_LEVEL :: u16 where "RAP_LEVEL = 1"
definition PARAMETERS_LEN :: nat where "PARAMETERS_LEN = 8"
definition ENTRY_LEN :: nat where "ENTRY_LEN = 20"
definition NAME_LEN :: nat where "NAME_LEN = 13"
definition RAP_SUCCESS :: u16 where "RAP_SUCCESS = 0"
definition RAP_MORE_DATA :: u16 where "RAP_MORE_DATA = 234"

datatype rap_error =
    ParametersTooShort nat
  | MoreData
  | RapFailed u16
  | TruncatedEntry nat nat nat
    \<comment> \<open>index, needed, length\<close>
  | CommentOutOfRange nat nat nat
    \<comment> \<open>index, offset, length\<close>
  | NotUtf8 nat string
  | ShortOfAvailable u16 u16
    \<comment> \<open>returned, available\<close>

definition rap_parameters :: "u16 \<Rightarrow> bytes" where
  "rap_parameters receive_buffer =
     le16 RAP_FUNCTION @ PARAMETER_DESCRIPTOR @ DATA_DESCRIPTOR @ le16 RAP_LEVEL @ le16 receive_buffer"

text \<open>\<open>nul_padded\<close>, and \<open>position(|b| b == 0)\<close> taking the bytes before the first null.\<close>

definition nul_padded :: "bytes \<Rightarrow> bytes" where
  "nul_padded field = takeWhile (\<lambda>b. b \<noteq> 0) field"

definition rap_text :: "bytes \<Rightarrow> nat \<Rightarrow> string \<Rightarrow> rap_error + rstr" where
  "rap_text bs index field = ok_or (NotUtf8 index field) (from_utf8 bs)"

text \<open>The comment behind a pointer: its low half less the converter word, wrapping.\<close>

definition rap_comment :: "u16 \<Rightarrow> bytes \<Rightarrow> nat \<Rightarrow> u32 \<Rightarrow> rap_error + rstr" where
  "rap_comment converter data index pointer =
     (if pointer = 0 then Inr []
      else
        (let offset = unat (ucast pointer - converter :: u16) in
         if length data < offset then Inl (CommentOutOfRange index offset (length data))
         else
           (let tail = drop offset data in
            if 0 \<notin> set tail then Inl (CommentOutOfRange index offset (length data))
            else rap_text (takeWhile (\<lambda>b. b \<noteq> 0) tail) index ''comment'')))"

definition rap_share :: "u16 \<Rightarrow> bytes \<Rightarrow> nat \<Rightarrow> rap_error + share" where
  "rap_share converter data index =
     (let at = index * ENTRY_LEN in
      rbind (ok_or (TruncatedEntry index (at + ENTRY_LEN) (length data)) (slice_at data at ENTRY_LEN)) (\<lambda>entry.
      let name = nul_padded (take NAME_LEN entry);
          kind = from_rap (u16_le (entry ! 14) (entry ! 15));
          pointer = u32_le (entry ! 16) (entry ! 17) (entry ! 18) (entry ! 19) in
      rbind (rap_comment converter data index pointer) (\<lambda>comment.
      rbind (rap_text name index ''name'') (\<lambda>name.
      Inr \<lparr>sh_name = name, sh_kind = kind, sh_comment = comment\<rparr>))))"

fun rap_loop :: "u16 \<Rightarrow> bytes \<Rightarrow> nat list \<Rightarrow> rap_error + share list" where
  "rap_loop converter data [] = Inr []"
| "rap_loop converter data (index # rest) =
     rbind (rap_share converter data index) (\<lambda>sh.
     rbind (rap_loop converter data rest) (\<lambda>shares. Inr (sh # shares)))"

definition rap_response :: "bytes \<Rightarrow> bytes \<Rightarrow> rap_error + share list" where
  "rap_response parameters data =
     rbind (ok_or (ParametersTooShort (length parameters)) (slice_at parameters 0 PARAMETERS_LEN)) (\<lambda>words.
     let word = (\<lambda>at. u16_le (words ! at) (words ! (at + 1))) in
     if word 0 = RAP_MORE_DATA then Inl MoreData
     else if word 0 \<noteq> RAP_SUCCESS then Inl (RapFailed (word 0))
     else
       (let converter = word 2; returned = word 4; available = word 6 in
        if returned < available then Inl (ShortOfAvailable returned available)
        else rap_loop converter data [0..<unat returned]))"

section \<open>A reply decodes to its entries\<close>

text \<open>
  How a server lays an entry out: the name padded with nulls, the type, and a pointer whose low half
  less the converter is where the comment and its terminator are.  The comments may lie anywhere.
\<close>

type_synonym rap_info = "rstr \<times> u16 \<times> rstr"

definition ascii_text :: "rstr \<Rightarrow> bool" where
  "ascii_text cs \<longleftrightarrow> list_all (\<lambda>c. 0 < c \<and> c < 0x80) cs"

definition entry_laid :: "u16 \<Rightarrow> bytes \<Rightarrow> nat \<Rightarrow> u32 \<Rightarrow> rap_info \<Rightarrow> bool" where
  "entry_laid converter data index pointer info =
     (case info of (name, kind, comment) \<Rightarrow>
        length name \<le> NAME_LEN \<and> ascii_text name \<and> ascii_text comment \<and>
        slice_at data (index * ENTRY_LEN) ENTRY_LEN =
          Some (resize 14 0 (map of_nat name) @ le16 kind @ le32 pointer) \<and>
        (if pointer = 0 then comment = []
         else slice_at data (unat (ucast pointer - converter :: u16)) (length comment + 1) =
                Some (map of_nat comment @ [0])))"

definition rap_share_of :: "rap_info \<Rightarrow> share" where
  "rap_share_of info = (case info of (n, k, c) \<Rightarrow> \<lparr>sh_name = n, sh_kind = from_rap k, sh_comment = c\<rparr>)"

lemma ascii_nonzero: "ascii_text cs \<Longrightarrow> (0 :: u8) \<notin> set (map of_nat cs)"
proof (induction cs)
  case (Cons c cs)
  then have "unat (of_nat c :: u8) = c" "c \<noteq> 0" by (simp_all add: ascii_text_def unat_of_nat)
  then have "(of_nat c :: u8) \<noteq> 0" by (metis unat_0)
  then show ?case using Cons by (simp add: ascii_text_def)
qed simp

lemma ascii_decodes: "ascii_text cs \<Longrightarrow> from_utf8 (map of_nat cs) = Some cs"
  by (rule from_utf8_ascii) (auto simp: ascii_text_def list_all_iff)

lemma takeWhile_nul: "ascii_text cs \<Longrightarrow> takeWhile (\<lambda>b. b \<noteq> 0) (map of_nat cs @ 0 # rest) = (map of_nat cs :: bytes)"
  using ascii_nonzero [of cs] by (subst takeWhile_append2) auto

lemma takeWhile_pad:
  assumes "ascii_text cs"
  shows "takeWhile (\<lambda>b. b \<noteq> 0) (map of_nat cs @ replicate n 0) = (map of_nat cs :: bytes)"
proof (cases n)
  case 0
  then show ?thesis using ascii_nonzero [OF assms] by (auto simp: takeWhile_eq_all_conv)
next
  case (Suc m)
  then show ?thesis using takeWhile_nul [OF assms] by simp
qed

lemma comment_laid:
  assumes "slice_at data offset (length cs + 1) = Some (map of_nat cs @ [0])" "ascii_text cs"
    and "offset = unat (ucast pointer - converter :: u16)" "pointer \<noteq> 0"
  shows "rap_comment converter data index pointer = Inr cs"
proof -
  have "drop offset data = (map of_nat cs @ [0]) @ drop (length cs + 1) (drop offset data)"
    using assms(1) append_take_drop_id [of "length cs + 1" "drop offset data"]
    by (simp only: slice_at_Some_iff)
  then obtain rest where tail: "drop offset data = map of_nat cs @ 0 # rest" by simp
  have "offset \<le> length data" using assms(1) by (simp add: slice_at_Some_iff)
  then show ?thesis
    using assms(2-4) tail
    by (simp add: rap_comment_def Let_def takeWhile_nul rap_text_def ascii_decodes)
qed

lemma share_laid:
  assumes "entry_laid converter data index pointer info"
  shows "rap_share converter data index = Inr (rap_share_of info)"
proof -
  obtain n k c where info: "info = (n, k, c)" by (cases info)
  let ?entry = "resize 14 0 (map of_nat n) @ le16 k @ le32 pointer :: bytes"
  have laid: "length n \<le> NAME_LEN" "ascii_text n" "ascii_text c"
      "slice_at data (index * ENTRY_LEN) ENTRY_LEN = Some ?entry"
    using assms by (simp_all add: entry_laid_def info)
  have "take NAME_LEN ?entry = map of_nat n @ replicate (13 - length n) 0"
    using laid(1) by (simp add: resize_def NAME_LEN_def min_def)
  then have name: "nul_padded (take NAME_LEN ?entry) = map of_nat n"
    by (simp only: nul_padded_def takeWhile_pad [OF laid(2)])
  have nths: "?entry ! 14 = ucast k" "?entry ! 15 = ucast (drop_bit 8 k)" "?entry ! 16 = ucast pointer"
      "?entry ! 17 = ucast (drop_bit 8 pointer)" "?entry ! 18 = ucast (drop_bit 16 pointer)"
      "?entry ! 19 = ucast (drop_bit 24 pointer)"
    by (simp_all add: nth_append le16_def le32_def)
  have "rap_comment converter data index pointer = Inr c"
  proof (cases "pointer = 0")
    case True
    then show ?thesis using assms by (simp add: entry_laid_def info rap_comment_def)
  next
    case False
    then show ?thesis
      using assms by (intro comment_laid [OF _ laid(3) refl]) (simp_all add: entry_laid_def info)
  qed
  then show ?thesis
    using laid(2)
    by (simp add: rap_share_def Let_def laid(4) name nths u16_le_le16 u32_le_le32 rap_text_def
        ascii_decodes rap_share_of_def info del: take_append)
qed

lemma rap_loop_all:
  "(\<And>i. i \<in> set is \<Longrightarrow> rap_share converter data i = Inr (f i)) \<Longrightarrow>
   rap_loop converter data is = Inr (map f is)"
  by (induction "is") simp_all

text \<open>
  A successful RAP reply decodes to its entries: every name, type and comment as the server laid
  them out, the comments anywhere in the data block and the pointers converted modulo 16 bits.
\<close>

theorem rap_reply_roundtrip:
  assumes "length infos < 2 ^ 16" "unat available \<le> length infos"
    and "\<And>i. i < length infos \<Longrightarrow> entry_laid converter data i (pointer i) (infos ! i)"
  shows "rap_response (le16 RAP_SUCCESS @ le16 converter @ le16 (of_nat (length infos)) @ le16 available @ rest) data =
           Inr (map rap_share_of infos)"
proof -
  let ?n = "of_nat (length infos) :: u16"
  let ?w = "le16 RAP_SUCCESS @ le16 converter @ le16 ?n @ le16 available"
  have un: "unat ?n = length infos" using assms(1) by (simp add: unat_of_nat)
  have words: "slice_at (?w @ rest) 0 PARAMETERS_LEN = Some ?w"
    by (simp add: slice_at_def PARAMETERS_LEN_def le16_def)
  have nths: "?w ! 0 = ucast RAP_SUCCESS" "?w ! 1 = ucast (drop_bit 8 RAP_SUCCESS)"
      "?w ! 2 = ucast converter" "?w ! 3 = ucast (drop_bit 8 converter)"
      "?w ! 4 = ucast ?n" "?w ! 5 = ucast (drop_bit 8 ?n)"
      "?w ! 6 = ucast available" "?w ! 7 = ucast (drop_bit 8 available)"
    by (simp_all only: le16_def append.simps nth_Cons_numeral numeral_eq_Suc pred_numeral_simps
        nth_Cons_Suc nth_Cons_0 BitM.simps One_nat_def)
  have word: "u16_le (?w ! 0) (?w ! (0 + 1)) = RAP_SUCCESS" "u16_le (?w ! 2) (?w ! (2 + 1)) = converter"
      "u16_le (?w ! 4) (?w ! (4 + 1)) = ?n" "u16_le (?w ! 6) (?w ! (6 + 1)) = available"
    by (simp_all only: nths u16_le_le16 add_0 numeral_plus_one arith_simps)
  have "rap_response (?w @ rest) data = rap_loop converter data [0..<length infos]"
    using assms(2)
    by (simp only: rap_response_def Let_def words ok_or_simps rbind_simps word un word_less_nat_alt)
      (simp add: RAP_SUCCESS_def RAP_MORE_DATA_def)
  also have "\<dots> = Inr (map (\<lambda>i. rap_share_of (infos ! i)) [0..<length infos])"
    by (rule rap_loop_all) (use share_laid [OF assms(3)] in auto)
  also have "map (\<lambda>i. rap_share_of (infos ! i)) [0..<length infos] = map rap_share_of infos"
    by (rule nth_equalityI) simp_all
  finally show ?thesis by simp
qed

theorem rap_reply_roundtrip_witness:
  "rap_response (le16 RAP_SUCCESS @ le16 0xFFF0 @ le16 1 @ le16 1)
     (resize 14 0 (map of_nat (lit ''IPC$'')) @ le16 0x8003 @ le32 4 @ [0x72, 0x63, 0]) =
   Inr [rap_share_of (lit ''IPC$'', 0x8003, lit ''rc'')]"
  using rap_reply_roundtrip [of "[(lit ''IPC$'', 0x8003, lit ''rc'')]" 1 "0xFFF0"
      "resize 14 0 (map of_nat (lit ''IPC$'')) @ le16 0x8003 @ le32 4 @ [0x72, 0x63, 0]" "\<lambda>_. 4" "[]"]
  by (simp add: entry_laid_def ascii_text_def lit_def NAME_LEN_def ENTRY_LEN_def slice_at_def)

end
