(* ===== verification/Spnego.thy ===== *)
theory Spnego
  imports Prelude
begin

text \<open>
  The SPNEGO tokens of the session setup (\<open>auth/spnego.rs\<close>): a reader of BER tag-length-values
  that follows indefinite lengths to a bounded depth, a writer of minimal DER, the two tokens the
  client sends and the reader of the one it is sent.  A \<open>usize\<close> is eight bytes.
\<close>

definition TAG_APPLICATION_0 :: u8 where "TAG_APPLICATION_0 = 0x60"
definition TAG_OID :: u8 where "TAG_OID = 0x06"
definition TAG_OCTET_STRING :: u8 where "TAG_OCTET_STRING = 0x04"
definition TAG_SEQUENCE :: u8 where "TAG_SEQUENCE = 0x30"
definition TAG_CONTEXT_0 :: u8 where "TAG_CONTEXT_0 = 0xA0"
definition TAG_CONTEXT_1 :: u8 where "TAG_CONTEXT_1 = 0xA1"
definition TAG_CONTEXT_2 :: u8 where "TAG_CONTEXT_2 = 0xA2"
definition TAG_CONTEXT_3 :: u8 where "TAG_CONTEXT_3 = 0xA3"

lemmas tag_defs =
  TAG_APPLICATION_0_def TAG_OID_def TAG_OCTET_STRING_def TAG_SEQUENCE_def
  TAG_CONTEXT_0_def TAG_CONTEXT_1_def TAG_CONTEXT_2_def TAG_CONTEXT_3_def

definition SPNEGO_OID :: bytes where "SPNEGO_OID = [0x2B, 0x06, 0x01, 0x05, 0x05, 0x02]"
definition NTLMSSP_OID :: bytes where
  "NTLMSSP_OID = [0x2B, 0x06, 0x01, 0x04, 0x01, 0x82, 0x37, 0x02, 0x02, 0x0A]"

definition MAX_DEPTH :: nat where "MAX_DEPTH = 16"

datatype spnego_error =
    TlvTruncated nat
  | LengthTooLarge
  | UnexpectedTag u8 u8
    \<comment> \<open>expected, actual\<close>
  | UnterminatedIndefinite
  | TooDeep
  | NoResponseToken

record tlv =
  tl_tag :: u8
  tl_value :: bytes
  tl_consumed :: nat

section \<open>Reading\<close>

text \<open>The length octets, most significant first: \<open>(length << 8) | byte\<close> over at most eight.\<close>

definition be_length :: "bytes \<Rightarrow> nat" where
  "be_length raw = foldl (\<lambda>len byte. len * 256 + unat byte) 0 raw"

definition read_length :: "bytes \<Rightarrow> u8 \<Rightarrow> spnego_error + nat \<times> nat" where
  "read_length bs first =
     (if first AND 0x80 = 0 then Inr (unat first, 2)
      else
        (let count = unat (first AND 0x7F) in
         if count = 0 \<or> 8 < count then Inl LengthTooLarge
         else rbind (ok_or (TlvTruncated 2) (slice_at bs 2 count)) (\<lambda>raw. Inr (be_length raw, 2 + count))))"

lemma read_length_bounds: "read_length bs first = Inr (len, h) \<Longrightarrow> 2 \<le> h"
  by (auto simp: read_length_def Let_def rbind_Inr_iff split: if_splits)

text \<open>
  \<open>read_body body at depth\<close> is the loop over an indefinite body: it stops at the end-of-contents
  pair of its own level and reads past whole values on the way.
\<close>

function read_tlv :: "bytes \<Rightarrow> nat \<Rightarrow> spnego_error + tlv"
  and read_body :: "bytes \<Rightarrow> nat \<Rightarrow> nat \<Rightarrow> spnego_error + nat" where
  "read_tlv bs depth =
     (if MAX_DEPTH < depth then Inl TooDeep
      else if bs = [] then Inl (TlvTruncated 0)
      else if length bs = 1 then Inl (TlvTruncated 1)
      else if bs ! 1 = 0x80 then
        (case read_body (drop 2 bs) 0 depth of
           Inl e \<Rightarrow> Inl e
         | Inr at \<Rightarrow> Inr \<lparr>tl_tag = bs ! 0, tl_value = take at (drop 2 bs), tl_consumed = 2 + at + 2\<rparr>)
      else
        (case read_length bs (bs ! 1) of
           Inl e \<Rightarrow> Inl e
         | Inr (len, hd_len) \<Rightarrow>
             (case slice_at bs hd_len len of
                None \<Rightarrow> Inl (TlvTruncated hd_len)
              | Some v \<Rightarrow> Inr \<lparr>tl_tag = bs ! 0, tl_value = v, tl_consumed = hd_len + len\<rparr>)))"
| "read_body body at depth =
     (if length body < at + 2 then Inl UnterminatedIndefinite
      else if body ! at = 0 \<and> body ! (at + 1) = 0 then Inr at
      else
        (case read_tlv (drop at body) (depth + 1) of
           Inl e \<Rightarrow> Inl e
         | Inr inner \<Rightarrow> read_body body (at + tl_consumed inner) depth))"
  by pat_completeness auto

termination
proof (relation "measures [\<lambda>x. case x of Inl (bs, _) \<Rightarrow> length bs | Inr (body, at, _) \<Rightarrow> length body - at,
                           \<lambda>x. case x of Inl _ \<Rightarrow> 0 | Inr _ \<Rightarrow> 1]", goal_cases)
  case 1
  show ?case by simp
next
  case (2 bs depth)
  then show ?case by (cases bs; cases "tl bs") auto
next
  case (3 body at depth)
  then show ?case by simp
next
  case (4 body at depth inner)
  have "read_tlv_read_body_dom (Inl (bs, d)) \<Longrightarrow> read_tlv bs d = Inr t \<Longrightarrow> 2 \<le> tl_consumed t" for bs d t
    by (auto simp: read_tlv.psimps dest!: read_length_bounds split: if_splits sum.splits option.splits)
  then have "2 \<le> tl_consumed inner" using 4 by blast
  then show ?case using 4 by auto
qed

declare read_tlv.simps [simp del] read_body.simps [simp del]

definition expect_tag :: "bytes \<Rightarrow> u8 \<Rightarrow> nat \<Rightarrow> spnego_error + tlv" where
  "expect_tag bs tag depth =
     rbind (read_tlv bs depth) (\<lambda>t.
     if tl_tag t \<noteq> tag then Inl (UnexpectedTag tag (tl_tag t)) else Inr t)"

section \<open>Writing\<close>

text \<open>\<open>length.to_be_bytes()\<close> with its leading zeros dropped.\<close>

definition be64 :: "nat \<Rightarrow> bytes" where
  "be64 n = map (\<lambda>i. of_nat (n div 256 ^ i)) [7, 6, 5, 4, 3, 2, 1, 0]"

definition put_tlv :: "u8 \<Rightarrow> bytes \<Rightarrow> bytes" where
  "put_tlv tag v =
     (let len = length v in
      if len < 0x80 then tag # of_nat len # v
      else
        (let significant = dropWhile (\<lambda>b. b = 0) (be64 len) in
         tag # (0x80 OR of_nat (length significant)) # significant @ v))"

definition mech_list :: bytes where
  "mech_list = put_tlv TAG_SEQUENCE (put_tlv TAG_OID NTLMSSP_OID)"

definition neg_token_init :: "bytes \<Rightarrow> bytes" where
  "neg_token_init mech_token =
     put_tlv TAG_APPLICATION_0
       (put_tlv TAG_OID SPNEGO_OID
        @ put_tlv TAG_CONTEXT_0
            (put_tlv TAG_SEQUENCE
               (put_tlv TAG_CONTEXT_0 mech_list
                @ put_tlv TAG_CONTEXT_2 (put_tlv TAG_OCTET_STRING mech_token))))"

definition neg_token_resp :: "bytes \<Rightarrow> bytes \<Rightarrow> bytes" where
  "neg_token_resp response mic =
     put_tlv TAG_CONTEXT_1
       (put_tlv TAG_SEQUENCE
          (put_tlv TAG_CONTEXT_2 (put_tlv TAG_OCTET_STRING response)
           @ put_tlv TAG_CONTEXT_3 (put_tlv TAG_OCTET_STRING mic)))"

section \<open>The token a server answers with\<close>

lemma read_tlv_consumed_pos: "read_tlv bs depth = Inr t \<Longrightarrow> 2 \<le> tl_consumed t"
  apply (subst (asm) read_tlv.simps)
  apply (auto split: if_splits sum.splits option.splits)
  apply (drule read_length_bounds, simp)
  done

text \<open>\<open>while !rest.is_empty()\<close> over the fields of the sequence.\<close>

function token_fields :: "bytes \<Rightarrow> spnego_error + bytes" where
  "token_fields rest =
     (if rest = [] then Inl NoResponseToken
      else
        (case read_tlv rest 3 of
           Inl e \<Rightarrow> Inl e
         | Inr field \<Rightarrow>
             if tl_tag field = TAG_CONTEXT_2 then
               rbind (expect_tag (tl_value field) TAG_OCTET_STRING 4) (\<lambda>octets. Inr (tl_value octets))
             else if tl_tag field \<notin> {TAG_CONTEXT_0, TAG_CONTEXT_1, TAG_CONTEXT_2, TAG_CONTEXT_3} then
               Inl (UnexpectedTag TAG_CONTEXT_2 (tl_tag field))
             else token_fields (drop (tl_consumed field) rest)))"
  by pat_completeness auto

termination
proof (relation "measure length", goal_cases)
  case (2 rest field)
  then show ?case using read_tlv_consumed_pos [of rest 3 field] by (cases rest) auto
qed simp

declare token_fields.simps [simp del]

definition response_token :: "bytes \<Rightarrow> spnego_error + bytes" where
  "response_token token =
     rbind (read_tlv token 0) (\<lambda>outer.
     rbind (if tl_tag outer = TAG_APPLICATION_0
            then rbind (expect_tag (tl_value outer) TAG_OID 1) (\<lambda>oid. Inr (drop (tl_consumed oid) (tl_value outer)))
            else Inr token) (\<lambda>body.
     rbind (expect_tag body TAG_CONTEXT_1 1) (\<lambda>negotiation.
     rbind (expect_tag (tl_value negotiation) TAG_SEQUENCE 2) (\<lambda>sequence.
     token_fields (tl_value sequence)))))"

section \<open>Bounds\<close>

text \<open>
  What a value read out of a buffer says about it: the value and everything in front of it lie inside
  the buffer, so no slice the callers take runs past it.
\<close>

lemma read_tlv_bounds:
  "read_tlv bs depth = Inr t \<Longrightarrow>
     tl_consumed t \<le> length bs \<and> length (tl_value t) + 2 \<le> tl_consumed t \<and>
     (\<exists>h. 2 \<le> h \<and> slice_at bs h (length (tl_value t)) = Some (tl_value t))"
  "read_body body at depth = Inr stop \<Longrightarrow> at \<le> stop \<and> stop + 2 \<le> length body"
proof (induction bs depth and body at depth arbitrary: t and stop rule: read_tlv_read_body.induct)
  case (1 bs depth)
  show ?case
  proof (cases "bs ! 1 = 0x80")
    case True
    then obtain at where at: "read_body (drop 2 bs) 0 depth = Inr at"
      and t: "t = \<lparr>tl_tag = bs ! 0, tl_value = take at (drop 2 bs), tl_consumed = 2 + at + 2\<rparr>"
      and ok: "\<not> MAX_DEPTH < depth" "bs \<noteq> []" "length bs \<noteq> 1"
      using "1.prems" by (subst (asm) read_tlv.simps) (auto split: if_splits sum.splits)
    have "at + 2 \<le> length (drop 2 bs)" using "1.IH" [OF ok True at] by simp
    then show ?thesis by (auto simp: t slice_at_def intro!: exI [of _ 2])
  next
    case False
    then obtain len h v where l: "read_length bs (bs ! 1) = Inr (len, h)" and v: "slice_at bs h len = Some v"
      and t: "t = \<lparr>tl_tag = bs ! 0, tl_value = v, tl_consumed = h + len\<rparr>"
      using "1.prems" by (subst (asm) read_tlv.simps) (auto split: if_splits sum.splits option.splits)
    have "length v = len" using v by (rule slice_at_length)
    then show ?thesis using v read_length_bounds [OF l] by (auto simp: t slice_at_Some_iff intro!: exI [of _ h])
  qed
next
  case (2 body at depth)
  show ?case
  proof (cases "body ! at = 0 \<and> body ! (at + 1) = 0")
    case True
    then show ?thesis using "2.prems" by (subst (asm) read_body.simps) (auto split: if_splits)
  next
    case False
    then obtain inner where i: "read_tlv (drop at body) (depth + 1) = Inr inner"
      and r: "read_body body (at + tl_consumed inner) depth = Inr stop" and ok: "\<not> length body < at + 2"
      using "2.prems" by (subst (asm) read_body.simps) (auto split: if_splits sum.splits)
    then show ?thesis using "2.IH"(2) [OF ok False i r] by simp
  qed
qed

section \<open>Reading what was written\<close>

lemma be_length_Cons_0: "be_length (0 # bs) = be_length bs"
  by (simp add: be_length_def)

lemma be_length_dropWhile: "be_length (dropWhile (\<lambda>b. b = 0) bs) = be_length bs"
  by (induction bs) (simp_all add: be_length_Cons_0)

lemma be_length_be64:
  assumes "n < 2 ^ 64"
  shows "be_length (be64 n) = n"
proof -
  have octet: "unat (of_nat m :: u8) = m mod 256" for m by (simp add: unat_of_nat)
  have up: "n div 256 ^ Suc i * 256 + n div 256 ^ i mod 256 = n div 256 ^ i" for i
  proof -
    have "n div 256 ^ Suc i = n div 256 ^ i div 256" by (simp only: power_Suc2 div_mult2_eq)
    then show ?thesis by simp
  qed
  have "n div 256 ^ 7 mod 256 = n div 256 ^ 7" using assms by simp
  then show ?thesis
    using up [of 6] up [of 5] up [of 4] up [of 3] up [of 2] up [of 1] up [of 0]
    by (simp add: be_length_def be64_def octet)
qed

lemma significant_length:
  assumes "n < 2 ^ 64" "0 < n"
  shows "length (dropWhile (\<lambda>b. b = 0) (be64 n)) \<in> {1..8}"
proof -
  have n: "be_length (dropWhile (\<lambda>b. b = 0) (be64 n)) = n"
    by (simp only: be_length_dropWhile be_length_be64 [OF assms(1)])
  have "dropWhile (\<lambda>b. b = 0) (be64 n) \<noteq> []"
  proof
    assume "dropWhile (\<lambda>b. b = 0) (be64 n) = []"
    then have "be_length [] = n" using n by (simp only:)
    then show False using assms(2) by (simp add: be_length_def)
  qed
  moreover have "length (dropWhile (\<lambda>b. b = 0) (be64 n)) \<le> 8"
    using length_dropWhile_le [of "\<lambda>b. b = 0" "be64 n"] by (simp add: be64_def)
  ultimately show ?thesis by (cases "dropWhile (\<lambda>b. b = 0) (be64 n)") simp_all
qed

lemma long_form_octet:
  fixes w :: u8
  assumes "k \<in> {1..8}" "w = 0x80 OR of_nat k"
  shows "w AND 0x80 \<noteq> 0" "w \<noteq> 0x80" "unat (w AND 0x7F) = k"
proof -
  have "k = 1 \<or> k = 2 \<or> k = 3 \<or> k = 4 \<or> k = 5 \<or> k = 6 \<or> k = 7 \<or> k = 8" using assms(1) by auto
  then show "w AND 0x80 \<noteq> 0" "w \<noteq> 0x80" "unat (w AND 0x7F) = k" by (auto simp: assms(2))
qed

lemma short_form_octet:
  fixes w :: u8
  assumes "n < 0x80" "w = of_nat n"
  shows "w AND 0x80 = 0" "w \<noteq> 0x80" "unat w = n"
proof -
  show u: "unat w = n" using assms by (simp add: unat_of_nat)
  show "w \<noteq> 0x80" using u assms(1) by auto
  have "\<not> bit w 7"
  proof -
    have "bit (unat w) 7 = bit w 7" by (simp add: bit_unsigned_iff)
    then show ?thesis using u assms(1) by (simp add: bit_iff_odd)
  qed
  then show "w AND 0x80 = 0" using and_exp_eq_0_iff_not_bit [of w 7] by simp
qed

lemma read_put_tlv:
  assumes "depth \<le> MAX_DEPTH" "length v < 2 ^ 64"
  shows "read_tlv (put_tlv tag v @ rest) depth
    = Inr \<lparr>tl_tag = tag, tl_value = v, tl_consumed = length (put_tlv tag v)\<rparr>"
proof (cases "length v < 0x80")
  case True
  then show ?thesis
    using assms(1) short_form_octet [OF True refl]
    by (subst read_tlv.simps) (simp add: put_tlv_def Let_def read_length_def slice_at_def)
next
  case False
  define sig where "sig = dropWhile (\<lambda>b. b = 0) (be64 (length v))"
  have k: "length sig \<in> {1..8}" unfolding sig_def by (rule significant_length) (use assms(2) False in auto)
  have be: "be_length sig = length v"
    by (simp only: sig_def be_length_dropWhile be_length_be64 [OF assms(2)])
  have "sig \<noteq> []" using k by auto
  then show ?thesis
    using assms(1) False k long_form_octet [OF k refl]
    by (subst read_tlv.simps)
      (simp add: put_tlv_def Let_def read_length_def slice_at_def be sig_def [symmetric])
qed

lemma length_put_tlv: "length v < length (put_tlv tag v)"
  by (simp add: put_tlv_def Let_def)

section \<open>Values in either form\<close>

text \<open>
  A BER value, each constructed one with a definite or an indefinite length (\<open>True\<close>), as a real
  server may emit it.
\<close>

datatype ber = Ber_leaf u8 bytes | Ber_node u8 bool "ber list"

fun ber_bytes :: "ber \<Rightarrow> bytes" where
  "ber_bytes (Ber_leaf tag v) = put_tlv tag v"
| "ber_bytes (Ber_node tag indefinite cs) =
     (if indefinite then tag # 0x80 # concat (map ber_bytes cs) @ [0, 0]
      else put_tlv tag (concat (map ber_bytes cs)))"

fun ber_tag :: "ber \<Rightarrow> u8" where
  "ber_tag (Ber_leaf tag _) = tag"
| "ber_tag (Ber_node tag _ _) = tag"

fun ber_value :: "ber \<Rightarrow> bytes" where
  "ber_value (Ber_leaf _ v) = v"
| "ber_value (Ber_node _ _ cs) = concat (map ber_bytes cs)"

fun ber_height :: "ber \<Rightarrow> nat" where
  "ber_height (Ber_leaf _ _) = 0"
| "ber_height (Ber_node _ _ cs) = Suc (foldr max (map ber_height cs) 0)"

text \<open>No value inside an indefinite one may look like its end, and sizes are machine sizes.\<close>

fun ber_ok :: "ber \<Rightarrow> bool" where
  "ber_ok (Ber_leaf tag v) \<longleftrightarrow> tag \<noteq> 0 \<and> length v < 2 ^ 64"
| "ber_ok (Ber_node tag _ cs) \<longleftrightarrow>
     tag \<noteq> 0 \<and> length (concat (map ber_bytes cs)) < 2 ^ 64 \<and> list_all ber_ok cs"

lemma ber_height_child: "c \<in> set cs \<Longrightarrow> ber_height c \<le> foldr max (map ber_height cs) 0"
  by (induction cs) auto

lemma ber_bytes_tag:
  "\<exists>b tl. ber_bytes t = ber_tag t # b # tl"
  by (cases t) (auto simp: put_tlv_def Let_def)

lemma read_body_values:
  assumes "\<And>c rest. c \<in> set cs \<Longrightarrow>
      read_tlv (ber_bytes c @ rest) (depth + 1)
        = Inr \<lparr>tl_tag = ber_tag c, tl_value = ber_value c, tl_consumed = length (ber_bytes c)\<rparr>"
    and "\<And>c. c \<in> set cs \<Longrightarrow> ber_tag c \<noteq> 0"
  shows "read_body (pre @ concat (map ber_bytes cs) @ [0, 0] @ rest) (length pre) depth
    = Inr (length pre + length (concat (map ber_bytes cs)))"
  using assms
proof (induction cs arbitrary: pre)
  case Nil
  then show ?case by (subst read_body.simps) (simp add: nth_append)
next
  case (Cons c cs)
  obtain b tl where c: "ber_bytes c = ber_tag c # b # tl" using ber_bytes_tag by blast
  let ?body = "pre @ concat (map ber_bytes (c # cs)) @ [0, 0] @ rest"
  have first: "?body ! length pre \<noteq> 0" using Cons.prems(2) [of c] by (simp add: nth_append c)
  have "read_tlv (drop (length pre) ?body) (depth + 1)
      = Inr \<lparr>tl_tag = ber_tag c, tl_value = ber_value c, tl_consumed = length (ber_bytes c)\<rparr>"
    using Cons.prems(1) [of c "concat (map ber_bytes cs) @ [0, 0] @ rest"] by simp
  then have "read_body ?body (length pre) depth = read_body ?body (length pre + length (ber_bytes c)) depth"
    using first by (subst read_body.simps) simp
  also have "\<dots> = Inr (length pre + length (ber_bytes c) + length (concat (map ber_bytes cs)))"
    using Cons.IH [of "pre @ ber_bytes c"] Cons.prems by simp
  finally show ?case by simp
qed

lemma read_ber:
  "ber_ok t \<Longrightarrow> depth + ber_height t \<le> MAX_DEPTH \<Longrightarrow>
   read_tlv (ber_bytes t @ rest) depth
     = Inr \<lparr>tl_tag = ber_tag t, tl_value = ber_value t, tl_consumed = length (ber_bytes t)\<rparr>"
proof (induction t arbitrary: depth rest)
  case (Ber_leaf tag v)
  then show ?case by (simp add: read_put_tlv)
next
  case (Ber_node tag indefinite cs)
  show ?case
  proof (cases indefinite)
    case False
    then show ?thesis using Ber_node.prems by (simp add: read_put_tlv)
  next
    case True
    have "read_tlv (ber_bytes c @ rest') (depth + 1)
        = Inr \<lparr>tl_tag = ber_tag c, tl_value = ber_value c, tl_consumed = length (ber_bytes c)\<rparr>"
      if "c \<in> set cs" for c rest'
      using Ber_node.IH [OF that] Ber_node.prems ber_height_child [OF that] that by (simp add: list_all_iff)
    moreover have "ber_tag c \<noteq> 0" if "c \<in> set cs" for c
      using Ber_node.prems(1) that by (cases c) (auto simp: list_all_iff)
    ultimately have "read_body (concat (map ber_bytes cs) @ [0, 0] @ rest) 0 depth
        = Inr (length (concat (map ber_bytes cs)))"
      using read_body_values [of cs depth "[]" rest] by simp
    then show ?thesis using True Ber_node.prems by (subst read_tlv.simps) simp
  qed
qed

section \<open>The response token\<close>

text \<open>
  A \<open>NegTokenResp\<close> with the NTLM message \<open>t\<close> in its \<open>[2]\<close> field: other fields
  before and after it, each level in either form, and the wrapper a first token carries.
\<close>

definition resp_token :: "bool \<times> bool \<times> bool \<Rightarrow> ber list \<Rightarrow> bytes \<Rightarrow> ber list \<Rightarrow> ber" where
  "resp_token forms before t after =
     (case forms of (choice, sequence, field) \<Rightarrow>
        Ber_node TAG_CONTEXT_1 choice
          [Ber_node TAG_SEQUENCE sequence
             (before @ Ber_node TAG_CONTEXT_2 field [Ber_leaf TAG_OCTET_STRING t] # after)])"

definition wrapped :: "bool \<Rightarrow> bytes \<Rightarrow> ber \<Rightarrow> ber" where
  "wrapped form oid tok = Ber_node TAG_APPLICATION_0 form [Ber_leaf TAG_OID oid, tok]"

definition skipped_tags :: "u8 set" where
  "skipped_tags = {TAG_CONTEXT_0, TAG_CONTEXT_1, TAG_CONTEXT_3}"

lemma expect_ber:
  "ber_ok t \<Longrightarrow> depth + ber_height t \<le> MAX_DEPTH \<Longrightarrow>
   expect_tag (ber_bytes t @ rest) (ber_tag t) depth
     = Inr \<lparr>tl_tag = ber_tag t, tl_value = ber_value t, tl_consumed = length (ber_bytes t)\<rparr>"
  by (simp add: expect_tag_def read_ber)

lemma token_fields_found:
  assumes "list_all (\<lambda>c. ber_ok c \<and> ber_height c \<le> 13 \<and> ber_tag c \<in> skipped_tags) before"
    and "length t < 2 ^ 64" "ber_ok (Ber_node TAG_CONTEXT_2 form [Ber_leaf TAG_OCTET_STRING t])"
  shows "token_fields (concat (map ber_bytes before)
      @ ber_bytes (Ber_node TAG_CONTEXT_2 form [Ber_leaf TAG_OCTET_STRING t]) @ rest) = Inr t"
  using assms(1)
proof (induction before)
  case Nil
  let ?f = "Ber_node TAG_CONTEXT_2 form [Ber_leaf TAG_OCTET_STRING t]"
  have "read_tlv (ber_bytes ?f @ rest) 3
      = Inr \<lparr>tl_tag = TAG_CONTEXT_2, tl_value = put_tlv TAG_OCTET_STRING t, tl_consumed = length (ber_bytes ?f)\<rparr>"
    using read_ber [OF assms(3), of 3 rest] by (simp add: MAX_DEPTH_def)
  moreover have "expect_tag (put_tlv TAG_OCTET_STRING t) TAG_OCTET_STRING 4
      = Inr \<lparr>tl_tag = TAG_OCTET_STRING, tl_value = t, tl_consumed = length (put_tlv TAG_OCTET_STRING t)\<rparr>"
    using read_put_tlv [of 4 t TAG_OCTET_STRING "[]"] assms(2) by (simp add: expect_tag_def MAX_DEPTH_def)
  moreover have "ber_bytes ?f @ rest \<noteq> []" using ber_bytes_tag [of ?f] by auto
  ultimately show ?case by (subst token_fields.simps) (simp del: ber_bytes.simps)
next
  case (Cons c cs)
  let ?rest = "concat (map ber_bytes cs)
      @ ber_bytes (Ber_node TAG_CONTEXT_2 form [Ber_leaf TAG_OCTET_STRING t]) @ rest"
  have "read_tlv (ber_bytes c @ ?rest) 3
      = Inr \<lparr>tl_tag = ber_tag c, tl_value = ber_value c, tl_consumed = length (ber_bytes c)\<rparr>"
    using Cons.prems by (intro read_ber) (simp_all add: MAX_DEPTH_def)
  moreover have "ber_bytes c \<noteq> []" using ber_bytes_tag [of c] by auto
  moreover have "ber_tag c \<noteq> TAG_CONTEXT_2" "ber_tag c \<in> {TAG_CONTEXT_0, TAG_CONTEXT_1, TAG_CONTEXT_2, TAG_CONTEXT_3}"
    using Cons.prems by (auto simp: skipped_tags_def tag_defs)
  ultimately have "token_fields (ber_bytes c @ ?rest) = token_fields ?rest"
    by (subst token_fields.simps) (simp del: ber_bytes.simps)
  then show ?case using Cons by simp
qed

lemma response_token_wrapped:
  assumes "list_all (\<lambda>c. ber_tag c \<in> skipped_tags) before"
    and "ber_ok (wrapped form oid (resp_token forms before t after))"
    and "ber_height (resp_token forms before t after) \<le> 15"
  shows "response_token (ber_bytes (resp_token forms before t after)) = Inr t"
    and "response_token (ber_bytes (wrapped form oid (resp_token forms before t after))) = Inr t"
proof -
  obtain b1 b2 b3 where forms: "forms = (b1, b2, b3)" by (metis prod_cases3)
  define f where "f = Ber_node TAG_CONTEXT_2 b3 [Ber_leaf TAG_OCTET_STRING t]"
  define sq where "sq = Ber_node TAG_SEQUENCE b2 (before @ f # after)"
  define tok where "tok = resp_token forms before t after"
  have tok: "tok = Ber_node TAG_CONTEXT_1 b1 [sq]"
    by (simp add: tok_def resp_token_def forms sq_def f_def)
  have ok: "ber_ok tok" "ber_ok sq" "ber_ok f" "list_all ber_ok before" "length t < 2 ^ 64" "length oid < 2 ^ 64"
    using assms(2) by (simp_all add: wrapped_def tok_def [symmetric] tok sq_def f_def list_all_iff)
  have hsq: "ber_height sq \<le> 14" using assms(3) by (simp add: tok_def [symmetric] tok)
  have "ber_height c \<le> 13" if "c \<in> set before" for c
    using ber_height_child [of c "before @ f # after"] that hsq by (simp add: sq_def)
  then have fields: "token_fields (ber_value sq) = Inr t"
    using token_fields_found [of before t b3 "concat (map ber_bytes after)"] assms(1) ok
    by (simp add: sq_def f_def list_all_iff)
  have choice: "expect_tag (ber_bytes tok) TAG_CONTEXT_1 1
      = Inr \<lparr>tl_tag = TAG_CONTEXT_1, tl_value = ber_bytes sq, tl_consumed = length (ber_bytes tok)\<rparr>"
    using expect_ber [OF ok(1), of 1 "[]"] hsq by (simp add: tok MAX_DEPTH_def)
  have sequence: "expect_tag (ber_bytes sq) TAG_SEQUENCE 2
      = Inr \<lparr>tl_tag = TAG_SEQUENCE, tl_value = ber_value sq, tl_consumed = length (ber_bytes sq)\<rparr>"
    using expect_ber [OF ok(2), of 2 "[]"] hsq by (simp add: sq_def MAX_DEPTH_def)
  have "read_tlv (ber_bytes tok) 0
      = Inr \<lparr>tl_tag = TAG_CONTEXT_1, tl_value = ber_bytes sq, tl_consumed = length (ber_bytes tok)\<rparr>"
    using read_ber [OF ok(1), of 0 "[]"] hsq by (simp add: tok MAX_DEPTH_def)
  then show "response_token (ber_bytes (resp_token forms before t after)) = Inr t"
    using choice sequence fields
    by (simp add: response_token_def tok_def [symmetric] tag_defs del: ber_bytes.simps)
  have "read_tlv (ber_bytes (wrapped form oid tok)) 0 = Inr \<lparr>tl_tag = TAG_APPLICATION_0,
      tl_value = put_tlv TAG_OID oid @ ber_bytes tok, tl_consumed = length (ber_bytes (wrapped form oid tok))\<rparr>"
    using read_ber [of "wrapped form oid tok" 0 "[]"] assms(2) hsq
    by (simp add: wrapped_def tok_def [symmetric] MAX_DEPTH_def tok)
  moreover have "expect_tag (put_tlv TAG_OID oid @ ber_bytes tok) TAG_OID 1
      = Inr \<lparr>tl_tag = TAG_OID, tl_value = oid, tl_consumed = length (put_tlv TAG_OID oid)\<rparr>"
    using read_put_tlv [of 1 oid TAG_OID "ber_bytes tok"] ok(6) by (simp add: expect_tag_def MAX_DEPTH_def)
  ultimately show "response_token (ber_bytes (wrapped form oid (resp_token forms before t after))) = Inr t"
    using choice sequence fields
    by (simp add: response_token_def tok_def [symmetric] del: ber_bytes.simps)
qed

text \<open>
  C24. The NTLM message of a server's SPNEGO token is found whatever form each level of the token is
  written in (definite or indefinite), whatever other fields stand around it and whether or not the
  GSS-API wrapper is there, up to the nesting the reader follows.
\<close>

theorem spnego_token_found:
  assumes "list_all (\<lambda>c. ber_tag c \<in> skipped_tags) before"
    and "ber_ok (wrapped form oid (resp_token forms before t after))"
    and "ber_height (resp_token forms before t after) \<le> 15"
  shows "response_token (ber_bytes (resp_token forms before t after)) = Inr t
    \<and> response_token (ber_bytes (wrapped form oid (resp_token forms before t after))) = Inr t"
  using response_token_wrapped [OF assms] by blast

theorem spnego_token_found_witness:
  "response_token (ber_bytes (resp_token (True, True, False) [Ber_leaf TAG_CONTEXT_0 [0x0A, 1, 1]] [7, 8, 9] []))
     = Inr [7, 8, 9]"
  by (rule spnego_token_found [where form = True and oid = SPNEGO_OID, THEN conjunct1])
    (simp_all add: skipped_tags_def tag_defs wrapped_def resp_token_def put_tlv_def SPNEGO_OID_def)



text \<open>The client's own second token is one of those above, with every level definite.\<close>

lemma length_put_tlv_le: "length v \<le> length (put_tlv tag v)"
  using length_put_tlv [of v tag] by simp

lemma own_token_found:
  assumes "length (neg_token_resp response mic) < 2 ^ 64"
  shows "response_token (neg_token_resp response mic) = Inr response"
proof -
  let ?t = "put_tlv TAG_OCTET_STRING response" and ?m = "put_tlv TAG_OCTET_STRING mic"
  let ?fields = "put_tlv TAG_CONTEXT_2 ?t @ put_tlv TAG_CONTEXT_3 ?m"
  have fields: "length ?fields < 2 ^ 64" "length (put_tlv TAG_SEQUENCE ?fields) < 2 ^ 64"
    using assms length_put_tlv_le [of ?fields TAG_SEQUENCE]
      length_put_tlv_le [of "put_tlv TAG_SEQUENCE ?fields" TAG_CONTEXT_1]
    by (simp_all add: neg_token_resp_def)
  then have sizes: "length ?t < 2 ^ 64" "length response < 2 ^ 64"
    using length_put_tlv_le [of ?t TAG_CONTEXT_2] length_put_tlv_le [of response TAG_OCTET_STRING]
    by simp_all
  have "token_fields ?fields = Inr response"
    using token_fields_found [of "[]" response False "put_tlv TAG_CONTEXT_3 ?m"] sizes by (simp add: tag_defs)
  then show ?thesis
    using read_put_tlv [of 0 "put_tlv TAG_SEQUENCE ?fields" TAG_CONTEXT_1 "[]"]
      read_put_tlv [of 1 "put_tlv TAG_SEQUENCE ?fields" TAG_CONTEXT_1 "[]"]
      read_put_tlv [of 2 ?fields TAG_SEQUENCE "[]"] fields
    by (simp add: response_token_def neg_token_resp_def expect_tag_def MAX_DEPTH_def tag_defs)
qed

lemma length_put_tlv_short: "length v < 128 \<Longrightarrow> length (put_tlv tag v) = length v + 2"
  by (simp add: put_tlv_def)

lemma put_tlv_length: "length (put_tlv tag v) \<le> length v + 10"
  using length_dropWhile_le [of "\<lambda>b. b = 0" "be64 (length v)"] by (simp add: put_tlv_def be64_def Let_def)

lemma neg_token_resp_length: "length (neg_token_resp m mic) \<le> length m + length mic + 60"
proof -
  let ?o = "put_tlv TAG_CONTEXT_2 (put_tlv TAG_OCTET_STRING m)" and ?c = "put_tlv TAG_CONTEXT_3 (put_tlv TAG_OCTET_STRING mic)"
  have "length ?o \<le> length m + 20" "length ?c \<le> length mic + 20"
    using put_tlv_length [of TAG_CONTEXT_2 "put_tlv TAG_OCTET_STRING m"] put_tlv_length [of TAG_OCTET_STRING m]
      put_tlv_length [of TAG_CONTEXT_3 "put_tlv TAG_OCTET_STRING mic"] put_tlv_length [of TAG_OCTET_STRING mic]
    by linarith+
  then show ?thesis
    unfolding neg_token_resp_def
    using put_tlv_length [of TAG_CONTEXT_1 "put_tlv TAG_SEQUENCE (?o @ ?c)"] put_tlv_length [of TAG_SEQUENCE "?o @ ?c"]
    by simp
qed

end
