(* ===== verification/Ntlm.thy ===== *)
theory Ntlm
  imports Unicode
begin

text \<open>
  NTLMv2 (\<open>auth/ntlm.rs\<close>) and the credentials it is computed from (\<open>auth/mod.rs\<close>): the
  NEGOTIATE message, the reader of the server's CHALLENGE with its AV pairs, the AUTHENTICATE
  message that answers it and the signature over the mechanism list.

  The digests and the stream cipher are other crates', and the upper-casing table is the standard
  library's: they are the fields of \<open>primitives\<close>, an argument of every definition that uses
  them.  The redacting \<open>Debug\<close> instances are display only.
\<close>

section \<open>Credentials and primitives\<close>

record credentials =
  cr_user :: rstr
  cr_password :: rstr
  cr_domain :: rstr

definition credentials_new :: "rstr \<Rightarrow> rstr \<Rightarrow> credentials" where
  "credentials_new user password = \<lparr>cr_user = user, cr_password = password, cr_domain = []\<rparr>"

definition with_domain :: "rstr \<Rightarrow> credentials \<Rightarrow> credentials" where
  "with_domain domain c = c\<lparr>cr_domain := domain\<rparr>"

record primitives =
  pr_md4 :: "bytes \<Rightarrow> bytes"
  pr_md5 :: "bytes \<Rightarrow> bytes"
  pr_hmac_md5 :: "bytes \<Rightarrow> bytes \<Rightarrow> bytes"
    \<comment> \<open>key, message\<close>
  pr_rc4 :: "bytes \<Rightarrow> bytes \<Rightarrow> bytes"
    \<comment> \<open>key, buffer: the keystream of the key applied to it\<close>
  pr_uppercase :: "rstr \<Rightarrow> rstr"

section \<open>Constants\<close>

definition NEGOTIATE_UNICODE :: u32 where "NEGOTIATE_UNICODE = 0x00000001"
definition REQUEST_TARGET :: u32 where "REQUEST_TARGET = 0x00000004"
definition NEGOTIATE_SIGN :: u32 where "NEGOTIATE_SIGN = 0x00000010"
definition NEGOTIATE_NTLM :: u32 where "NEGOTIATE_NTLM = 0x00000200"
definition NEGOTIATE_ALWAYS_SIGN :: u32 where "NEGOTIATE_ALWAYS_SIGN = 0x00008000"
definition NEGOTIATE_EXTENDED_SESSIONSECURITY :: u32 where "NEGOTIATE_EXTENDED_SESSIONSECURITY = 0x00080000"
definition NEGOTIATE_TARGET_INFO :: u32 where "NEGOTIATE_TARGET_INFO = 0x00800000"
definition NEGOTIATE_VERSION :: u32 where "NEGOTIATE_VERSION = 0x02000000"
definition NEGOTIATE_128 :: u32 where "NEGOTIATE_128 = 0x20000000"
definition NEGOTIATE_KEY_EXCH :: u32 where "NEGOTIATE_KEY_EXCH = 0x40000000"
definition NEGOTIATE_56 :: u32 where "NEGOTIATE_56 = 0x80000000"

definition NEGOTIATE_FLAGS :: u32 where
  "NEGOTIATE_FLAGS =
     NEGOTIATE_UNICODE OR REQUEST_TARGET OR NEGOTIATE_SIGN OR NEGOTIATE_NTLM
     OR NEGOTIATE_EXTENDED_SESSIONSECURITY OR NEGOTIATE_TARGET_INFO OR NEGOTIATE_128
     OR NEGOTIATE_KEY_EXCH OR NEGOTIATE_56"

definition SIGNATURE :: bytes where "SIGNATURE = [0x4E, 0x54, 0x4C, 0x4D, 0x53, 0x53, 0x50, 0x00]"
definition MESSAGE_NEGOTIATE :: u32 where "MESSAGE_NEGOTIATE = 1"
definition MESSAGE_CHALLENGE :: u32 where "MESSAGE_CHALLENGE = 2"
definition MESSAGE_AUTHENTICATE :: u32 where "MESSAGE_AUTHENTICATE = 3"
definition NEGOTIATE_LEN :: nat where "NEGOTIATE_LEN = 40"
definition AUTHENTICATE_HEADER_LEN :: nat where "AUTHENTICATE_HEADER_LEN = 72"
definition MIC_OFFSET :: nat where "MIC_OFFSET = 72"
definition DIGEST_LEN :: nat where "DIGEST_LEN = 16"
definition CHALLENGE_MIN_LEN :: nat where "CHALLENGE_MIN_LEN = 48"
definition AV_EOL :: u16 where "AV_EOL = 0x0000"
definition AV_FLAGS :: u16 where "AV_FLAGS = 0x0006"
definition AV_TIMESTAMP :: u16 where "AV_TIMESTAMP = 0x0007"
definition AV_FLAG_MIC_PROVIDED :: u32 where "AV_FLAG_MIC_PROVIDED = 0x00000002"
definition FILETIME_EPOCH_OFFSET :: int where "FILETIME_EPOCH_OFFSET = 116444736000000000"

datatype ntlm_error =
    NotNtlm
  | UnexpectedMessageType u32 u32
    \<comment> \<open>expected, actual\<close>
  | NtlmTruncated string nat
    \<comment> \<open>part, length\<close>
  | FieldOutOfRange string nat nat nat
    \<comment> \<open>field, offset, length, message length\<close>
  | MalformedAvPairs nat
  | NoExtendedSessionSecurity

section \<open>The key schedule\<close>

definition ntlm_utf16 :: "rstr \<Rightarrow> bytes" where
  "ntlm_utf16 text = units_le (encode_utf16 text)"

definition nt_hash_of :: "primitives \<Rightarrow> rstr \<Rightarrow> bytes" where
  "nt_hash_of pr password = pr_md4 pr (units_le (encode_utf16 password))"

text \<open>Only the user name is upper-cased.\<close>

definition ntowf_v2 :: "primitives \<Rightarrow> credentials \<Rightarrow> bytes" where
  "ntowf_v2 pr c =
     pr_hmac_md5 pr (nt_hash_of pr (cr_password c))
       (units_le (encode_utf16 (pr_uppercase pr (cr_user c)) @ encode_utf16 (cr_domain c)))"

section \<open>NEGOTIATE\<close>

definition negotiate_message :: bytes where
  "negotiate_message =
     (let m = replicate NEGOTIATE_LEN 0;
          m = write_at 0 SIGNATURE m;
          m = write_at 8 (le32 MESSAGE_NEGOTIATE) m
      in write_at 12 (le32 NEGOTIATE_FLAGS) m)"

section \<open>Fields\<close>

definition le32_at :: "bytes \<Rightarrow> nat \<Rightarrow> u32" where
  "le32_at m at = u32_le (m ! at) (m ! (at + 1)) (m ! (at + 2)) (m ! (at + 3))"

definition ntlm_field :: "bytes \<Rightarrow> nat \<Rightarrow> string \<Rightarrow> ntlm_error + nat \<times> nat" where
  "ntlm_field m at name =
     rbind (ok_or (NtlmTruncated name (length m)) (slice_at m at 8)) (\<lambda>raw.
       Inr (unat (le32_at raw 4), unat (u16_le (raw ! 0) (raw ! 1))))"

text \<open>\<open>get(offset..)\<close> and then \<open>get(..length)\<close> is the slice that lies inside the message.\<close>

definition field_bytes :: "bytes \<Rightarrow> nat \<Rightarrow> string \<Rightarrow> ntlm_error + bytes" where
  "field_bytes m at name =
     rbind (ntlm_field m at name) (\<lambda>(offset, len).
       ok_or (FieldOutOfRange name offset len (length m)) (slice_at m offset len))"

definition put_field :: "nat \<Rightarrow> nat \<Rightarrow> bytes \<Rightarrow> bytes \<times> bytes \<Rightarrow> bytes \<times> bytes" where
  "put_field at header_len value = (\<lambda>(m, payload).
     (let offset = of_nat (header_len + length payload) :: u32;
          len = of_nat (length value) :: u16;
          m = write_at at (le16 len) m;
          m = write_at (at + 2) (le16 len) m;
          m = write_at (at + 4) (le32 offset) m
      in (m, payload @ value)))"

section \<open>AV pairs\<close>

record av_pairs =
  av_bytes :: bytes
  av_end :: nat

text \<open>
  The loop of \<open>AvPairs::parse\<close>.  The sums are \<open>checked_add\<close>s that cannot overflow:
  \<open>at + 4\<close> lies inside the buffer and the length is 16 bits.
\<close>

function av_parse_from :: "bytes \<Rightarrow> nat \<Rightarrow> ntlm_error + nat" where
  "av_parse_from bs at =
     (case slice_at bs at 4 of
        None \<Rightarrow> Inl (MalformedAvPairs at)
      | Some hdr \<Rightarrow>
          (let av = u16_le (hdr ! 0) (hdr ! 1);
               len = unat (u16_le (hdr ! 2) (hdr ! 3));
               stop = at + 4 + len
           in if length bs < stop then Inl (MalformedAvPairs at)
              else if av = AV_EOL then Inr at
              else av_parse_from bs stop))"
  by pat_completeness auto

termination
  by (relation "measure (\<lambda>(bs, at). length bs - at)") (auto simp: slice_at_Some_iff)

declare av_parse_from.simps [simp del]

definition av_parse :: "bytes \<Rightarrow> ntlm_error + av_pairs" where
  "av_parse bs = rbind (av_parse_from bs 0) (\<lambda>at. Inr \<lparr>av_bytes = bs, av_end = at\<rparr>)"

function av_iter_from :: "bytes \<Rightarrow> nat \<Rightarrow> (u16 \<times> bytes) list" where
  "av_iter_from bs at =
     (case slice_at bs at 4 of
        None \<Rightarrow> []
      | Some hdr \<Rightarrow>
          (let av = u16_le (hdr ! 0) (hdr ! 1);
               len = unat (u16_le (hdr ! 2) (hdr ! 3))
           in case slice_at bs (at + 4) len of
                None \<Rightarrow> []
              | Some v \<Rightarrow> (av, v) # av_iter_from bs (at + (4 + len))))"
  by pat_completeness auto

termination
  by (relation "measure (\<lambda>(bs, at). length bs - at)") (auto simp: slice_at_Some_iff)

declare av_iter_from.simps [simp del]

definition av_iter :: "av_pairs \<Rightarrow> (u16 \<times> bytes) list" where
  "av_iter p = av_iter_from (take (av_end p) (av_bytes p)) 0"

definition as_sent :: "av_pairs \<Rightarrow> bytes" where
  "as_sent p = take (av_end p + 4) (av_bytes p)"

definition av_get :: "av_pairs \<Rightarrow> u16 \<Rightarrow> bytes option" where
  "av_get p av = map_option snd (find (\<lambda>(found, _). found = av) (av_iter p))"

definition av_timestamp :: "av_pairs \<Rightarrow> bytes option" where
  "av_timestamp p = Option.bind (av_get p AV_TIMESTAMP) (\<lambda>v. if length v = 8 then Some v else None)"

text \<open>One turn of the loop of \<open>with_mic_flag\<close>.\<close>

definition is_flags :: "u16 \<times> bytes \<Rightarrow> bool" where
  "is_flags p \<longleftrightarrow> fst p = AV_FLAGS \<and> length (snd p) = 4"

definition mic_pair :: "u16 \<times> bytes \<Rightarrow> bytes" where
  "mic_pair p =
     le16 (fst p) @ le16 (of_nat (length (snd p)))
     @ (if is_flags p then le32 (le32_at (snd p) 0 OR AV_FLAG_MIC_PROVIDED) else snd p)"

definition with_mic_flag :: "av_pairs \<Rightarrow> bytes" where
  "with_mic_flag p =
     (let (out, had_flags) =
            foldl (\<lambda>(out, had_flags) pr. (out @ mic_pair pr, had_flags \<or> is_flags pr)) ([], False) (av_iter p);
          out = (if had_flags then out
                 else out @ le16 AV_FLAGS @ le16 4 @ le32 AV_FLAG_MIC_PROVIDED)
      in out @ le16 AV_EOL @ le16 0)"

section \<open>CHALLENGE\<close>

record challenge =
  ch_flags :: u32
  ch_server_challenge :: bytes
  ch_target_info :: av_pairs
  ch_raw :: bytes

definition challenge_parse :: "bytes \<Rightarrow> ntlm_error + challenge" where
  "challenge_parse m =
     (if length m < 12 \<or> take 8 m \<noteq> SIGNATURE then Inl NotNtlm
      else if le32_at m 8 \<noteq> MESSAGE_CHALLENGE
      then Inl (UnexpectedMessageType MESSAGE_CHALLENGE (le32_at m 8))
      else if length m < CHALLENGE_MIN_LEN then Inl (NtlmTruncated ''fixed fields'' (length m))
      else if le32_at m 20 AND NEGOTIATE_EXTENDED_SESSIONSECURITY = 0 then Inl NoExtendedSessionSecurity
      else
        rbind (field_bytes m 12 ''TargetName'') (\<lambda>_.
        rbind (field_bytes m 40 ''TargetInfo'') (\<lambda>info.
        rbind (av_parse info) (\<lambda>pairs.
        Inr \<lparr>ch_flags = le32_at m 20, ch_server_challenge = take 8 (drop 24 m),
             ch_target_info = pairs, ch_raw = m\<rparr>))))"

section \<open>AUTHENTICATE\<close>

record client_values =
  cv_client_challenge :: bytes
  cv_exported_session_key :: bytes
  cv_timestamp :: bytes

text \<open>
  \<open>filetime_now\<close> at a clock reading in nanoseconds of the Unix epoch.  The division of an
  \<open>i128\<close> truncates towards zero; the sum of a 128-bit clock reading cannot wrap in any year the
  clock can hold.
\<close>

definition filetime_at :: "int \<Rightarrow> bytes" where
  "filetime_at unix_nanos =
     (let ticks = sgn unix_nanos * (\<bar>unix_nanos\<bar> div 100) + FILETIME_EPOCH_OFFSET
      in le64 (of_int (max 0 (min ticks (2 ^ 64 - 1)))))"

text \<open>\<open>fresh\<close>: the entropy source fails, or fills the two buffers.\<close>

definition client_values_fresh :: "(bytes \<times> bytes) option \<Rightarrow> int \<Rightarrow> client_values option" where
  "client_values_fresh entropy now =
     map_option (\<lambda>(nonce, key). \<lparr>cv_client_challenge = nonce, cv_exported_session_key = key,
                                  cv_timestamp = filetime_at now\<rparr>) entropy"

record authenticated =
  au_message :: bytes
  au_exported_session_key :: bytes

definition authenticate :: "primitives \<Rightarrow> bytes \<Rightarrow> challenge \<Rightarrow> credentials \<Rightarrow> client_values \<Rightarrow> authenticated" where
  "authenticate pr negotiate ch creds cv =
     (let response_key = ntowf_v2 pr creds;
          server_timestamp = av_timestamp (ch_target_info ch);
          with_mic = server_timestamp \<noteq> None;
          stamp = (case server_timestamp of Some t \<Rightarrow> t | None \<Rightarrow> cv_timestamp cv);
          header_len = (if with_mic then MIC_OFFSET + DIGEST_LEN else AUTHENTICATE_HEADER_LEN);
          av = (if with_mic then with_mic_flag (ch_target_info ch) else as_sent (ch_target_info ch));
          temp = [1, 1, 0, 0, 0, 0, 0, 0] @ stamp @ cv_client_challenge cv @ [0, 0, 0, 0] @ av @ [0, 0, 0, 0];
          nt_proof = pr_hmac_md5 pr response_key (ch_server_challenge ch @ temp);
          nt_response = nt_proof @ temp;
          key_exchange_key = pr_hmac_md5 pr response_key nt_proof;
          encrypted_session_key = pr_rc4 pr key_exchange_key (cv_exported_session_key cv);
          domain = ntlm_utf16 (cr_domain creds);
          user = ntlm_utf16 (cr_user creds);
          m = replicate header_len 0;
          m = write_at 0 SIGNATURE m;
          m = write_at 8 (le32 MESSAGE_AUTHENTICATE) m;
          m = write_at 60 (le32 NEGOTIATE_FLAGS) m;
          (m, payload) =
            put_field 52 header_len encrypted_session_key
              (put_field 20 header_len nt_response
                (put_field 12 header_len (replicate 24 0)
                  (put_field 44 header_len []
                    (put_field 36 header_len user
                      (put_field 28 header_len domain (m, []))))));
          m = m @ payload;
          m = (if with_mic
               then write_at MIC_OFFSET (pr_hmac_md5 pr (cv_exported_session_key cv) (negotiate @ ch_raw ch @ m)) m
               else m)
      in \<lparr>au_message = m, au_exported_session_key = cv_exported_session_key cv\<rparr>)"

definition CLIENT_SIGNING :: bytes where
  "CLIENT_SIGNING = utf8 (lit ''session key to client-to-server signing key magic constant'') @ [0]"

definition CLIENT_SEALING :: bytes where
  "CLIENT_SEALING = utf8 (lit ''session key to client-to-server sealing key magic constant'') @ [0]"

definition magic_key :: "primitives \<Rightarrow> bytes \<Rightarrow> bytes \<Rightarrow> bytes" where
  "magic_key pr exported_session_key magic = pr_md5 pr (exported_session_key @ magic)"

definition mech_list_mic :: "primitives \<Rightarrow> authenticated \<Rightarrow> bytes \<Rightarrow> bytes" where
  "mech_list_mic pr au mechs =
     (let signing_key = magic_key pr (au_exported_session_key au) CLIENT_SIGNING;
          sealing_key = magic_key pr (au_exported_session_key au) CLIENT_SEALING;
          signed = le32 0 @ mechs;
          checksum = take 8 (pr_hmac_md5 pr signing_key signed);
          checksum = pr_rc4 pr sealing_key checksum;
          signature = replicate DIGEST_LEN 0;
          signature = write_at 0 (le32 1) signature
      in write_at 4 checksum signature)"

section \<open>The layout of the answer\<close>

definition descriptor :: "nat \<Rightarrow> nat \<Rightarrow> bytes" where
  "descriptor n off = le16 (of_nat n) @ le16 (of_nat n) @ le32 (of_nat off)"

lemma length_descriptor [simp]: "length (descriptor n off) = 8"
  by (simp add: descriptor_def codec_simps)

lemma write_at_mid:
  "length a = i \<Longrightarrow> length z = length y \<Longrightarrow> write_at i y (a @ z @ b) = a @ y @ b"
  by (simp add: write_at_def)

lemma put_field_mid:
  assumes "length a = at"
  shows "put_field at hl v (a @ replicate 8 0 @ b, payload)
    = (a @ descriptor (length v) (hl + length payload) @ b, payload @ v)"
proof -
  let ?n = "le16 (of_nat (length v))" and ?o = "le32 (of_nat (hl + length payload))"
  have z: "replicate 8 (0 :: u8) = replicate 2 0 @ replicate 2 0 @ replicate 4 0"
    by (simp flip: replicate_add)
  have 1: "write_at at ?n (a @ replicate 8 0 @ b) = a @ ?n @ replicate 2 0 @ replicate 4 0 @ b"
    unfolding z using write_at_mid [OF assms, of "replicate 2 0" ?n] by (simp add: codec_simps)
  have 2: "write_at (at + 2) ?n (a @ ?n @ replicate 2 0 @ replicate 4 0 @ b) = a @ ?n @ ?n @ replicate 4 0 @ b"
    using write_at_mid [of "a @ ?n" "at + 2" "replicate 2 0" ?n] assms by (simp add: codec_simps)
  have 3: "write_at (at + 4) ?o (a @ ?n @ ?n @ replicate 4 0 @ b) = a @ ?n @ ?n @ ?o @ b"
    using write_at_mid [of "a @ ?n @ ?n" "at + 4" "replicate 4 0" ?o] assms by (simp add: codec_simps)
  show ?thesis by (simp add: put_field_def Let_def 1 2 [simplified] 3 [simplified] descriptor_def)
qed

text \<open>The fixed part of an AUTHENTICATE message: the descriptors of its six blocks, in their places.\<close>

definition auth_head :: "nat \<Rightarrow> bytes \<Rightarrow> bytes \<Rightarrow> bytes \<Rightarrow> bytes \<Rightarrow> bytes" where
  "auth_head hl domain user nt key =
     (let at = hl + length domain + length user in
      SIGNATURE @ le32 MESSAGE_AUTHENTICATE
      @ descriptor 24 at @ descriptor (length nt) (at + 24) @ descriptor (length domain) hl
      @ descriptor (length user) (hl + length domain) @ descriptor 0 at @ descriptor (length key) (at + 24 + length nt)
      @ le32 NEGOTIATE_FLAGS @ replicate 8 0)"

lemma length_SIGNATURE [simp]: "length SIGNATURE = 8" by (simp add: SIGNATURE_def)

lemma length_auth_head [simp]: "length (auth_head hl domain user nt key) = 72"
  by (simp add: auth_head_def Let_def codec_simps)

lemma auth_layout:
  assumes "hl = 72 + n"
  shows "put_field 52 hl key (put_field 20 hl nt (put_field 12 hl (replicate 24 0) (put_field 44 hl []
      (put_field 36 hl user (put_field 28 hl domain
        (write_at 60 (le32 NEGOTIATE_FLAGS) (write_at 8 (le32 MESSAGE_AUTHENTICATE)
          (write_at 0 SIGNATURE (replicate hl 0))), []))))))
    = (auth_head hl domain user nt key @ replicate n 0, domain @ user @ replicate 24 0 @ nt @ key)"
proof -
  let ?s = SIGNATURE and ?t = "le32 MESSAGE_AUTHENTICATE" and ?f = "le32 NEGOTIATE_FLAGS"
  let ?z = "replicate 8 0 :: bytes" and ?last = "replicate 8 0 @ replicate n 0"
  let ?at = "hl + length domain + length user"
  have z: "replicate hl (0 :: u8) = [] @ ?z @ replicate 4 0 @ ?z @ ?z @ ?z @ ?z @ ?z @ ?z @ replicate 4 0 @ ?last"
    unfolding assms by (simp flip: replicate_add)
  have s: "write_at 0 ?s (replicate hl 0) = ?s @ replicate 4 0 @ ?z @ ?z @ ?z @ ?z @ ?z @ ?z @ replicate 4 0 @ ?last"
    unfolding z by (subst write_at_mid) simp_all
  have t: "write_at 8 ?t (write_at 0 ?s (replicate hl 0))
      = (?s @ ?t @ ?z @ ?z @ ?z @ ?z @ ?z @ ?z) @ replicate 4 0 @ ?last"
    unfolding s by (subst write_at_mid) (simp_all add: codec_simps)
  have f: "write_at 60 ?f (write_at 8 ?t (write_at 0 ?s (replicate hl 0)))
      = (?s @ ?t @ ?z @ ?z) @ ?z @ ?z @ ?z @ ?z @ ?f @ ?last"
    unfolding t by (subst write_at_mid) (simp_all add: codec_simps)
  have p28: "put_field 28 hl domain ((?s @ ?t @ ?z @ ?z) @ ?z @ ?z @ ?z @ ?z @ ?f @ ?last, [])
      = ((?s @ ?t @ ?z @ ?z @ descriptor (length domain) hl) @ ?z @ ?z @ ?z @ ?f @ ?last, domain)"
    by (subst put_field_mid) (simp_all add: codec_simps)
  have p36: "put_field 36 hl user ((?s @ ?t @ ?z @ ?z @ descriptor (length domain) hl) @ ?z @ ?z @ ?z @ ?f @ ?last, domain)
      = ((?s @ ?t @ ?z @ ?z @ descriptor (length domain) hl @ descriptor (length user) (hl + length domain)) @ ?z @ ?z @ ?f @ ?last,
         domain @ user)"
    by (subst put_field_mid) (simp_all add: codec_simps)
  have p44: "put_field 44 hl [] ((?s @ ?t @ ?z @ ?z @ descriptor (length domain) hl @ descriptor (length user) (hl + length domain))
        @ ?z @ ?z @ ?f @ ?last, domain @ user)
      = ((?s @ ?t) @ ?z @ ?z @ descriptor (length domain) hl @ descriptor (length user) (hl + length domain) @ descriptor 0 ?at @ ?z @ ?f @ ?last,
         domain @ user)"
    by (subst put_field_mid) (simp_all add: codec_simps algebra_simps)
  have p12: "put_field 12 hl (replicate 24 0) ((?s @ ?t) @ ?z @ ?z @ descriptor (length domain) hl
        @ descriptor (length user) (hl + length domain) @ descriptor 0 ?at @ ?z @ ?f @ ?last, domain @ user)
      = ((?s @ ?t @ descriptor 24 ?at) @ ?z @ descriptor (length domain) hl @ descriptor (length user) (hl + length domain)
        @ descriptor 0 ?at @ ?z @ ?f @ ?last, domain @ user @ replicate 24 0)"
    by (subst put_field_mid) (simp_all add: codec_simps algebra_simps)
  have p20: "put_field 20 hl nt ((?s @ ?t @ descriptor 24 ?at) @ ?z @ descriptor (length domain) hl
        @ descriptor (length user) (hl + length domain) @ descriptor 0 ?at @ ?z @ ?f @ ?last, domain @ user @ replicate 24 0)
      = ((?s @ ?t @ descriptor 24 ?at @ descriptor (length nt) (?at + 24) @ descriptor (length domain) hl
        @ descriptor (length user) (hl + length domain) @ descriptor 0 ?at) @ ?z @ ?f @ ?last, domain @ user @ replicate 24 0 @ nt)"
    by (subst put_field_mid) (simp_all add: codec_simps algebra_simps)
  show ?thesis
    unfolding f p28 p36 p44 p12 p20
    by (subst put_field_mid) (simp_all add: codec_simps auth_head_def Let_def algebra_simps)
qed

lemma field_desc:
  assumes "length a = at" "n < 65536" "off < 2 ^ 32" "slice_at (a @ descriptor n off @ b) off n = Some v"
  shows "field_bytes (a @ descriptor n off @ b) at name = Inr v"
proof -
  have s: "slice_at (a @ descriptor n off @ b) at 8 = Some (descriptor n off)"
    using assms(1) by (simp add: slice_at_append)
  have n: "unat (u16_le (descriptor n off ! 0) (descriptor n off ! 1)) = n"
    using assms(2) by (simp add: descriptor_def le16_def u16_le_le16 unat_of_nat)
  have o: "unat (le32_at (descriptor n off) 4) = off"
    using assms(3) by (simp add: le32_at_def descriptor_def le16_def le32_def u32_le_le32 unat_of_nat)
  show ?thesis by (simp add: field_bytes_def ntlm_field_def s n [unfolded One_nat_def] o assms(4))
qed

text \<open>Each block of an AUTHENTICATE message is what its descriptor points at.\<close>

lemma auth_fields:
  assumes "length mic = n" "length (auth_head (72 + n) domain user nt key @ mic @ domain @ user @ replicate 24 0 @ nt @ key) < 65536"
  shows "field_bytes (auth_head (72 + n) domain user nt key @ mic @ domain @ user @ replicate 24 0 @ nt @ key) 28 s = Inr domain"
    "field_bytes (auth_head (72 + n) domain user nt key @ mic @ domain @ user @ replicate 24 0 @ nt @ key) 36 s = Inr user"
    "field_bytes (auth_head (72 + n) domain user nt key @ mic @ domain @ user @ replicate 24 0 @ nt @ key) 20 s = Inr nt"
    "field_bytes (auth_head (72 + n) domain user nt key @ mic @ domain @ user @ replicate 24 0 @ nt @ key) 52 s = Inr key"
proof -
  let ?hl = "72 + n"
  let ?at = "?hl + length domain + length user"
  let ?h = "auth_head ?hl domain user nt key"
  let ?m = "?h @ mic @ domain @ user @ replicate 24 0 @ nt @ key"
  have small: "length domain < 65536" "length user < 65536" "length nt < 65536" "length key < 65536"
    "?at + 24 + length nt < 2 ^ 32"
    using assms by simp_all
  have s28: "slice_at ?m ?hl (length domain) = Some domain"
    using slice_at_append [of "?h @ mic" ?hl domain _ "user @ replicate 24 0 @ nt @ key"] assms(1) by simp
  have s36: "slice_at ?m (?hl + length domain) (length user) = Some user"
    using slice_at_append [of "?h @ mic @ domain" "?hl + length domain" user _ "replicate 24 0 @ nt @ key"] assms(1) by simp
  have s20: "slice_at ?m (?at + 24) (length nt) = Some nt"
    using slice_at_append [of "?h @ mic @ domain @ user @ replicate 24 0" "?at + 24" nt _ key] assms(1) by simp
  have s52: "slice_at ?m (?at + 24 + length nt) (length key) = Some key"
    using slice_at_append_end [of "?h @ mic @ domain @ user @ replicate 24 0 @ nt" "?at + 24 + length nt" key] assms(1)
    by simp
  note parts = auth_head_def Let_def append_assoc
  show "field_bytes ?m 28 s = Inr domain"
    using field_desc [of "SIGNATURE @ le32 MESSAGE_AUTHENTICATE @ descriptor 24 ?at @ descriptor (length nt) (?at + 24)" 28]
      s28 small by (simp add: auth_head_def Let_def codec_simps)
  show "field_bytes ?m 36 s = Inr user"
    using field_desc [of "SIGNATURE @ le32 MESSAGE_AUTHENTICATE @ descriptor 24 ?at @ descriptor (length nt) (?at + 24)
        @ descriptor (length domain) ?hl" 36] s36 small by (simp add: auth_head_def Let_def codec_simps)
  show "field_bytes ?m 20 s = Inr nt"
    using field_desc [of "SIGNATURE @ le32 MESSAGE_AUTHENTICATE @ descriptor 24 ?at" 20]
      s20 small by (simp add: auth_head_def Let_def codec_simps)
  show "field_bytes ?m 52 s = Inr key"
    using field_desc [of "SIGNATURE @ le32 MESSAGE_AUTHENTICATE @ descriptor 24 ?at @ descriptor (length nt) (?at + 24)
        @ descriptor (length domain) ?hl @ descriptor (length user) (?hl + length domain) @ descriptor 0 ?at" 52]
      s52 small by (simp add: auth_head_def Let_def codec_simps)
qed

section \<open>Pairs\<close>

definition av_pair :: "u16 \<times> bytes \<Rightarrow> bytes" where
  "av_pair p = le16 (fst p) @ le16 (of_nat (length (snd p))) @ snd p"

definition av_wire :: "(u16 \<times> bytes) list \<Rightarrow> bytes" where
  "av_wire ps = concat (map av_pair ps)"

definition av_ok :: "u16 \<times> bytes \<Rightarrow> bool" where
  "av_ok p \<longleftrightarrow> fst p \<noteq> AV_EOL \<and> length (snd p) < 65536"

lemma av_wire_simps [simp]: "av_wire [] = []" "av_wire (p # ps) = av_pair p @ av_wire ps"
  "av_wire (ps @ qs) = av_wire ps @ av_wire qs"
  by (simp_all add: av_wire_def)

lemma length_av_pair [simp]: "length (av_pair p) = 4 + length (snd p)"
  by (simp add: av_pair_def codec_simps)

lemma pair_header:
  assumes "length (snd p) < 65536"
  shows "slice_at (pre @ av_pair p @ rest) (length pre) 4 = Some (le16 (fst p) @ le16 (of_nat (length (snd p))))"
    "u16_le ((le16 (fst p) @ le16 (of_nat (length (snd p)))) ! 0) ((le16 (fst p) @ le16 (of_nat (length (snd p)))) ! 1) = fst p"
    "unat (u16_le ((le16 (fst p) @ le16 (of_nat (length (snd p)))) ! 2) ((le16 (fst p) @ le16 (of_nat (length (snd p)))) ! 3))
      = length (snd p)"
  using assms
  by (simp_all add: slice_at_def av_pair_def le16_def u16_le_le16 unat_of_nat)

lemma av_iter_from_wire:
  "list_all av_ok ps \<Longrightarrow> av_iter_from (pre @ av_wire ps) (length pre) = ps"
proof (induction ps arbitrary: pre)
  case Nil
  then show ?case by (subst av_iter_from.simps) (simp add: slice_at_def)
next
  case (Cons p ps)
  have ok: "length (snd p) < 65536" using Cons.prems by (simp add: av_ok_def)
  have v: "slice_at (pre @ av_pair p @ av_wire ps) (length pre + 4) (length (snd p)) = Some (snd p)"
    using slice_at_append [of "pre @ le16 (fst p) @ le16 (of_nat (length (snd p)))" "length pre + 4" "snd p" _ "av_wire ps"]
    by (simp add: av_pair_def codec_simps)
  have next': "av_iter_from (pre @ av_pair p @ av_wire ps) (length pre + (4 + length (snd p))) = ps"
    using Cons.IH [of "pre @ av_pair p"] Cons.prems by simp
  show ?case
    unfolding av_wire_simps
    by (subst av_iter_from.simps) (simp only: pair_header [OF ok] option.case Let_def v next' prod.collapse)
qed

lemma av_parse_from_wire:
  assumes "av_parse_from bs at = Inr e" "at \<le> length bs"
  shows "\<exists>ps. at \<le> e \<and> e + 4 \<le> length bs \<and> take e bs = take at bs @ av_wire ps \<and> list_all av_ok ps
    \<and> take 2 (drop e bs) = le16 AV_EOL"
  using assms
proof (induction bs at rule: av_parse_from.induct)
  case (1 bs at)
  obtain hdr where hdr: "slice_at bs at 4 = Some hdr"
    using "1.prems"(1) by (subst (asm) av_parse_from.simps) (auto split: option.splits)
  define av where "av = u16_le (hdr ! 0) (hdr ! 1)"
  define len where "len = unat (u16_le (hdr ! 2) (hdr ! 3))"
  obtain a b c d where h: "hdr = [a, b, c, d]"
    using slice_at_length [OF hdr] by (auto simp: length_Suc_conv numeral_eq_Suc)
  have at: "at + 4 \<le> length bs" "take 4 (drop at bs) = hdr" using hdr by (auto simp: slice_at_Some_iff)
  have words: "le16 av = [a, b]" "le16 (of_nat len) = [c, d]"
    by (simp_all add: av_def len_def h le16_u16_le)
  have step: "av_parse_from bs at = (if length bs < at + 4 + len then Inl (MalformedAvPairs at)
      else if av = AV_EOL then Inr at else av_parse_from bs (at + 4 + len))"
    by (subst av_parse_from.simps) (simp add: hdr av_def len_def)
  then have fits: "at + 4 + len \<le> length bs" using "1.prems"(1) by (auto split: if_splits)
  show ?case
  proof (cases "av = AV_EOL")
    case True
    then have "e = at" using step fits "1.prems"(1) by simp
    moreover have "take 2 (drop at bs) = take 2 hdr" unfolding at(2) [symmetric] by simp
    ultimately show ?thesis using at True words(1) by (intro exI [of _ "[]"]) (simp add: h)
  next
    case False
    then have rest: "av_parse_from bs (at + 4 + len) = Inr e" using step fits "1.prems"(1) by simp
    obtain ps where ps: "at + 4 + len \<le> e" "e + 4 \<le> length bs" "take e bs = take (at + 4 + len) bs @ av_wire ps"
      "list_all av_ok ps" "take 2 (drop e bs) = le16 AV_EOL"
      using "1.IH" [OF hdr av_def len_def refl _ False rest fits] fits by auto
    let ?v = "take len (drop (at + 4) bs)"
    have "take (at + 4 + len) bs = take at bs @ take 4 (drop at bs) @ ?v"
      by (simp add: take_add)
    then have "take (at + 4 + len) bs = take at bs @ av_pair (av, ?v)"
      using fits words by (simp add: at(2) h av_pair_def)
    moreover have "len < 65536" using unsigned_less [of "u16_le (hdr ! 2) (hdr ! 3)"] by (simp add: len_def)
    then have "av_ok (av, ?v)" using False by (simp add: av_ok_def)
    ultimately show ?thesis
      using ps by (intro exI [of _ "(av, ?v) # ps"]) simp
  qed
qed

text \<open>A list that was accepted is exactly the pairs the iterator yields, and then the terminator.\<close>

lemma av_parse_exact:
  assumes "av_parse bs = Inr p"
  shows "av_bytes p = bs" "av_end p + 4 \<le> length bs" "take (av_end p) bs = av_wire (av_iter p)"
    "list_all av_ok (av_iter p)" "take 2 (drop (av_end p) bs) = le16 AV_EOL"
proof -
  obtain e where e: "av_parse_from bs 0 = Inr e" "p = \<lparr>av_bytes = bs, av_end = e\<rparr>"
    using assms by (auto simp: av_parse_def rbind_Inr_iff)
  obtain ps where ps: "e + 4 \<le> length bs" "take e bs = av_wire ps" "list_all av_ok ps"
    "take 2 (drop e bs) = le16 AV_EOL"
    using av_parse_from_wire [OF e(1)] by auto
  have "av_iter p = ps" using av_iter_from_wire [OF ps(3), of "[]"] by (simp add: av_iter_def e(2) ps(2))
  then show "av_bytes p = bs" "av_end p + 4 \<le> length bs" "take (av_end p) bs = av_wire (av_iter p)"
    "list_all av_ok (av_iter p)" "take 2 (drop (av_end p) bs) = le16 AV_EOL"
    using ps by (simp_all add: e(2))
qed

text \<open>What a reader of a list sees: the pairs in front of the terminator.\<close>

fun pairs_upto :: "nat \<Rightarrow> bytes \<Rightarrow> (u16 \<times> bytes) list" where
  "pairs_upto 0 _ = []"
| "pairs_upto (Suc k) bs =
     (case bs of
        a # b # c # d # rest \<Rightarrow>
          (let n = unat (u16_le c d) in
           if u16_le a b = AV_EOL \<or> length rest < n then []
           else (u16_le a b, take n rest) # pairs_upto k (drop n rest))
      | _ \<Rightarrow> [])"

definition pairs_of :: "bytes \<Rightarrow> (u16 \<times> bytes) list" where
  "pairs_of bs = pairs_upto (length bs) bs"

lemma pairs_upto_wire:
  "list_all av_ok ps \<Longrightarrow> length ps < k \<Longrightarrow> take 2 rest = le16 AV_EOL \<Longrightarrow>
   pairs_upto k (av_wire ps @ rest) = ps"
proof (induction ps arbitrary: k)
  case Nil
  then obtain k' where k: "k = Suc k'" by (cases k) auto
  show ?case using Nil.prems(3)
    by (cases rest rule: remdups_adj.cases)
      (auto simp: k le16_def AV_EOL_def u16_le_def split: list.splits)
next
  case (Cons p ps)
  then obtain k' where k: "k = Suc k'" by (cases k) auto
  have "length (snd p) < 65536" "fst p \<noteq> AV_EOL" using Cons.prems by (simp_all add: av_ok_def)
  then have "unat (of_nat (length (snd p)) :: u16) = length (snd p)" by (simp add: unat_of_nat)
  then show ?case
    using Cons \<open>fst p \<noteq> AV_EOL\<close> by (simp add: k av_pair_def le16_def u16_le_le16)
qed

lemma length_av_wire: "length ps \<le> length (av_wire ps)"
  by (induction ps) auto

lemma pairs_of_wire:
  assumes "list_all av_ok ps" "take 2 rest = le16 AV_EOL"
  shows "pairs_of (av_wire ps @ rest) = ps"
proof -
  have "rest \<noteq> []" using assms(2) by (auto simp: le16_def)
  then have "length ps < length (av_wire ps @ rest)"
    using length_av_wire [of ps] by (cases rest) simp_all
  then show ?thesis unfolding pairs_of_def by (rule pairs_upto_wire [OF assms(1) _ assms(2)])
qed

definition claims_mic :: "(u16 \<times> bytes) list \<Rightarrow> bool" where
  "claims_mic ps \<longleftrightarrow> list_ex (\<lambda>p. is_flags p \<and> le32_at (snd p) 0 AND AV_FLAG_MIC_PROVIDED \<noteq> 0) ps"

definition marked :: "u16 \<times> bytes \<Rightarrow> u16 \<times> bytes" where
  "marked p = (if is_flags p then (fst p, le32 (le32_at (snd p) 0 OR AV_FLAG_MIC_PROVIDED)) else p)"

definition with_claim :: "(u16 \<times> bytes) list \<Rightarrow> (u16 \<times> bytes) list" where
  "with_claim ps =
     map marked ps @ (if list_ex is_flags ps then [] else [(AV_FLAGS, le32 AV_FLAG_MIC_PROVIDED)])"

lemma mic_pair_marked: "mic_pair p = av_pair (marked p)"
  by (auto simp: mic_pair_def av_pair_def marked_def is_flags_def codec_simps)

lemma with_mic_flag_wire:
  "with_mic_flag p = av_wire (with_claim (av_iter p)) @ le16 AV_EOL @ le16 0"
proof -
  have "foldl (\<lambda>(out, had) pr. (out @ mic_pair pr, had \<or> is_flags pr)) (out, had) ps
      = (out @ av_wire (map marked ps), had \<or> list_ex is_flags ps)" for out had ps
    by (induction ps arbitrary: out had) (auto simp: mic_pair_marked)
  then show ?thesis
    by (simp add: with_mic_flag_def with_claim_def av_pair_def codec_simps)
qed

lemma with_claim_ok: "list_all av_ok ps \<Longrightarrow> list_all av_ok (with_claim ps)"
proof -
  have "av_ok p \<Longrightarrow> av_ok (marked p)" for p by (simp add: av_ok_def marked_def is_flags_def AV_FLAGS_def AV_EOL_def codec_simps)
  moreover have "av_ok (AV_FLAGS, le32 AV_FLAG_MIC_PROVIDED)"
    by (simp add: av_ok_def AV_FLAGS_def AV_EOL_def codec_simps)
  ultimately show "list_all av_ok ps \<Longrightarrow> list_all av_ok (with_claim ps)"
    by (simp add: with_claim_def list_all_iff)
qed

lemma le32_at_le32: "le32_at (le32 w) 0 = w"
  by (simp add: le32_at_def le32_def u32_le_le32)

lemma mic_bit: "(w OR AV_FLAG_MIC_PROVIDED) AND AV_FLAG_MIC_PROVIDED = AV_FLAG_MIC_PROVIDED"
  by (rule bit_word_eqI) (auto simp: bit_and_iff bit_or_iff)

lemma mic_provided_nonzero: "AV_FLAG_MIC_PROVIDED \<noteq> 0"
  by (simp add: AV_FLAG_MIC_PROVIDED_def)

lemma claims_with_claim: "claims_mic (with_claim ps)"
proof (cases "list_ex is_flags ps")
  case True
  then obtain p where p: "p \<in> set ps" "is_flags p" by (auto simp: list_ex_iff)
  then have "is_flags (marked p) \<and> le32_at (snd (marked p)) 0 AND AV_FLAG_MIC_PROVIDED \<noteq> 0"
    by (simp add: marked_def is_flags_def le32_at_le32 mic_bit mic_provided_nonzero codec_simps)
  then show ?thesis using p(1) by (auto simp: claims_mic_def with_claim_def list_ex_iff)
next
  case False
  then show ?thesis
    by (simp add: claims_mic_def with_claim_def is_flags_def le32_at_le32 codec_simps AV_FLAG_MIC_PROVIDED_def)
qed

text \<open>
  What a server does with the answer to its challenge \<open>raw\<close> (the specification's side of the
  exchange, with the key \<open>key\<close> it holds for the account): it finds the blocks, checks the proof
  over its own nonce, recovers the session key, reads the pairs and, where they claim an integrity
  code, checks the code over the three messages with its own field zeroed.
\<close>

definition nt_verify ::
  "primitives \<Rightarrow> bytes \<Rightarrow> bytes \<Rightarrow> bytes \<Rightarrow> bytes \<Rightarrow> (bytes \<times> bytes \<times> bytes \<times> (u16 \<times> bytes) list) option" where
  "nt_verify pr key negotiate raw m =
     (case (field_bytes m 28 ''domain'', field_bytes m 36 ''user'', field_bytes m 20 ''nt'', field_bytes m 52 ''key'') of
        (Inr domain, Inr user, Inr nt, Inr enc) \<Rightarrow>
          (let proof = take 16 nt; temp = drop 16 nt;
               session = pr_rc4 pr (pr_hmac_md5 pr key proof) enc;
               ps = pairs_of (drop 28 temp)
           in if take 8 m = SIGNATURE \<and> le32_at m 8 = MESSAGE_AUTHENTICATE
                 \<and> proof = pr_hmac_md5 pr key (take 8 (drop 24 raw) @ temp)
                 \<and> (if claims_mic ps
                    then take 16 (drop 72 m)
                         = pr_hmac_md5 pr session (negotiate @ raw @ take 72 m @ replicate 16 0 @ drop 88 m)
                    else True)
              then Some (user, domain, session, ps) else None)
      | _ \<Rightarrow> None)"

text \<open>What the digests and the cipher are documented to do.\<close>

definition primitives_ok :: "primitives \<Rightarrow> bool" where
  "primitives_ok pr \<longleftrightarrow>
     (\<forall>k m. length (pr_hmac_md5 pr k m) = 16) \<and> (\<forall>m. length (pr_md4 pr m) = 16) \<and> (\<forall>m. length (pr_md5 pr m) = 16)
     \<and> (\<forall>k b. length (pr_rc4 pr k b) = length b) \<and> (\<forall>k b. pr_rc4 pr k (pr_rc4 pr k b) = b)"

definition values_ok :: "client_values \<Rightarrow> bool" where
  "values_ok cv \<longleftrightarrow> length (cv_client_challenge cv) = 8 \<and> length (cv_exported_session_key cv) = 16
     \<and> length (cv_timestamp cv) = 8"

definition pairs_sent :: "challenge \<Rightarrow> (u16 \<times> bytes) list" where
  "pairs_sent ch =
     (let ps = av_iter (ch_target_info ch) in
      if av_timestamp (ch_target_info ch) = None then ps else with_claim ps)"

lemma challenge_parse_fields:
  assumes "challenge_parse m = Inr ch"
  shows "48 \<le> length m" "ch_raw ch = m" "ch_server_challenge ch = take 8 (drop 24 m)"
    "\<exists>info. av_parse info = Inr (ch_target_info ch)" "ch_flags ch AND NEGOTIATE_EXTENDED_SESSIONSECURITY \<noteq> 0"
  using assms by (auto simp: challenge_parse_def rbind_Inr_iff CHALLENGE_MIN_LEN_def split: if_splits)

lemma av_timestamp_length: "av_timestamp p = Some t \<Longrightarrow> length t = 8"
  by (auto simp: av_timestamp_def bind_eq_Some_conv split: if_splits)


text \<open>The parts of the answer: the client's blob, its proof, and the blocks behind the header.\<close>

definition nt_temp :: "challenge \<Rightarrow> client_values \<Rightarrow> bytes" where
  "nt_temp ch cv =
     [1, 1, 0, 0, 0, 0, 0, 0]
     @ (case av_timestamp (ch_target_info ch) of Some t \<Rightarrow> t | None \<Rightarrow> cv_timestamp cv)
     @ cv_client_challenge cv @ [0, 0, 0, 0]
     @ (if av_timestamp (ch_target_info ch) \<noteq> None then with_mic_flag (ch_target_info ch) else as_sent (ch_target_info ch))
     @ [0, 0, 0, 0]"

definition nt_proof_of :: "primitives \<Rightarrow> challenge \<Rightarrow> bytes \<Rightarrow> client_values \<Rightarrow> bytes" where
  "nt_proof_of pr ch k cv = pr_hmac_md5 pr k (ch_server_challenge ch @ nt_temp ch cv)"

definition sealed_key :: "primitives \<Rightarrow> challenge \<Rightarrow> bytes \<Rightarrow> client_values \<Rightarrow> bytes" where
  "sealed_key pr ch k cv = pr_rc4 pr (pr_hmac_md5 pr k (nt_proof_of pr ch k cv)) (cv_exported_session_key cv)"

definition auth_blocks :: "bytes \<Rightarrow> bytes \<Rightarrow> bytes \<Rightarrow> bytes \<Rightarrow> bytes" where
  "auth_blocks domain user nt key = domain @ user @ replicate 24 0 @ nt @ key"

lemma authenticate_message:
  fixes pr :: primitives and ch :: challenge and creds :: credentials and cv :: client_values
  assumes "primitives_ok pr"
  defines "k \<equiv> ntowf_v2 pr creds"
  defines "nt \<equiv> nt_proof_of pr ch k cv @ nt_temp ch cv"
  defines "blocks \<equiv> auth_blocks (ntlm_utf16 (cr_domain creds)) (ntlm_utf16 (cr_user creds)) nt (sealed_key pr ch k cv)"
    and "fixed \<equiv> (\<lambda>n. auth_head (72 + n) (ntlm_utf16 (cr_domain creds)) (ntlm_utf16 (cr_user creds)) nt (sealed_key pr ch k cv))"
  shows "au_message (authenticate pr negotiate ch creds cv) =
     (if av_timestamp (ch_target_info ch) \<noteq> None
      then fixed 16 @ pr_hmac_md5 pr (cv_exported_session_key cv)
             (negotiate @ ch_raw ch @ fixed 16 @ replicate 16 0 @ blocks) @ blocks
      else fixed 0 @ blocks)"
proof (cases "av_timestamp (ch_target_info ch)")
  case None
  then show ?thesis
    by (simp add: authenticate_def Let_def auth_layout [of 72 0, simplified] AUTHENTICATE_HEADER_LEN_def fixed_def blocks_def
        nt_def nt_temp_def nt_proof_of_def sealed_key_def auth_blocks_def k_def)
next
  case (Some t)
  have mic: "length (pr_hmac_md5 pr a b) = 16" for a b using assms(1) by (simp add: primitives_ok_def)
  have "write_at 72 (pr_hmac_md5 pr a b) (fixed 16 @ replicate 16 0 @ blocks) = fixed 16 @ pr_hmac_md5 pr a b @ blocks" for a b
    by (rule write_at_mid) (simp_all add: fixed_def mic)
  then show ?thesis
    using Some
    by (simp add: authenticate_def Let_def auth_layout [of 88 16, simplified] MIC_OFFSET_def DIGEST_LEN_def fixed_def blocks_def
        nt_def nt_temp_def nt_proof_of_def sealed_key_def auth_blocks_def k_def)
qed

lemma length_nt_temp_front:
  "values_ok cv \<Longrightarrow> drop 28 (nt_temp ch cv) =
     (if av_timestamp (ch_target_info ch) \<noteq> None then with_mic_flag (ch_target_info ch) else as_sent (ch_target_info ch))
     @ [0, 0, 0, 0]"
  using av_timestamp_length [of "ch_target_info ch"]
  by (auto simp: nt_temp_def values_ok_def split: option.splits)

lemma pairs_in_temp:
  assumes "challenge_parse raw = Inr ch" "values_ok cv"
  shows "pairs_of (drop 28 (nt_temp ch cv)) = pairs_sent ch"
proof -
  let ?p = "ch_target_info ch"
  obtain info where info: "av_parse info = Inr ?p" using challenge_parse_fields(4) [OF assms(1)] by blast
  note p = av_parse_exact [OF info]
  have "as_sent ?p = av_wire (av_iter ?p) @ take 4 (drop (av_end ?p) info)"
    by (simp add: as_sent_def p(1) take_add p(3) [symmetric])
  moreover have "take 2 (take 4 (drop (av_end ?p) info) @ r) = le16 AV_EOL" for r :: bytes
    using p(2,5) by simp
  ultimately have "pairs_of (as_sent ?p @ [0, 0, 0, 0]) = av_iter ?p"
    using pairs_of_wire [OF p(4), of "take 4 (drop (av_end ?p) info) @ [0, 0, 0, 0]"] by simp
  moreover have "pairs_of (with_mic_flag ?p @ [0, 0, 0, 0]) = with_claim (av_iter ?p)"
    using pairs_of_wire [OF with_claim_ok [OF p(4)], of "le16 AV_EOL @ le16 0 @ [0, 0, 0, 0]"]
    by (simp add: with_mic_flag_wire codec_simps)
  ultimately show ?thesis
    by (simp add: length_nt_temp_front [OF assms(2)] pairs_sent_def Let_def)
qed

lemma answer_verifies:
  assumes "primitives_ok pr" "values_ok cv" "challenge_parse raw = Inr ch"
    and "length (au_message (authenticate pr negotiate ch creds cv)) < 65536"
    and "av_timestamp (ch_target_info ch) = None \<Longrightarrow> \<not> claims_mic (av_iter (ch_target_info ch))"
  shows "nt_verify pr (ntowf_v2 pr creds) negotiate raw (au_message (authenticate pr negotiate ch creds cv))
    = Some (ntlm_utf16 (cr_user creds), ntlm_utf16 (cr_domain creds), cv_exported_session_key cv, pairs_sent ch)"
proof -
  define k where "k = ntowf_v2 pr creds"
  define nt where "nt = nt_proof_of pr ch k cv @ nt_temp ch cv"
  define key where "key = sealed_key pr ch k cv"
  define domain where "domain = ntlm_utf16 (cr_domain creds)"
  define user where "user = ntlm_utf16 (cr_user creds)"
  define n :: nat where "n = (if av_timestamp (ch_target_info ch) \<noteq> None then 16 else 0)"
  define fixed where "fixed = auth_head (72 + n) domain user nt key"
  define blocks where "blocks = auth_blocks domain user nt key"
  define mic where "mic = (if n = 16 then pr_hmac_md5 pr (cv_exported_session_key cv)
      (negotiate @ raw @ fixed @ replicate 16 0 @ blocks) else [])"
  note ch = challenge_parse_fields [OF assms(3)]
  have m: "au_message (authenticate pr negotiate ch creds cv) = fixed @ mic @ blocks"
    unfolding authenticate_message [OF assms(1)]
    by (simp add: fixed_def mic_def blocks_def n_def ch(2) nt_def key_def domain_def user_def k_def)
  have len: "length mic = n" "length (nt_proof_of pr ch k cv) = 16"
    using assms(1) by (auto simp: mic_def n_def primitives_ok_def nt_proof_of_def)
  have fit: "length (fixed @ mic @ domain @ user @ replicate 24 0 @ nt @ key) < 65536"
    using assms(4) by (simp add: m blocks_def auth_blocks_def)
  note fields = auth_fields [OF len(1) fit [unfolded fixed_def]]
  have split: "take 16 nt = nt_proof_of pr ch k cv" "drop 16 nt = nt_temp ch cv"
    using len(2) by (simp_all add: nt_def)
  have proof': "nt_proof_of pr ch k cv = pr_hmac_md5 pr k (take 8 (drop 24 raw) @ nt_temp ch cv)"
    by (simp add: nt_proof_of_def ch(3))
  have session: "pr_rc4 pr (pr_hmac_md5 pr k (nt_proof_of pr ch k cv)) key = cv_exported_session_key cv"
    using assms(1) by (simp add: key_def sealed_key_def primitives_ok_def)
  have sig: "take 8 (fixed @ mic @ blocks) = SIGNATURE" "le32_at (fixed @ mic @ blocks) 8 = MESSAGE_AUTHENTICATE"
    by (simp_all add: fixed_def auth_head_def Let_def le32_at_def nth_append le32_def u32_le_le32)
  have code: "take 16 (drop 72 (fixed @ mic @ blocks)) = pr_hmac_md5 pr (cv_exported_session_key cv)
      (negotiate @ raw @ take 72 (fixed @ mic @ blocks) @ replicate 16 0 @ drop 88 (fixed @ mic @ blocks))"
    if "claims_mic (pairs_sent ch)"
  proof -
    have "n = 16" using that assms(5) by (cases "av_timestamp (ch_target_info ch) = None") (simp_all add: n_def pairs_sent_def)
    then show ?thesis using len(1) by (simp add: fixed_def [symmetric] mic_def) (simp add: fixed_def)
  qed
  have "fixed @ mic @ blocks = auth_head (72 + n) domain user nt key @ mic @ domain @ user @ replicate 24 0 @ nt @ key"
    by (simp add: fixed_def blocks_def auth_blocks_def)
  note fields' = fields [folded this]
  have pairs: "pairs_of (drop 28 (nt_temp ch cv)) = pairs_sent ch" by (rule pairs_in_temp [OF assms(3,2)])
  show ?thesis
    unfolding m k_def [symmetric] domain_def [symmetric] user_def [symmetric] nt_verify_def fields' prod.case sum.case Let_def
      split session pairs
    using sig code proof' by simp
qed

text \<open>An instance of the primitives, with which the statements are evaluated.\<close>

definition demo_primitives :: primitives where
  "demo_primitives =
     \<lparr>pr_md4 = resize 16 4, pr_md5 = resize 16 5, pr_hmac_md5 = (\<lambda>k m. resize 16 0 (take 4 k @ drop 2 m)),
      pr_rc4 = (\<lambda>k b. map (\<lambda>x. x XOR 0x5A) b), pr_uppercase = id\<rparr>"

lemma demo_primitives_ok: "primitives_ok demo_primitives"
  by (simp add: primitives_ok_def demo_primitives_def comp_def xor.assoc)

definition demo_values :: client_values where
  "demo_values = \<lparr>cv_client_challenge = replicate 8 0xAA, cv_exported_session_key = replicate 16 0x55,
                   cv_timestamp = filetime_at 0\<rparr>"

text \<open>A challenge with a domain name and a timestamp among its pairs.\<close>

definition demo_challenge :: bytes where
  "demo_challenge =
     SIGNATURE @ le32 2 @ descriptor 0 56 @ le32 NEGOTIATE_FLAGS @ [1, 2, 3, 4, 5, 6, 7, 8] @ replicate 8 0 @ descriptor 22 56
     @ replicate 8 0 @ av_wire [(2, [0x41, 0]), (AV_TIMESTAMP, replicate 8 9)] @ [0, 0, 0, 0]"


lemma length_authenticate:
  assumes "primitives_ok pr" "values_ok cv"
  shows "length (au_message (authenticate pr negotiate ch creds cv))
    = 156 + length (ntlm_utf16 (cr_domain creds)) + length (ntlm_utf16 (cr_user creds)) + length (drop 28 (nt_temp ch cv))
      + (if av_timestamp (ch_target_info ch) \<noteq> None then 16 else 0)"
proof -
  have "28 \<le> length (nt_temp ch cv)"
    using assms(2) av_timestamp_length [of "ch_target_info ch"] by (auto simp: nt_temp_def values_ok_def split: option.splits)
  then show ?thesis
    unfolding authenticate_message [OF assms(1)]
    using assms by (auto simp: auth_blocks_def nt_proof_of_def sealed_key_def primitives_ok_def values_ok_def)
qed

definition demo_pairs :: "(u16 \<times> bytes) list" where
  "demo_pairs = [(2, [0x41, 0]), (AV_TIMESTAMP, replicate 8 9)]"

definition demo_parsed :: challenge where
  "demo_parsed = \<lparr>ch_flags = NEGOTIATE_FLAGS, ch_server_challenge = [1, 2, 3, 4, 5, 6, 7, 8],
     ch_target_info = \<lparr>av_bytes = av_wire demo_pairs @ [0, 0, 0, 0], av_end = 18\<rparr>, ch_raw = demo_challenge\<rparr>"

lemma demo_parse: "challenge_parse demo_challenge = Inr demo_parsed"
  by code_simp

lemma demo_iter: "av_iter (ch_target_info demo_parsed) = demo_pairs"
  by code_simp

lemma demo_timestamp: "av_timestamp (ch_target_info demo_parsed) = Some (replicate 8 9)"
  by (simp add: av_timestamp_def av_get_def demo_iter demo_pairs_def AV_TIMESTAMP_def)

lemma demo_pairs_sent: "pairs_sent demo_parsed = demo_pairs @ [(AV_FLAGS, [2, 0, 0, 0])]"
  by (simp add: pairs_sent_def demo_timestamp demo_iter demo_pairs_def with_claim_def marked_def is_flags_def
      AV_TIMESTAMP_def AV_FLAGS_def AV_FLAG_MIC_PROVIDED_def le32_def)

lemma demo_values_ok: "values_ok demo_values"
  by (simp add: values_ok_def demo_values_def filetime_at_def codec_simps)

lemma demo_length:
  "length (au_message (authenticate demo_primitives negotiate demo_parsed (credentials_new (lit ''u'') (lit ''p'')) demo_values))
   < 1000"
  by (simp add: length_authenticate [OF demo_primitives_ok demo_values_ok] length_nt_temp_front [OF demo_values_ok]
      demo_timestamp with_mic_flag_wire demo_iter demo_pairs_def with_claim_def is_flags_def marked_def
      credentials_new_def ntlm_utf16_def lit_def utf16_char_def codec_simps AV_TIMESTAMP_def AV_FLAGS_def)

text \<open>
  C18. The answer to a challenge verifies at a server that holds the account's key: whatever pairs the
  challenge carried, the server finds the user, the domain and the response where the descriptors
  say, the proof is the one over its own nonce, it recovers the client's session key, it reads back
  every pair it sent (the flags pair with the claim of an integrity code where it sent a timestamp)
  and the code then is right over the three messages as they went.
\<close>

theorem authenticate_verifies:
  assumes "primitives_ok pr" "values_ok cv" "challenge_parse raw = Inr ch"
    and "length (au_message (authenticate pr negotiate ch creds cv)) < 65536"
    and "av_timestamp (ch_target_info ch) = None \<Longrightarrow> \<not> claims_mic (av_iter (ch_target_info ch))"
  shows "nt_verify pr (ntowf_v2 pr creds) negotiate raw (au_message (authenticate pr negotiate ch creds cv))
    = Some (ntlm_utf16 (cr_user creds), ntlm_utf16 (cr_domain creds), cv_exported_session_key cv, pairs_sent ch)"
  by (rule answer_verifies [OF assms])

theorem authenticate_verifies_witness:
  "let creds = credentials_new (lit ''u'') (lit ''p'') in
   nt_verify demo_primitives (ntowf_v2 demo_primitives creds) negotiate_message demo_challenge
     (au_message (authenticate demo_primitives negotiate_message demo_parsed creds demo_values))
   = Some ([0x75, 0], [], replicate 16 0x55, demo_pairs @ [(AV_FLAGS, [2, 0, 0, 0])])"
  unfolding Let_def
  by (subst authenticate_verifies [OF demo_primitives_ok demo_values_ok demo_parse less_trans [OF demo_length]])
    (simp_all add: demo_timestamp demo_pairs_sent credentials_new_def ntlm_utf16_def lit_def utf16_char_def le16_def demo_values_def)
text \<open>
  Two corners.  Where the server sent no av_timestamp its own flags pair travels back as it is, so an
  answer can claim an integrity code it does not carry; and a terminator that declares a length is
  accepted and sent back without its value, a list this reader refuses.
\<close>

lemma claim_without_code:
  "\<exists>p. av_parse [6, 0, 4, 0, 2, 0, 0, 0, 0, 0, 0, 0] = Inr p \<and> av_timestamp p = None \<and> claims_mic (pairs_of (as_sent p))"
  by (rule exI [of _ "\<lparr>av_bytes = [6, 0, 4, 0, 2, 0, 0, 0, 0, 0, 0, 0], av_end = 8\<rparr>"]) code_simp

lemma terminator_with_length:
  "\<exists>p. av_parse [0, 0, 1, 0, 9] = Inr p \<and> av_parse (as_sent p) = Inl (MalformedAvPairs 0)"
  by (rule exI [of _ "\<lparr>av_bytes = [0, 0, 1, 0, 9], av_end = 0\<rparr>"]) code_simp
end
