(* ===== verification/Errors.thy ===== *)
theory Errors
  imports Rap Table Spnego Ntlm
begin

text \<open>
  The crate's error type and its classification (\<open>error.rs\<close>): how a refusal status, a wire
  error and a connection error become one, the kind each reaches and the status it still carries.
  A transport failure is its text, whose kind is the operating system's (a parameter); a boxed
  protocol error is one of the decoders'; an invalid path is the reason it was refused for, its
  wording left out.
\<close>

section \<open>Statuses the classification names\<close>

definition NO_SUCH_FILE :: nt_status where "NO_SUCH_FILE = NtStatus 0xC000000F"
definition OBJECT_NAME_NOT_FOUND :: nt_status where "OBJECT_NAME_NOT_FOUND = NtStatus 0xC0000034"
definition OBJECT_PATH_NOT_FOUND :: nt_status where "OBJECT_PATH_NOT_FOUND = NtStatus 0xC000003A"
definition NOT_FOUND :: nt_status where "NOT_FOUND = NtStatus 0xC0000225"
definition DIRECTORY_NOT_EMPTY :: nt_status where "DIRECTORY_NOT_EMPTY = NtStatus 0xC0000101"
definition NOT_A_DIRECTORY :: nt_status where "NOT_A_DIRECTORY = NtStatus 0xC0000103"
definition FILE_IS_A_DIRECTORY :: nt_status where "FILE_IS_A_DIRECTORY = NtStatus 0xC00000BA"
definition INVALID_HANDLE :: nt_status where "INVALID_HANDLE = NtStatus 0xC0000008"
definition SHARING_VIOLATION :: nt_status where "SHARING_VIOLATION = NtStatus 0xC0000043"
definition OBJECT_NAME_COLLISION :: nt_status where "OBJECT_NAME_COLLISION = NtStatus 0xC0000035"
definition INSUFF_SERVER_RESOURCES :: nt_status where "INSUFF_SERVER_RESOURCES = NtStatus 0xC0000205"
definition NETWORK_NAME_DELETED :: nt_status where "NETWORK_NAME_DELETED = NtStatus 0xC00000C9"

definition STATUS_OBJECT_NAME_EXISTS :: nt_status where "STATUS_OBJECT_NAME_EXISTS = NtStatus 0x40000000"
definition STATUS_PENDING :: nt_status where "STATUS_PENDING = NtStatus 0x00000103"
definition STATUS_DEVICE_NOT_READY :: nt_status where "STATUS_DEVICE_NOT_READY = NtStatus 0xC00000A3"
definition STATUS_NETWORK_BUSY :: nt_status where "STATUS_NETWORK_BUSY = NtStatus 0xC00000BF"
definition STATUS_TOO_MANY_SESSIONS :: nt_status where "STATUS_TOO_MANY_SESSIONS = NtStatus 0xC00000CE"
definition STATUS_RETRY :: nt_status where "STATUS_RETRY = NtStatus 0xC000022D"

text \<open>The nineteen statuses of the permission group, in the order the source defines them.\<close>

definition permission_statuses :: "nt_status list" where
  "permission_statuses = map NtStatus
     [0xC0000022, 0xC0000062, 0xC0000064, 0xC000006A, 0xC000006D, 0xC000006E, 0xC000006F, 0xC0000070,
      0xC0000071, 0xC0000072, 0xC000010B, 0xC0000155, 0xC000015B, 0xC0000193, 0xC0000224, 0xC0000250,
      0xC00002FA, 0xC0000061, 0xC00000CA]"

section \<open>Errors\<close>

datatype path_refusal =
    NoServer
  | Ipv6Literal
  | BadHostChar
  | PortZero
  | NotAPort
  | NoShare
  | NullByte
  | ShareSeparator
  | NotUnc
  | NamesNoShare
  | AbsolutePath
  | EscapesRoot

datatype paging_error = NoProgress u32 | TooManyRounds nat nat

datatype protocol_error =
    PWire wire_error
  | PReassembly reassembly_error
  | PPdu pdu_error
  | PSrvsvc srvsvc_error
  | PRap rap_error
  | PPaging paging_error
  | PSpnego spnego_error
  | PNtlm ntlm_error
  | POverlapping nat nat
    \<comment> \<open>a read chunk's bytes twice: at, length\<close>
  | PNoProgress nat nat
    \<comment> \<open>a write chunk nothing was taken of: at, length\<close>
  | PListing rstr
    \<comment> \<open>a page with no entries that did not end the search: pattern\<close>

datatype error =
    StatusError nt_status
  | TransactionRefused
  | TransactionTooLarge string nat nat
  | ConnectionLost "nt_status option"
  | TreeDisconnected
  | ConnectTimeout
  | RequestTimeout
  | IoError string
  | Protocol protocol_error
  | UnfilledSpan nat nat
  | InvalidPath path_refusal
  | SigningRequired
  | GuestLogon
  | BothAttemptsFailed string error error
    \<comment> \<open>operation, first, second\<close>
  | WritePartial nat error
    \<comment> \<open>written, source\<close>
  | ProgressInUse
  | UnsupportedServer string

text \<open>\<open>io::ErrorKind\<close>, as far as the crate names it; \<open>OtherKind\<close> is \<open>Other\<close>.\<close>

datatype io_kind =
    KNotFound
  | KDirectoryNotEmpty
  | KNotADirectory
  | KIsADirectory
  | KInvalidInput
  | KResourceBusy
  | KAlreadyExists
  | KPermissionDenied
  | KConnectionAborted
  | KNotConnected
  | KTimedOut
  | KInvalidData
  | KUnexpectedEof
  | KUnsupported
  | KOther

definition status_kind :: "nt_status \<Rightarrow> io_kind" where
  "status_kind status =
     (if status \<in> {NO_SUCH_FILE, OBJECT_NAME_NOT_FOUND, OBJECT_PATH_NOT_FOUND, NOT_FOUND} then KNotFound
      else if status = DIRECTORY_NOT_EMPTY then KDirectoryNotEmpty
      else if status = NOT_A_DIRECTORY then KNotADirectory
      else if status = FILE_IS_A_DIRECTORY then KIsADirectory
      else if status = INVALID_HANDLE then KInvalidInput
      else if status = SHARING_VIOLATION then KResourceBusy
      else if status \<in> {OBJECT_NAME_COLLISION, STATUS_OBJECT_NAME_EXISTS} then KAlreadyExists
      else if status \<in> set permission_statuses then KPermissionDenied
      else if status \<in> {STATUS_PENDING, STATUS_RETRY, STATUS_DEVICE_NOT_READY, STATUS_TOO_MANY_SESSIONS,
                        STATUS_NETWORK_BUSY} then KResourceBusy
      else KOther)"

fun error_kind :: "(string \<Rightarrow> io_kind) \<Rightarrow> error \<Rightarrow> io_kind" where
  "error_kind os (StatusError status) = status_kind status"
| "error_kind os TransactionRefused = KOther"
| "error_kind os (TransactionTooLarge _ _ _) = KInvalidInput"
| "error_kind os (InvalidPath _) = KInvalidInput"
| "error_kind os ProgressInUse = KInvalidInput"
| "error_kind os (WritePartial _ src) = error_kind os src"
| "error_kind os (ConnectionLost _) = KConnectionAborted"
| "error_kind os TreeDisconnected = KNotConnected"
| "error_kind os ConnectTimeout = KTimedOut"
| "error_kind os RequestTimeout = KTimedOut"
| "error_kind os (IoError e) = os e"
| "error_kind os (Protocol _) = KInvalidData"
| "error_kind os (UnfilledSpan _ _) = KUnexpectedEof"
| "error_kind os GuestLogon = KPermissionDenied"
| "error_kind os SigningRequired = KUnsupported"
| "error_kind os (UnsupportedServer _) = KUnsupported"
| "error_kind os (BothAttemptsFailed _ _ second) = error_kind os second"

definition refused :: "nt_status \<Rightarrow> error" where
  "refused status =
     (if status = INSUFF_SERVER_RESOURCES then TransactionRefused
      else if status = NETWORK_NAME_DELETED then TreeDisconnected
      else if status = USER_SESSION_DELETED then ConnectionLost (Some status)
      else StatusError status)"

fun error_status :: "error \<Rightarrow> nt_status option" where
  "error_status (StatusError status) = Some status"
| "error_status TransactionRefused = Some INSUFF_SERVER_RESOURCES"
| "error_status TreeDisconnected = Some NETWORK_NAME_DELETED"
| "error_status (ConnectionLost status) = status"
| "error_status (BothAttemptsFailed _ _ second) = error_status second"
| "error_status (WritePartial _ src) = error_status src"
| "error_status _ = None"

text \<open>The two \<open>From\<close> conversions.\<close>

definition from_wire :: "wire_error \<Rightarrow> error" where
  "from_wire e = Protocol (PWire e)"

definition from_connection :: "conn_error \<Rightarrow> error" where
  "from_connection e =
     (case e of
        Io inner \<Rightarrow> IoError inner
      | Wire inner \<Rightarrow> Protocol (PWire inner)
      | Timeout \<Rightarrow> RequestTimeout
      | Reassembly inner \<Rightarrow> Protocol (PReassembly inner)
      | SessionDeleted \<Rightarrow> ConnectionLost (Some USER_SESSION_DELETED)
      | _ \<Rightarrow> ConnectionLost None)"

text \<open>\<open>protocol\<close> and \<open>too_large\<close> of \<open>rpc/mod.rs\<close>.\<close>

definition protocol :: "('e \<Rightarrow> protocol_error) \<Rightarrow> 'e + 'a \<Rightarrow> error + 'a" where
  "protocol box m = map_sum (Protocol \<circ> box) id m"

definition too_large :: "wire_error \<Rightarrow> string \<Rightarrow> error" where
  "too_large e request =
     (case e of
        FieldTooLong field len limit \<Rightarrow>
          if field = ''transaction request'' then TransactionTooLarge request len limit
          else Protocol (PWire e)
      | _ \<Rightarrow> Protocol (PWire e))"

lemma protocol_simps [simp]:
  "protocol box (Inl e) = Inl (Protocol (box e))" "protocol box (Inr x) = Inr x"
  by (simp_all add: protocol_def)

lemma protocol_Inr_iff: "protocol box m = Inr x \<longleftrightarrow> m = Inr x"
  by (cases m) simp_all

text \<open>
  No status is lost on the way to the caller: whatever the server refused with, the error it becomes
  still reports that status, through a second attempt and a partial write alike, and its kind is the
  status's own but for the three refusals that have a meaning of their own.
\<close>

theorem refused_keeps_status:
  "error_status (refused status) = Some status
   \<and> error_status (WritePartial n (refused status)) = Some status
   \<and> error_status (BothAttemptsFailed op first (refused status)) = Some status
   \<and> error_kind os (refused status) =
       (if status = NETWORK_NAME_DELETED then KNotConnected
        else if status = USER_SESSION_DELETED then KConnectionAborted
        else status_kind status)"
  by (simp add: refused_def status_kind_def permission_statuses_def INSUFF_SERVER_RESOURCES_def
      NO_SUCH_FILE_def OBJECT_NAME_NOT_FOUND_def OBJECT_PATH_NOT_FOUND_def NOT_FOUND_def
      DIRECTORY_NOT_EMPTY_def NOT_A_DIRECTORY_def FILE_IS_A_DIRECTORY_def INVALID_HANDLE_def
      SHARING_VIOLATION_def OBJECT_NAME_COLLISION_def NETWORK_NAME_DELETED_def
      STATUS_OBJECT_NAME_EXISTS_def STATUS_PENDING_def STATUS_DEVICE_NOT_READY_def
      STATUS_NETWORK_BUSY_def STATUS_TOO_MANY_SESSIONS_def STATUS_RETRY_def USER_SESSION_DELETED_def)

end
