(* ===== verification/Progress.thy ===== *)
theory Progress
  imports Errors Io Connection Coverage
begin

text \<open>
  What a write reports of itself (\<open>resource/progress.rs\<close>): the acknowledged ranges of one
  write, the group of its chunks, and the signal that the prefix is final.  The handle is shared, so
  each of its operations is one step under the lock; a step relation gives the orders they may come
  in, with the bytes really acknowledged beside them.
\<close>

record write_progress =
  gs_base :: u64
  gs_covered :: coverage
  gs_outstanding :: nat
  gs_issuing :: bool
  gs_registered :: bool
  gs_final_prefix :: "nat option"
  gs_settled :: bool
    \<comment> \<open>the watch channel\<close>

record chunk =
  ck_offset :: u64
  ck_offered :: nat
  ck_applied :: bool

definition progress_new :: write_progress where
  "progress_new =
     \<lparr>gs_base = 0, gs_covered = cov_empty, gs_outstanding = 0, gs_issuing = False, gs_registered = False,
      gs_final_prefix = None, gs_settled = False\<rparr>"

definition written :: "write_progress \<Rightarrow> nat" where
  "written g = (case gs_final_prefix g of Some n \<Rightarrow> n | None \<Rightarrow> prefix_len (gs_covered g))"

definition register :: "u64 \<Rightarrow> write_progress \<Rightarrow> error + write_progress" where
  "register base g =
     (if gs_registered g then Inl ProgressInUse
      else Inr (g\<lparr>gs_registered := True, gs_issuing := True, gs_base := base\<rparr>))"

definition new_chunk :: "u64 \<Rightarrow> nat \<Rightarrow> write_progress \<Rightarrow> chunk \<times> write_progress" where
  "new_chunk off offered g =
     (\<lparr>ck_offset = off, ck_offered = offered, ck_applied = False\<rparr>,
      g\<lparr>gs_outstanding := gs_outstanding g + 1\<rparr>)"

definition settle :: "write_progress \<Rightarrow> write_progress" where
  "settle g =
     (if gs_issuing g \<or> 0 < gs_outstanding g \<or> gs_final_prefix g \<noteq> None then g
      else g\<lparr>gs_final_prefix := Some (prefix_len (gs_covered g)), gs_settled := True\<rparr>)"

text \<open>The guard's drop.\<close>

definition drop_issuing :: "write_progress \<Rightarrow> write_progress" where
  "drop_issuing g = settle (g\<lparr>gs_issuing := False\<rparr>)"

text \<open>\<open>outstanding -= 1\<close> would underflow at zero; \<open>progress_inv\<close> below excludes it.\<close>

definition leave :: "chunk \<Rightarrow> write_progress \<Rightarrow> chunk \<times> write_progress" where
  "leave ck g =
     (if ck_applied ck then (ck, g)
      else (ck\<lparr>ck_applied := True\<rparr>, settle (g\<lparr>gs_outstanding := gs_outstanding g - 1\<rparr>)))"

definition acknowledged :: "reply \<Rightarrow> nat option" where
  "acknowledged r =
     (if reply_status r \<noteq> SUCCESS then None
      else (case write_response_decode (rp_message r) of Inl _ \<Rightarrow> None | Inr w \<Rightarrow> Some (unat (wp_count w))))"

text \<open>The range a reply is recorded as: the count clamped to what the chunk offered.\<close>

definition recorded :: "chunk \<Rightarrow> write_progress \<Rightarrow> conn_error + reply \<Rightarrow> (nat \<times> nat) option" where
  "recorded ck g outcome =
     (case outcome of
        Inl _ \<Rightarrow> None
      | Inr r \<Rightarrow>
          (case acknowledged r of
             None \<Rightarrow> None
           | Some counted \<Rightarrow>
               if 0 < counted
               then Some (if gs_base g \<le> ck_offset ck then unat (ck_offset ck - gs_base g) else 0, min counted (ck_offered ck))
               else None))"

definition ended :: "chunk \<Rightarrow> conn_error + reply \<Rightarrow> write_progress \<Rightarrow> chunk \<times> write_progress" where
  "ended ck outcome g =
     leave ck (case recorded ck g outcome of
                 Some (at, n) \<Rightarrow> g\<lparr>gs_covered := snd (cover at n (gs_covered g))\<rparr>
               | None \<Rightarrow> g)"

definition drop_chunk :: "chunk \<Rightarrow> write_progress \<Rightarrow> chunk \<times> write_progress" where
  "drop_chunk ck g = (if \<not> ck_applied ck then leave ck g else (ck, g))"

section \<open>One write, in any order of its events\<close>

text \<open>
  The handle, the chunks built so far and the positions some reply acknowledged of a chunk that
  carried them.  Chunks are built while the write's guard lives; a chunk whose request ended is
  applied once, by the connection task.
\<close>

type_synonym write_state = "write_progress \<times> chunk list \<times> nat set"

inductive write_event :: "write_state \<Rightarrow> write_state \<Rightarrow> bool" where
  claimed: "register base g = Inr g' \<Longrightarrow> write_event (g, cks, acks) (g', cks, acks)"
| built_chunk: "gs_issuing g \<Longrightarrow> new_chunk off offered g = (ck, g') \<Longrightarrow>
    write_event (g, cks, acks) (g', cks @ [ck], acks)"
| stopped: "gs_issuing g \<Longrightarrow> write_event (g, cks, acks) (drop_issuing g, cks, acks)"
| answered: "i < length cks \<Longrightarrow> \<not> ck_applied (cks ! i) \<Longrightarrow> ended (cks ! i) outcome g = (ck, g') \<Longrightarrow>
    write_event (g, cks, acks)
      (g', cks[i := ck],
       acks \<union> (case recorded (cks ! i) g outcome of Some (at, n) \<Rightarrow> {at..<at + n} | None \<Rightarrow> {}))"
| abandoned: "i < length cks \<Longrightarrow> drop_chunk (cks ! i) g = (ck, g') \<Longrightarrow>
    write_event (g, cks, acks) (g', cks[i := ck], acks)"

inductive_cases write_eventE: "write_event (g, cks, acks) w"

definition unapplied :: "chunk list \<Rightarrow> nat" where
  "unapplied cks = length (filter (\<lambda>ck. \<not> ck_applied ck) cks)"

definition progress_inv :: "write_state \<Rightarrow> bool" where
  "progress_inv w \<longleftrightarrow>
     (case w of (g, cks, acks) \<Rightarrow>
        cov_inv (gs_covered g) \<and> covered (gs_covered g) \<subseteq> acks \<and>
        gs_outstanding g = unapplied cks \<and>
        (gs_issuing g \<longrightarrow> gs_registered g) \<and> (\<not> gs_registered g \<longrightarrow> cks = []) \<and>
        gs_settled g = (gs_registered g \<and> \<not> gs_issuing g \<and> unapplied cks = 0) \<and>
        gs_final_prefix g = (if gs_settled g then Some (prefix_len (gs_covered g)) else None))"

lemma unapplied_update:
  assumes "i < length cks" "\<not> ck_applied (cks ! i)" "ck_applied ck"
  shows "unapplied (cks[i := ck]) = unapplied cks - 1" "0 < unapplied cks"
proof -
  have "cks = take i cks @ cks ! i # drop (Suc i) cks" using assms(1) by (rule id_take_nth_drop)
  moreover have "cks[i := ck] = take i cks @ ck # drop (Suc i) cks" using assms(1) by (rule upd_conv_take_nth_drop)
  moreover have "unapplied (take i cks @ cks ! i # drop (Suc i) cks) =
      Suc (length (filter (\<lambda>ck. \<not> ck_applied ck) (take i cks)) + length (filter (\<lambda>ck. \<not> ck_applied ck) (drop (Suc i) cks)))"
    using assms(2) by (simp add: unapplied_def)
  moreover have "unapplied (take i cks @ ck # drop (Suc i) cks) =
      length (filter (\<lambda>ck. \<not> ck_applied ck) (take i cks)) + length (filter (\<lambda>ck. \<not> ck_applied ck) (drop (Suc i) cks))"
    using assms(3) by (simp add: unapplied_def)
  ultimately show "unapplied (cks[i := ck]) = unapplied cks - 1" "0 < unapplied cks" by simp_all
qed

lemma leave_inv:
  assumes "progress_inv (g, cks, acks)" "i < length cks" "\<not> ck_applied (cks ! i)" "leave (cks ! i) g = (ck, g')"
  shows "progress_inv (g', cks[i := ck], acks)"
proof -
  have ck: "ck = (cks ! i)\<lparr>ck_applied := True\<rparr>" and g': "g' = settle (g\<lparr>gs_outstanding := gs_outstanding g - 1\<rparr>)"
    using assms(3,4) by (auto simp: leave_def)
  have "ck_applied ck" by (simp add: ck)
  note unapplied_update [OF assms(2,3) this]
  then show ?thesis
    using assms(1,2) by (auto simp: progress_inv_def g' settle_def)
qed

lemma record_inv:
  assumes "progress_inv (g, cks, acks)" "0 < unapplied cks"
  shows "progress_inv (g\<lparr>gs_covered := snd (cover at n (gs_covered g))\<rparr>, cks, acks \<union> {at..<at + n})"
  using assms by (auto simp: progress_inv_def cover_spec split: if_splits)

lemma write_event_inv: "write_event w w' \<Longrightarrow> progress_inv w \<Longrightarrow> progress_inv w'"
proof (induction rule: write_event.induct)
  case (claimed base g g' cks acks)
  then show ?case by (auto simp: register_def progress_inv_def unapplied_def split: if_splits)
next
  case (built_chunk g off offered ck g' cks acks)
  then show ?case by (auto simp: new_chunk_def progress_inv_def unapplied_def)
next
  case (stopped g cks acks)
  then show ?case by (auto simp: drop_issuing_def settle_def progress_inv_def)
next
  case (answered i cks outcome g ck g' acks)
  have pos: "0 < unapplied cks"
    using unapplied_update(2) [of i cks "(cks ! i)\<lparr>ck_applied := True\<rparr>"] answered by simp
  show ?case
  proof (cases "recorded (cks ! i) g outcome")
    case None
    then show ?thesis using answered leave_inv [OF answered.prems] by (simp add: ended_def)
  next
    case (Some r)
    obtain at n where r: "r = (at, n)" by (cases r)
    show ?thesis
      using leave_inv [OF record_inv [OF answered.prems pos, of at n]] answered Some r by (simp add: ended_def)
  qed
next
  case (abandoned i cks g ck g' acks)
  then show ?case
    using leave_inv [OF abandoned.prems abandoned.hyps(1)]
    by (cases "ck_applied (cks ! i)") (auto simp: drop_chunk_def)
qed

definition write_runs :: "write_state \<Rightarrow> write_state \<Rightarrow> bool" where
  "write_runs = write_event\<^sup>*\<^sup>*"

lemma progress_inv_new: "progress_inv (progress_new, [], {})"
  by (simp add: progress_inv_def progress_new_def unapplied_def cov_empty_def)

lemma write_runs_inv: "write_runs w w' \<Longrightarrow> progress_inv w \<Longrightarrow> progress_inv w'"
  unfolding write_runs_def by (induction rule: rtranclp_induct) (auto dest: write_event_inv)

lemma covered_grows:
  assumes "write_event (g, cks, acks) (g', cks', acks')" "cov_inv (gs_covered g)"
  shows "covered (gs_covered g) \<subseteq> covered (gs_covered g')"
  using assms
  by cases (auto simp: register_def new_chunk_def drop_issuing_def settle_def ended_def leave_def drop_chunk_def
      cover_spec split: if_splits option.splits)

lemma written_prefix: "progress_inv (g, cks, acks) \<Longrightarrow> written g = prefix_len (gs_covered g)"
  by (auto simp: progress_inv_def written_def split: option.split if_splits)

lemma unapplied_pos: "i < length cks \<Longrightarrow> \<not> ck_applied (cks ! i) \<Longrightarrow> 0 < unapplied cks"
  using unapplied_update(2) [of i cks "(cks ! i)\<lparr>ck_applied := True\<rparr>"] by simp

lemma final_stays:
  assumes ev: "write_event (g, cks, acks) (g', cks', acks')" and inv: "progress_inv (g, cks, acks)" "gs_settled g"
  shows "g' = g"
proof -
  have none: "gs_registered g" "\<not> gs_issuing g" "unapplied cks = 0"
    using inv by (auto simp: progress_inv_def)
  then have applied: "i < length cks \<Longrightarrow> ck_applied (cks ! i)" for i
    using unapplied_pos [of i cks] by auto
  show ?thesis
    using ev none applied
    by (elim write_eventE) (auto simp: register_def drop_chunk_def)
qed

lemma written_grows:
  assumes "write_event (g, cks, acks) (g', cks', acks')" "progress_inv (g, cks, acks)"
  shows "written g \<le> written g'"
proof -
  have inv': "progress_inv (g', cks', acks')" using write_event_inv assms by blast
  then have "cov_inv (gs_covered g)" "cov_inv (gs_covered g')" using assms(2) by (simp_all add: progress_inv_def)
  then show ?thesis
    using cov.front_mono covered_grows [OF assms(1)] written_prefix [OF assms(2)] written_prefix [OF inv'] by simp
qed



lemma write_runs_step: "write_runs w w' \<Longrightarrow> write_event w' w'' \<Longrightarrow> write_runs w w''"
  unfolding write_runs_def by (rule rtranclp.rtrancl_into_rtrancl)

lemma write_runs_refl: "write_runs w w"
  by (simp add: write_runs_def)

text \<open>A write that built one chunk, whose future was dropped before it reached the wire.\<close>

lemma abandoned_write:
  "\<exists>g. write_runs (progress_new, [], {}) (g, [\<lparr>ck_offset = 5, ck_offered = 3, ck_applied = True\<rparr>], {}) \<and>
       gs_settled g \<and> written g = 0"
proof -
  let ?ck = "\<lparr>ck_offset = 5, ck_offered = 3, ck_applied = False\<rparr>"
  let ?g1 = "progress_new\<lparr>gs_registered := True, gs_issuing := True, gs_base := 5\<rparr>"
  let ?g2 = "?g1\<lparr>gs_outstanding := 1\<rparr>"
  let ?g3 = "?g2\<lparr>gs_issuing := False\<rparr>"
  let ?g4 = "?g3\<lparr>gs_outstanding := 0, gs_final_prefix := Some 0, gs_settled := True\<rparr>"
  let ?done = "?ck\<lparr>ck_applied := True\<rparr>"
  have e1: "write_event (progress_new, [], {}) (?g1, [], {})"
    by (rule claimed [of 5]) (simp add: register_def progress_new_def)
  have e2: "write_event (?g1, [], {}) (?g2, [?ck], {})"
    using built_chunk [of ?g1 5 3 ?ck ?g2 "[]" "{}"] by (simp add: new_chunk_def progress_new_def)
  have e3: "write_event (?g2, [?ck], {}) (?g3, [?ck], {})"
    using stopped [of ?g2 "[?ck]" "{}"] by (simp add: drop_issuing_def settle_def)
  have e4: "write_event (?g3, [?ck], {}) (?g4, [?done], {})"
    using abandoned [of 0 "[?ck]" ?g3 ?done ?g4 "{}"]
    by (simp add: drop_chunk_def leave_def settle_def progress_new_def prefix_len_def cov_empty_def)
  have "write_runs (progress_new, [], {}) (?g4, [?done], {})"
    by (rule write_runs_step [OF write_runs_step [OF write_runs_step [OF write_runs_step [OF write_runs_refl e1] e2] e3] e4])
  then show ?thesis by (intro exI [of _ ?g4]) (simp add: written_def)
qed



end
