(* ===== verification/Spans.thy ===== *)
theory Spans
  imports Progress
begin

text \<open>
  The two chunk loops under every read and write (\<open>resource/file.rs\<close>).  A loop keeps the chunks on
  the wire, the spans it has to ask for again and how far it has asked; what it waits for is whichever
  chunk answers first, so a run is a sequence of answers in any order, and between them another
  operation may record the connection small-buffer.
\<close>

unbundle bit_operations_syntax

definition PIPELINE_DEPTH :: nat where "PIPELINE_DEPTH = 4"
definition READ_PIPELINE_THRESHOLD :: nat where "READ_PIPELINE_THRESHOLD = 128 * 1024"
definition WRITE_PIPELINE_THRESHOLD :: nat where "WRITE_PIPELINE_THRESHOLD = 256 * 1024"
definition WRITE_MODE :: u16 where "WRITE_MODE = 0"

definition INVALID_SMB :: nt_status where "INVALID_SMB = NtStatus 0x00010002"
definition INVALID_PARAMETER :: nt_status where "INVALID_PARAMETER = NtStatus 0xC000000D"

definition refuses_the_size :: "nt_status \<Rightarrow> bool" where
  "refuses_the_size status \<longleftrightarrow>
     status = INVALID_SMB \<or> status = INVALID_PARAMETER \<or> status = INSUFF_SERVER_RESOURCES"

record span_chunk =
  sc_start :: nat
  sc_length :: nat
  sc_large :: bool

record span_loop =
  sp_issued :: "span_chunk list"
  sp_queue :: "(nat \<times> nat) list"
    \<comment> \<open>a stack, its top last\<close>
  sp_next :: nat

section \<open>Issuing\<close>

text \<open>
  The next span to ask for: the top of the queue cut to the chunk size, the rest put back, or a chunk
  of what has not been asked for at all.
\<close>

definition next_span :: "nat \<Rightarrow> bool \<Rightarrow> nat \<Rightarrow> span_loop \<Rightarrow> ((nat \<times> nat) \<times> span_loop) option" where
  "next_span csize tail tot sp =
     (if sp_queue sp \<noteq> [] then
        (let (start, len) = last (sp_queue sp); queue = butlast (sp_queue sp); taken = min csize len in
         Some ((start, taken),
           sp\<lparr>sp_queue := (if taken < len then queue @ [(start + taken, len - taken)] else queue)\<rparr>))
      else if tail \<and> sp_next sp < tot then
        (let len = min csize (tot - sp_next sp) in
         Some ((sp_next sp, len), sp\<lparr>sp_next := sp_next sp + len\<rparr>))
      else None)"

text \<open>\<open>while issued.len() < depth\<close>, each chunk large when the connection is not downgraded.\<close>

function issue :: "nat \<Rightarrow> nat \<Rightarrow> bool \<Rightarrow> bool \<Rightarrow> nat \<Rightarrow> span_loop \<Rightarrow> span_loop" where
  "issue depth csize large tail tot sp =
     (if length (sp_issued sp) < depth then
        (case next_span csize tail tot sp of
           None \<Rightarrow> sp
         | Some ((start, len), sp') \<Rightarrow>
             issue depth csize large tail tot
               (sp'\<lparr>sp_issued := sp_issued sp @ [\<lparr>sc_start = start, sc_length = len, sc_large = large\<rparr>]\<rparr>))
      else sp)"
  by pat_completeness auto

termination
  by (relation "measure (\<lambda>(depth, _, _, _, _, sp). depth - length (sp_issued sp))") auto

declare issue.simps [simp del]

section \<open>The read loop\<close>

record fill =
  fl_spans :: span_loop
  fl_buffer :: bytes
  fl_covered :: coverage
  fl_at_end :: bool
  fl_connection :: connection

definition fill_start :: "bytes \<Rightarrow> connection \<Rightarrow> fill" where
  "fill_start buffer c =
     \<lparr>fl_spans = \<lparr>sp_issued = [], sp_queue = [], sp_next = 0\<rparr>, fl_buffer = buffer,
      fl_covered = cov_empty, fl_at_end = False, fl_connection = c\<rparr>"

definition fill_issue :: "nat \<Rightarrow> fill \<Rightarrow> fill" where
  "fill_issue depth fl =
     fl\<lparr>fl_spans := issue depth (max (read_chunk_size (fl_connection fl)) 1)
          (\<not> cn_downgraded (fl_connection fl)) (\<not> fl_at_end fl) (length (fl_buffer fl)) (fl_spans fl)\<rparr>"

text \<open>The request of a chunk.\<close>

definition read_chunk :: "u16 \<Rightarrow> u64 \<Rightarrow> nat \<Rightarrow> read_request" where
  "read_chunk fid at len =
     \<lparr>rr_fid = fid, rr_offset = at, rr_max_count = of_nat len, rr_min_count = 0, rr_remaining = 0\<rparr>"

definition requeue :: "nat \<times> nat \<Rightarrow> span_loop \<Rightarrow> span_loop" where
  "requeue span sp = sp\<lparr>sp_queue := sp_queue sp @ [span]\<rparr>"

text \<open>
  What the loop does with the answer of a chunk it has taken out, and whether the call then fails.
  That a refusal also marks the tree disconnected is the tree's business.
\<close>

definition fill_answer :: "span_chunk \<Rightarrow> error + reply \<Rightarrow> fill \<Rightarrow> (error + unit) \<times> fill" where
  "fill_answer ck answer fl =
     (case answer of
        Inl e \<Rightarrow> (Inl e, fl)
      | Inr reply \<Rightarrow>
          (let status = reply_status reply;
               fl = (if refuses_the_size status
                     then fl\<lparr>fl_connection := record_small_buffer (fl_connection fl)\<rparr> else fl) in
           if refuses_the_size status \<and> sc_large ck then
             (Inr (), fl\<lparr>fl_spans := requeue (sc_start ck, sc_length ck) (fl_spans fl)\<rparr>)
           else if status = END_OF_FILE then (Inr (), fl\<lparr>fl_at_end := True\<rparr>)
           else if status \<noteq> SUCCESS then (Inl (refused status), fl)
           else
             (case read_response_decode (rp_message reply) of
                Inl e \<Rightarrow> (Inl (from_wire e), fl)
              | Inr r \<Rightarrow>
                  (let got = min (length (rp_data r)) (sc_length ck) in
                   if got = 0 then (Inr (), fl\<lparr>fl_at_end := True\<rparr>)
                   else
                     (let fl = fl\<lparr>fl_buffer := write_at (sc_start ck) (take got (rp_data r)) (fl_buffer fl)\<rparr>;
                          (ok, covered) = cover (sc_start ck) got (fl_covered fl);
                          fl = fl\<lparr>fl_covered := covered\<rparr> in
                      if \<not> ok then (Inl (Protocol (POverlapping (sc_start ck) got)), fl)
                      else if got < sc_length ck then
                        (Inr (), fl\<lparr>fl_spans := requeue (sc_start ck + got, sc_length ck - got) (fl_spans fl)\<rparr>)
                      else (Inr (), fl))))))"

text \<open>\<open>issued.remove(index)\<close>, then the answer.\<close>

definition fill_take :: "nat \<Rightarrow> fill \<Rightarrow> fill" where
  "fill_take i fl = fl\<lparr>fl_spans := (fl_spans fl)\<lparr>sp_issued := remove_at i (sp_issued (fl_spans fl))\<rparr>\<rparr>"

section \<open>What is done with a filled span\<close>

definition read_exact_result :: "fill \<Rightarrow> error + unit" where
  "read_exact_result fl =
     (case gap (length (fl_buffer fl)) (fl_covered fl) of
        None \<Rightarrow> Inr ()
      | Some (at, stop) \<Rightarrow> Inl (UnfilledSpan at (stop - at)))"

definition read_to_end_result :: "fill \<Rightarrow> error + bytes" where
  "read_to_end_result fl =
     (let prefix = prefix_len (fl_covered fl) in
      case gap (length (fl_buffer fl)) (fl_covered fl) of
        Some (at, stop) \<Rightarrow>
          if stop < length (fl_buffer fl) then Inl (UnfilledSpan at (stop - at))
          else Inr (take prefix (fl_buffer fl))
      | None \<Rightarrow> Inr (take prefix (fl_buffer fl)))"

definition read_depth :: "nat \<Rightarrow> nat" where
  "read_depth len = (if READ_PIPELINE_THRESHOLD \<le> len then PIPELINE_DEPTH else 1)"

definition write_depth :: "nat \<Rightarrow> nat" where
  "write_depth len = (if WRITE_PIPELINE_THRESHOLD \<le> len then PIPELINE_DEPTH else 1)"

section \<open>The write loop\<close>

record write_loop =
  wl_spans :: span_loop
  wl_failure :: "error option"
  wl_connection :: connection

definition write_start :: "connection \<Rightarrow> write_loop" where
  "write_start c =
     \<lparr>wl_spans = \<lparr>sp_issued = [], sp_queue = [], sp_next = 0\<rparr>, wl_failure = None, wl_connection = c\<rparr>"

definition write_issue :: "nat \<Rightarrow> nat \<Rightarrow> write_loop \<Rightarrow> write_loop" where
  "write_issue depth tot wl =
     (if wl_failure wl \<noteq> None then wl
      else wl\<lparr>wl_spans := issue depth (max (write_chunk_size (wl_connection wl)) 1)
                (\<not> cn_downgraded (wl_connection wl)) True tot (wl_spans wl)\<rparr>)"

definition write_chunk :: "u16 \<Rightarrow> u64 \<Rightarrow> nat \<times> nat \<Rightarrow> bytes \<Rightarrow> write_request" where
  "write_chunk fid off span data =
     (case span of (start, len) \<Rightarrow>
        \<lparr>wr_fid = fid, wr_offset = off + of_nat start, wr_write_mode = WRITE_MODE, wr_remaining = 0,
         wr_data = take len (drop start data)\<rparr>)"

text \<open>What one reply did; the number is of the bytes it took, which the code leaves to the queue.\<close>

definition acknowledge :: "span_chunk \<Rightarrow> error + reply \<Rightarrow> write_loop \<Rightarrow> (error + nat) \<times> write_loop" where
  "acknowledge ck answer wl =
     (case answer of
        Inl e \<Rightarrow> (Inl e, wl)
      | Inr reply \<Rightarrow>
          (let status = reply_status reply;
               wl = (if refuses_the_size status
                     then wl\<lparr>wl_connection := record_small_buffer (wl_connection wl)\<rparr> else wl) in
           if refuses_the_size status \<and> sc_large ck then
             (Inr 0, wl\<lparr>wl_spans := requeue (sc_start ck, sc_length ck) (wl_spans wl)\<rparr>)
           else if status \<noteq> SUCCESS then (Inl (refused status), wl)
           else
             (case write_response_decode (rp_message reply) of
                Inl e \<Rightarrow> (Inl (from_wire e), wl)
              | Inr r \<Rightarrow>
                  (let taken = min (unat (wp_count r)) (sc_length ck) in
                   if taken = 0 then (Inl (Protocol (PNoProgress (sc_start ck) (sc_length ck))), wl)
                   else if taken < sc_length ck then
                     (Inr taken, wl\<lparr>wl_spans := requeue (sc_start ck + taken, sc_length ck - taken) (wl_spans wl)\<rparr>)
                   else (Inr taken, wl)))))"

text \<open>The first failure is the one kept; later ones are logged.\<close>

definition write_answer :: "span_chunk \<Rightarrow> error + reply \<Rightarrow> write_loop \<Rightarrow> nat \<times> write_loop" where
  "write_answer ck answer wl =
     (case acknowledge ck answer wl of
        (Inr taken, wl) \<Rightarrow> (taken, wl)
      | (Inl e, wl) \<Rightarrow> (0, if wl_failure wl = None then wl\<lparr>wl_failure := Some e\<rparr> else wl))"

definition write_take :: "nat \<Rightarrow> write_loop \<Rightarrow> write_loop" where
  "write_take i wl = wl\<lparr>wl_spans := (wl_spans wl)\<lparr>sp_issued := remove_at i (sp_issued (wl_spans wl))\<rparr>\<rparr>"

section \<open>Where the spans are\<close>

text \<open>How many of the spans a position lies in, and the bytes they hold.\<close>

definition hits :: "nat \<Rightarrow> (nat \<times> nat) list \<Rightarrow> nat" where
  "hits k ivs = sum_list (map (\<lambda>(s, n). of_bool (s \<le> k \<and> k < s + n)) ivs)"

definition bytes_in :: "(nat \<times> nat) list \<Rightarrow> nat" where
  "bytes_in ivs = sum_list (map snd ivs)"

lemma hits_simps [simp]:
  "hits k [] = 0" "hits k (iv # ivs) = of_bool (fst iv \<le> k \<and> k < fst iv + snd iv) + hits k ivs"
  "hits k (xs @ ys) = hits k xs + hits k ys"
  by (simp_all add: hits_def split: prod.split)

lemma bytes_in_simps [simp]:
  "bytes_in [] = 0" "bytes_in (iv # ivs) = snd iv + bytes_in ivs" "bytes_in (xs @ ys) = bytes_in xs + bytes_in ys"
  by (simp_all add: bytes_in_def)

definition chunk_span :: "span_chunk \<Rightarrow> nat \<times> nat" where
  "chunk_span ck = (sc_start ck, sc_length ck)"

definition unanswered :: "span_loop \<Rightarrow> (nat \<times> nat) list" where
  "unanswered sp = map chunk_span (sp_issued sp) @ sp_queue sp"

definition spans_ok :: "nat \<Rightarrow> span_loop \<Rightarrow> bool" where
  "spans_ok tot sp \<longleftrightarrow> sp_next sp \<le> tot \<and> list_all (\<lambda>iv. 0 < snd iv) (unanswered sp)"

text \<open>What is left to ask for.\<close>

definition unissued :: "nat \<Rightarrow> span_loop \<Rightarrow> nat" where
  "unissued tot sp = bytes_in (sp_queue sp) + (tot - sp_next sp)"

definition larges :: "span_loop \<Rightarrow> nat" where
  "larges sp = length (filter sc_large (sp_issued sp))"

lemma next_span_spec:
  assumes "next_span csize tail tot sp = Some ((s, n), sp')" "0 < csize" "spans_ok tot sp"
  shows "sp_issued sp' = sp_issued sp" "0 < n" "sp_next sp \<le> sp_next sp'" "sp_next sp' \<le> tot"
    "\<not> tail \<Longrightarrow> sp_next sp' = sp_next sp"
    "hits k (sp_queue sp') + of_bool (s \<le> k \<and> k < s + n) =
       hits k (sp_queue sp) + of_bool (sp_next sp \<le> k \<and> k < sp_next sp')"
    "unissued tot sp' + n = unissued tot sp"
    "list_all (\<lambda>iv. 0 < snd iv) (sp_queue sp')"
proof -
  have "sp_issued sp' = sp_issued sp \<and> 0 < n \<and> sp_next sp \<le> sp_next sp' \<and> sp_next sp' \<le> tot
    \<and> (\<not> tail \<longrightarrow> sp_next sp' = sp_next sp)
    \<and> hits k (sp_queue sp') + of_bool (s \<le> k \<and> k < s + n) =
        hits k (sp_queue sp) + of_bool (sp_next sp \<le> k \<and> k < sp_next sp')
    \<and> unissued tot sp' + n = unissued tot sp \<and> list_all (\<lambda>iv. 0 < snd iv) (sp_queue sp')"
  proof (cases "sp_queue sp = []")
    case True
    then show ?thesis
      using assms by (auto simp: next_span_def spans_ok_def unissued_def Let_def unanswered_def split: if_splits)
  next
    case False
    then obtain q a b where q: "sp_queue sp = q @ [(a, b)]" by (metis rev_exhaust surj_pair)
    have "0 < b" "list_all (\<lambda>iv. 0 < snd iv) q" using assms(3) by (simp_all add: spans_ok_def unanswered_def q)
    then show ?thesis
      using assms by (auto simp: next_span_def spans_ok_def unissued_def Let_def q min_def split: if_splits)
  qed
  then show "sp_issued sp' = sp_issued sp" "0 < n" "sp_next sp \<le> sp_next sp'" "sp_next sp' \<le> tot"
    "\<not> tail \<Longrightarrow> sp_next sp' = sp_next sp"
    "hits k (sp_queue sp') + of_bool (s \<le> k \<and> k < s + n) =
       hits k (sp_queue sp) + of_bool (sp_next sp \<le> k \<and> k < sp_next sp')"
    "unissued tot sp' + n = unissued tot sp"
    "list_all (\<lambda>iv. 0 < snd iv) (sp_queue sp')" by blast+
qed

lemma next_span_None: "next_span csize tail tot sp = None \<longleftrightarrow> sp_queue sp = [] \<and> \<not> (tail \<and> sp_next sp < tot)"
  by (auto simp: next_span_def Let_def split: prod.split)

text \<open>
  Issuing moves bytes from what is left to what is on the wire and loses none: the positions still
  unanswered grow by exactly the ones asked for the first time.
\<close>

definition issued_from :: "nat \<Rightarrow> nat \<Rightarrow> bool \<Rightarrow> bool \<Rightarrow> span_loop \<Rightarrow> span_loop \<Rightarrow> bool" where
  "issued_from depth tot large tail sp sp' \<longleftrightarrow>
     spans_ok tot sp' \<and> sp_next sp \<le> sp_next sp' \<and> (\<not> tail \<longrightarrow> sp_next sp' = sp_next sp) \<and>
     (\<forall>k. hits k (unanswered sp') = hits k (unanswered sp) + of_bool (sp_next sp \<le> k \<and> k < sp_next sp')) \<and>
     bytes_in (unanswered sp') + (tot - sp_next sp') = bytes_in (unanswered sp) + (tot - sp_next sp) \<and>
     (if large then larges sp' + unissued tot sp' \<le> larges sp + unissued tot sp else larges sp' = larges sp) \<and>
     (length (sp_issued sp') < depth \<longrightarrow> sp_queue sp' = [] \<and> \<not> (tail \<and> sp_next sp' < tot))"

lemma issue_spec:
  "0 < csize \<Longrightarrow> spans_ok tot sp \<Longrightarrow> issued_from depth tot large tail sp (issue depth csize large tail tot sp)"
proof (induction depth csize large tail tot sp rule: issue.induct)
  case (1 depth csize large tail tot sp)
  show ?case
  proof (cases "length (sp_issued sp) < depth \<and> next_span csize tail tot sp \<noteq> None")
    case False
    then have "issue depth csize large tail tot sp = sp"
      by (subst issue.simps) (auto split: option.split)
    then show ?thesis using "1.prems" False by (auto simp: issued_from_def next_span_None)
  next
    case True
    then obtain s n sp1 where ns: "next_span csize tail tot sp = Some ((s, n), sp1)" by auto
    note spec = next_span_spec [OF ns "1.prems"]
    let ?sp2 = "sp1\<lparr>sp_issued := sp_issued sp @ [\<lparr>sc_start = s, sc_length = n, sc_large = large\<rparr>]\<rparr>"
    have "spans_ok tot ?sp2"
      using "1.prems"(2) spec(2,4,8) by (auto simp: spans_ok_def unanswered_def chunk_span_def)
    then have "issued_from depth tot large tail ?sp2 (issue depth csize large tail tot ?sp2)"
      using "1.IH" [of "((s, n), sp1)" "(s, n)" sp1 s n] True ns "1.prems"(1) by simp
    moreover have "issue depth csize large tail tot sp = issue depth csize large tail tot ?sp2"
      using True ns by (subst issue.simps) simp
    moreover have "hits k (unanswered ?sp2) = hits k (unanswered sp) + of_bool (sp_next sp \<le> k \<and> k < sp_next sp1)" for k
      using spec(6) [of k] by (simp add: unanswered_def chunk_span_def)
    moreover have "bytes_in (unanswered ?sp2) + (tot - sp_next sp1) = bytes_in (unanswered sp) + (tot - sp_next sp)"
      using spec(7) by (simp add: unanswered_def chunk_span_def unissued_def)
    moreover have "larges ?sp2 + unissued tot sp1 \<le> larges sp + unissued tot sp" "\<not> large \<longrightarrow> larges ?sp2 = larges sp"
      using spec(2,7) by (auto simp: larges_def)
    moreover have "unissued tot ?sp2 = unissued tot sp1" by (simp add: unissued_def)
    ultimately show ?thesis
      using spec(3,5) unfolding issued_from_def by (auto split: if_splits)
  qed
qed

definition without :: "nat \<Rightarrow> span_loop \<Rightarrow> span_loop" where
  "without i sp = sp\<lparr>sp_issued := remove_at i (sp_issued sp)\<rparr>"

lemma without_spec:
  assumes "i < length (sp_issued sp)"
  shows "hits k (unanswered sp) =
      hits k (unanswered (without i sp)) + hits k [chunk_span (sp_issued sp ! i)]"
    "bytes_in (unanswered sp) = bytes_in (unanswered (without i sp)) + sc_length (sp_issued sp ! i)"
    "larges sp = larges (without i sp) + of_bool (sc_large (sp_issued sp ! i))"
    "spans_ok tot sp \<Longrightarrow> spans_ok tot (without i sp) \<and> 0 < sc_length (sp_issued sp ! i)"
    "sp_next (without i sp) = sp_next sp" "unissued tot (without i sp) = unissued tot sp"
proof -
  define a b ck where "a = take i (sp_issued sp)" and "b = drop (Suc i) (sp_issued sp)" and "ck = sp_issued sp ! i"
  have sp: "sp_issued sp = a @ ck # b" unfolding a_def b_def ck_def by (rule id_take_nth_drop [OF assms])
  have w: "sp_issued (without i sp) = a @ b" by (simp add: without_def remove_at_def a_def b_def)
  have q: "sp_queue (without i sp) = sp_queue sp" "sp_next (without i sp) = sp_next sp"
    by (simp_all add: without_def)
  show "hits k (unanswered sp) = hits k (unanswered (without i sp)) + hits k [chunk_span (sp_issued sp ! i)]"
    "bytes_in (unanswered sp) = bytes_in (unanswered (without i sp)) + sc_length (sp_issued sp ! i)"
    "larges sp = larges (without i sp) + of_bool (sc_large (sp_issued sp ! i))"
    "spans_ok tot sp \<Longrightarrow> spans_ok tot (without i sp) \<and> 0 < sc_length (sp_issued sp ! i)"
    "sp_next (without i sp) = sp_next sp" "unissued tot (without i sp) = unissued tot sp"
    unfolding ck_def [symmetric]
    by (auto simp: unanswered_def larges_def spans_ok_def unissued_def sp w q chunk_span_def)
qed

lemma requeue_spec:
  "hits k (unanswered (requeue (s, n) sp)) = hits k (unanswered sp) + hits k [(s, n)]"
  "bytes_in (unanswered (requeue (s, n) sp)) = bytes_in (unanswered sp) + n"
  "larges (requeue (s, n) sp) = larges sp" "sp_next (requeue (s, n) sp) = sp_next sp"
  "spans_ok tot sp \<Longrightarrow> 0 < n \<Longrightarrow> spans_ok tot (requeue (s, n) sp)"
  "unissued tot (requeue (s, n) sp) = unissued tot sp + n"
  by (auto simp: requeue_def unanswered_def larges_def spans_ok_def unissued_def)

lemma hits_pos: "sc_length ck = n \<Longrightarrow> sc_start ck \<le> k \<Longrightarrow> k < sc_start ck + n \<Longrightarrow> hits k [chunk_span ck] = 1"
  by (simp add: chunk_span_def)

section \<open>Runs of the read loop\<close>

text \<open>
  A server that answers a chunk with bytes of the file: \<open>content\<close> is the file, and the span
  begins at \<open>off\<close> in it.  It may answer with fewer bytes, with none, or with any status.
\<close>

definition honest :: "(nat \<Rightarrow> u8) \<Rightarrow> nat \<Rightarrow> span_chunk \<Rightarrow> error + reply \<Rightarrow> bool" where
  "honest content off ck answer \<longleftrightarrow>
     (\<forall>reply r. answer = Inr reply \<longrightarrow> read_response_decode (rp_message reply) = Inr r \<longrightarrow>
        (\<forall>k < min (length (rp_data r)) (sc_length ck). rp_data r ! k = content (off + sc_start ck + k)))"

text \<open>One answer that does not fail the call, another operation's downgrade perhaps, and the next round.\<close>

inductive fill_step :: "(nat \<Rightarrow> u8) \<Rightarrow> nat \<Rightarrow> nat \<Rightarrow> fill \<Rightarrow> fill \<Rightarrow> bool"
  for content :: "nat \<Rightarrow> u8" and off :: nat and depth :: nat where
  fill_answered: "i < length (sp_issued (fl_spans fl)) \<Longrightarrow>
    honest content off (sp_issued (fl_spans fl) ! i) answer \<Longrightarrow>
    fill_answer (sp_issued (fl_spans fl) ! i) answer (fill_take i fl) = (Inr (), fl') \<Longrightarrow>
    c = fl_connection fl' \<or> c = record_small_buffer (fl_connection fl') \<Longrightarrow>
    fill_step content off depth fl (fill_issue depth (fl'\<lparr>fl_connection := c\<rparr>))"

definition fill_inv :: "(nat \<Rightarrow> u8) \<Rightarrow> nat \<Rightarrow> nat \<Rightarrow> fill \<Rightarrow> bool" where
  "fill_inv content off tot fl \<longleftrightarrow>
     length (fl_buffer fl) = tot \<and> cov_inv (fl_covered fl) \<and> spans_ok tot (fl_spans fl) \<and>
     (\<forall>k. hits k (unanswered (fl_spans fl)) + of_bool (k \<in> covered (fl_covered fl)) \<le> of_bool (k < sp_next (fl_spans fl))) \<and>
     (\<not> fl_at_end fl \<longrightarrow>
        (\<forall>k. hits k (unanswered (fl_spans fl)) + of_bool (k \<in> covered (fl_covered fl)) = of_bool (k < sp_next (fl_spans fl)))) \<and>
     (\<forall>k \<in> covered (fl_covered fl). fl_buffer fl ! k = content (off + k))"

lemma fill_take_spans: "fill_take i fl = fl\<lparr>fl_spans := without i (fl_spans fl)\<rparr>"
  by (simp add: fill_take_def without_def)

text \<open>What an answer does: it asks again, it reaches the end, or it fills the front of the chunk.\<close>

lemma fill_answer_cases:
  assumes "fill_answer ck answer fl = (Inr (), fl')"
  obtains
    (again) "sc_large ck" "cn_downgraded (fl_connection fl')" "fl' = fl\<lparr>fl_spans := requeue (chunk_span ck) (fl_spans fl), fl_connection := fl_connection fl'\<rparr>"
  | (finish) "fl' = fl\<lparr>fl_at_end := True, fl_connection := fl_connection fl'\<rparr>"
      "cn_downgraded (fl_connection fl) \<longrightarrow> cn_downgraded (fl_connection fl')"
  | (some) reply r got where "answer = Inr reply" "read_response_decode (rp_message reply) = Inr r"
      "got = min (length (rp_data r)) (sc_length ck)" "0 < got" "fst (cover (sc_start ck) got (fl_covered fl))"
      "fl' = fl\<lparr>fl_spans := (if got < sc_length ck then requeue (sc_start ck + got, sc_length ck - got) (fl_spans fl) else fl_spans fl),
                fl_buffer := write_at (sc_start ck) (take got (rp_data r)) (fl_buffer fl),
                fl_covered := snd (cover (sc_start ck) got (fl_covered fl)), fl_connection := fl_connection fl'\<rparr>"
      "cn_downgraded (fl_connection fl) \<longrightarrow> cn_downgraded (fl_connection fl')"
proof (cases answer)
  case (Inl e)
  then show ?thesis using assms by (simp add: fill_answer_def)
next
  case (Inr reply)
  let ?st = "reply_status reply"
  consider "refuses_the_size ?st \<and> sc_large ck" | "\<not> (refuses_the_size ?st \<and> sc_large ck)" "?st = END_OF_FILE"
    | "\<not> (refuses_the_size ?st \<and> sc_large ck)" "?st \<noteq> END_OF_FILE" "?st = SUCCESS"
    using assms Inr by (auto simp: fill_answer_def Let_def split: if_splits)
  then show ?thesis
  proof cases
    case 1
    then show ?thesis
      using assms Inr by (intro again) (auto simp: fill_answer_def record_small_buffer_def chunk_span_def)
  next
    case 2
    then show ?thesis
      using assms Inr
      by (intro finish) (auto simp: fill_answer_def record_small_buffer_def Let_def split: if_splits)
  next
    case 3
    have no: "\<not> refuses_the_size ?st"
      by (simp add: 3 refuses_the_size_def INVALID_SMB_def INVALID_PARAMETER_def INSUFF_SERVER_RESOURCES_def SUCCESS_def)
    obtain r where r: "read_response_decode (rp_message reply) = Inr r"
      using assms Inr 3 no by (auto simp: fill_answer_def split: sum.splits)
    show ?thesis
    proof (cases "rp_data r = [] \<or> sc_length ck = 0")
      case True
      then have "fl' = fl\<lparr>fl_at_end := True\<rparr>"
        using assms Inr 3 no r by (auto simp: fill_answer_def)
      then show ?thesis by (intro finish) simp_all
    next
      case False
      define got where "got = min (length (rp_data r)) (sc_length ck)"
      have pos: "got \<noteq> 0" using False by (auto simp: got_def min_def)
      have step: "fill_answer ck answer fl =
          (let g = fl\<lparr>fl_buffer := write_at (sc_start ck) (take got (rp_data r)) (fl_buffer fl),
                      fl_covered := snd (cover (sc_start ck) got (fl_covered fl))\<rparr> in
           if \<not> fst (cover (sc_start ck) got (fl_covered fl)) then (Inl (Protocol (POverlapping (sc_start ck) got)), g)
           else if got < sc_length ck then (Inr (), g\<lparr>fl_spans := requeue (sc_start ck + got, sc_length ck - got) (fl_spans g)\<rparr>)
           else (Inr (), g))"
        using Inr 3 no r pos by (simp add: fill_answer_def got_def [symmetric] Let_def split: prod.split)
      show ?thesis
        using assms step pos
        by (intro some [OF Inr r got_def]) (auto simp: Let_def split: if_splits)
    qed
  qed
qed

section \<open>The read loop is right\<close>

lemma fill_inv_ok: "fill_inv content off tot fl \<Longrightarrow> spans_ok tot (fl_spans fl)"
  by (simp only: fill_inv_def)

lemma fill_inv_le:
  "fill_inv content off tot fl \<Longrightarrow>
   hits k (unanswered (fl_spans fl)) + of_bool (k \<in> covered (fl_covered fl)) \<le> of_bool (k < sp_next (fl_spans fl))"
  by (simp only: fill_inv_def)

lemma fill_inv_eq:
  "fill_inv content off tot fl \<Longrightarrow> \<not> fl_at_end fl \<Longrightarrow>
   hits k (unanswered (fl_spans fl)) + of_bool (k \<in> covered (fl_covered fl)) = of_bool (k < sp_next (fl_spans fl))"
  by (simp only: fill_inv_def simp_thms)

lemma covered_below:
  "fill_inv content off tot fl \<Longrightarrow> k \<in> covered (fl_covered fl) \<Longrightarrow> k < sp_next (fl_spans fl)"
  using fill_inv_le [of content off tot fl k] by (cases "k < sp_next (fl_spans fl)") auto

text \<open>A chunk on the wire holds no covered position, so what it brings never overlaps.\<close>

lemma chunk_free:
  assumes "fill_inv content off tot fl" "i < length (sp_issued (fl_spans fl))"
  defines "ck \<equiv> sp_issued (fl_spans fl) ! i"
  shows "{sc_start ck..<sc_start ck + sc_length ck} \<inter> covered (fl_covered fl) = {}"
    "sc_start ck + sc_length ck \<le> sp_next (fl_spans fl)" "0 < sc_length ck"
proof -
  let ?sp = "fl_spans fl"
  show pos: "0 < sc_length ck" using without_spec(4) [OF assms(2) fill_inv_ok [OF assms(1)]] by (simp add: ck_def)
  note hit = fill_inv_le [OF assms(1)]
  have in_chunk: "1 \<le> hits k (unanswered ?sp)" if "sc_start ck \<le> k" "k < sc_start ck + sc_length ck" for k
    using without_spec(1) [OF assms(2), of k] that by (simp add: ck_def chunk_span_def)
  show "{sc_start ck..<sc_start ck + sc_length ck} \<inter> covered (fl_covered fl) = {}"
  proof -
    have "k \<notin> covered (fl_covered fl)" if k: "sc_start ck \<le> k" "k < sc_start ck + sc_length ck" for k
      using hit [of k] in_chunk [OF k] by (cases "k < sp_next ?sp") auto
    then show ?thesis by auto
  qed
  have "1 \<le> hits (sc_start ck + sc_length ck - 1) (unanswered ?sp)" using in_chunk pos by simp
  then show "sc_start ck + sc_length ck \<le> sp_next ?sp"
    using hit [of "sc_start ck + sc_length ck - 1"] pos
    by (cases "sc_start ck + sc_length ck - 1 < sp_next ?sp") auto
qed

lemma fill_issue_inv:
  assumes "fill_inv content off tot fl"
  shows "fill_inv content off tot (fill_issue depth fl)"
    and "length (sp_issued (fl_spans (fill_issue depth fl))) < depth \<Longrightarrow>
           unanswered (fl_spans (fill_issue depth fl)) = map chunk_span (sp_issued (fl_spans (fill_issue depth fl)))
           \<and> (fl_at_end fl \<or> sp_next (fl_spans (fill_issue depth fl)) = tot)"
proof -
  define sp' where "sp' = issue depth (max (read_chunk_size (fl_connection fl)) 1)
      (\<not> cn_downgraded (fl_connection fl)) (\<not> fl_at_end fl) tot (fl_spans fl)"
  have fi: "fill_issue depth fl = fl\<lparr>fl_spans := sp'\<rparr>" using assms by (simp add: fill_issue_def fill_inv_def sp'_def)
  have "issued_from depth tot (\<not> cn_downgraded (fl_connection fl)) (\<not> fl_at_end fl) (fl_spans fl) sp'"
    unfolding sp'_def by (rule issue_spec) (use assms in \<open>simp_all add: fill_inv_def\<close>)
  note moved = this [unfolded issued_from_def]
  have bound: "hits k (unanswered sp') + of_bool (k \<in> covered (fl_covered fl)) \<le> of_bool (k < sp_next sp')" for k
  proof -
    have "hits k (unanswered (fl_spans fl)) + of_bool (k \<in> covered (fl_covered fl)) \<le> of_bool (k < sp_next (fl_spans fl))"
      by (rule fill_inv_le [OF assms])
    then show ?thesis using moved by (auto split: if_splits)
  qed
  have exact: "hits k (unanswered sp') + of_bool (k \<in> covered (fl_covered fl)) = of_bool (k < sp_next sp')"
    if "\<not> fl_at_end fl" for k
  proof -
    have "hits k (unanswered (fl_spans fl)) + of_bool (k \<in> covered (fl_covered fl)) = of_bool (k < sp_next (fl_spans fl))"
      by (rule fill_inv_eq [OF assms that])
    then show ?thesis using moved by (auto split: if_splits)
  qed
  show "fill_inv content off tot (fill_issue depth fl)"
    using assms moved bound exact by (simp add: fi fill_inv_def)
  show "unanswered (fl_spans (fill_issue depth fl)) = map chunk_span (sp_issued (fl_spans (fill_issue depth fl)))
        \<and> (fl_at_end fl \<or> sp_next (fl_spans (fill_issue depth fl)) = tot)"
    if "length (sp_issued (fl_spans (fill_issue depth fl))) < depth"
    using that moved by (auto simp: fi unanswered_def spans_ok_def)
qed

lemma fill_answer_inv:
  assumes inv: "fill_inv content off tot fl" and i: "i < length (sp_issued (fl_spans fl))"
    and honest: "honest content off (sp_issued (fl_spans fl) ! i) answer"
    and ans: "fill_answer (sp_issued (fl_spans fl) ! i) answer (fill_take i fl) = (Inr (), fl')"
  shows "fill_inv content off tot fl'"
proof -
  define ck where "ck = sp_issued (fl_spans fl) ! i"
  define sp where "sp = without i (fl_spans fl)"
  note free = chunk_free [OF inv i, folded ck_def]
  have ok: "spans_ok tot sp" using without_spec(4) [OF i] inv by (simp add: fill_inv_def sp_def)
  have nxt: "sp_next sp = sp_next (fl_spans fl)" by (simp add: sp_def without_def)
  have hit: "hits k (unanswered (fl_spans fl)) = hits k (unanswered sp) + hits k [chunk_span ck]" for k
    using without_spec(1) [OF i] by (simp add: sp_def ck_def)
  have le: "hits k (unanswered sp) + hits k [chunk_span ck] + of_bool (k \<in> covered (fl_covered fl)) \<le> of_bool (k < sp_next sp)" for k
    using fill_inv_le [OF inv, of k] unfolding hit nxt .
  have eq: "hits k (unanswered sp) + hits k [chunk_span ck] + of_bool (k \<in> covered (fl_covered fl)) = of_bool (k < sp_next sp)"
    if "\<not> fl_at_end fl" for k
    using fill_inv_eq [OF inv that, of k] unfolding hit nxt .
  from ans [unfolded fill_take_spans, folded ck_def sp_def] show ?thesis
  proof (cases rule: fill_answer_cases)
    case again
    have sp': "fl_spans fl' = requeue (sc_start ck, sc_length ck) sp"
      by (subst again(3)) (simp add: chunk_span_def)
    have same: "fl_buffer fl' = fl_buffer fl" "fl_covered fl' = fl_covered fl" "fl_at_end fl' = fl_at_end fl"
      by (subst again(3), simp)+
    show ?thesis
      unfolding fill_inv_def same sp' requeue_spec
      using inv le eq requeue_spec(5) [OF ok free(3), of "sc_start ck"]
      by (simp add: fill_inv_def chunk_span_def)
  next
    case finish
    have sp': "fl_spans fl' = sp" by (subst finish(1)) simp
    have same: "fl_buffer fl' = fl_buffer fl" "fl_covered fl' = fl_covered fl" "fl_at_end fl'"
      by (subst finish(1), simp)+
    have "hits k (unanswered sp) + of_bool (k \<in> covered (fl_covered fl)) \<le> of_bool (k < sp_next sp)" for k
      using le [of k] by linarith
    then show ?thesis using inv ok by (simp add: fill_inv_def same sp')
  next
    case (some reply r got)
    let ?new = "{sc_start ck..<sc_start ck + got}"
    define cov' where "cov' = snd (cover (sc_start ck) got (fl_covered fl))"
    have cinv: "cov_inv (fl_covered fl)" using inv by (simp add: fill_inv_def)
    have got: "got \<le> sc_length ck" "got \<le> length (rp_data r)" using some(3) by simp_all
    have disj: "?new \<inter> covered (fl_covered fl) = {}"
  proof -
    have "?new \<subseteq> {sc_start ck..<sc_start ck + sc_length ck}" using got by auto
    then show ?thesis using free(1) by blast
  qed
    have cov': "covered cov' = covered (fl_covered fl) \<union> ?new" "cov_inv cov'"
      using cover_spec [OF cinv, of "sc_start ck" got] disj by (simp_all add: cov'_def)
    define sp' where "sp' = (if got < sc_length ck then requeue (sc_start ck + got, sc_length ck - got) sp else sp)"
    have same: "fl_buffer fl' = write_at (sc_start ck) (take got (rp_data r)) (fl_buffer fl)"
        "fl_covered fl' = cov'" "fl_at_end fl' = fl_at_end fl" "fl_spans fl' = sp'"
      by (subst some(6), simp add: cov'_def sp'_def)+
    have ok': "spans_ok tot sp'" using ok requeue_spec(5) [OF ok] by (simp add: sp'_def)
    have nxt': "sp_next sp' = sp_next sp" by (simp add: sp'_def requeue_def)
    have moved: "hits k (unanswered sp') + of_bool (k \<in> covered cov') =
        hits k (unanswered sp) + hits k [chunk_span ck] + of_bool (k \<in> covered (fl_covered fl))" for k
      using disj got by (auto simp: sp'_def requeue_spec cov' chunk_span_def)
    have len: "length (fl_buffer fl) = tot" "sc_start ck + got \<le> tot"
      using inv free(2) got by (auto simp: fill_inv_def spans_ok_def)
    have data: "rp_data r ! k = content (off + sc_start ck + k)" if "k < got" for k
      using honest some(1,2,3) that by (simp add: honest_def ck_def)
    have bytes: "write_at (sc_start ck) (take got (rp_data r)) (fl_buffer fl) ! k = content (off + k)"
      if "k \<in> covered cov'" for k
    proof (cases "k \<in> ?new")
      case True
      then show ?thesis
        using nth_write_at [of "sc_start ck" "take got (rp_data r)" "fl_buffer fl" k] len got data [of "k - sc_start ck"]
        by (auto simp: add.assoc)
    next
      case False
      then have k: "k \<in> covered (fl_covered fl)" using that cov' by auto
      then have "k < tot"
        using covered_below [OF inv] fill_inv_ok [OF inv] by (fastforce simp: spans_ok_def)
      then show ?thesis
        using nth_write_at [of "sc_start ck" "take got (rp_data r)" "fl_buffer fl" k] len got False k inv
        by (auto simp: fill_inv_def)
    qed
    show ?thesis
      unfolding fill_inv_def same moved nxt'
      using len ok' cov'(2) le eq bytes got by simp
  qed
qed

lemma fill_step_inv: "fill_step content off depth fl fl' \<Longrightarrow> fill_inv content off tot fl \<Longrightarrow> fill_inv content off tot fl'"
proof (induction rule: fill_step.induct)
  case (fill_answered i fl answer fl' c)
  have "fill_inv content off tot fl'"
    using fill_answer_inv [OF fill_answered.prems fill_answered.hyps(1-3)] .
  then have "fill_inv content off tot (fl'\<lparr>fl_connection := c\<rparr>)" by (simp add: fill_inv_def)
  then show ?case by (rule fill_issue_inv)
qed

lemma fill_inv_start: "fill_inv content off (length buffer) (fill_start buffer c)"
  by (simp add: fill_inv_def fill_start_def cov_empty_def spans_ok_def unanswered_def)

definition fill_runs :: "(nat \<Rightarrow> u8) \<Rightarrow> nat \<Rightarrow> nat \<Rightarrow> fill \<Rightarrow> fill \<Rightarrow> bool" where
  "fill_runs content off depth = (fill_step content off depth)\<^sup>*\<^sup>*"

lemma fill_runs_inv:
  assumes "fill_runs content off depth (fill_issue depth (fill_start buffer c)) fl"
  shows "fill_inv content off (length buffer) fl"
  using assms unfolding fill_runs_def
  by (induction rule: rtranclp_induct) (auto intro: fill_issue_inv(1) fill_inv_start fill_step_inv)

text \<open>Nothing is left over when no chunk is out: what is not covered was answered empty.\<close>

definition fill_settled :: "nat \<Rightarrow> fill \<Rightarrow> bool" where
  "fill_settled tot fl \<longleftrightarrow>
     (sp_issued (fl_spans fl) = [] \<longrightarrow>
        sp_queue (fl_spans fl) = [] \<and> (fl_at_end fl \<or> sp_next (fl_spans fl) = tot))"

lemma fill_issue_settled:
  assumes "fill_inv content off tot fl" "0 < depth"
  shows "fill_settled tot (fill_issue depth fl)"
proof -
  have "fl_at_end (fill_issue depth fl) = fl_at_end fl" by (simp add: fill_issue_def)
  then show ?thesis
    using fill_issue_inv(2) [OF assms(1), of depth] assms(2)
    by (auto simp: fill_settled_def unanswered_def)
qed

lemma fill_runs_settled:
  assumes "fill_runs content off depth (fill_issue depth (fill_start buffer c)) fl" "0 < depth"
  shows "fill_settled (length buffer) fl"
  using assms(1) unfolding fill_runs_def
proof (cases rule: rtranclp.cases)
  case rtrancl_refl
  then show ?thesis using fill_issue_settled [OF fill_inv_start assms(2)] by simp
next
  case (rtrancl_into_rtrancl y)
  have "fill_inv content off (length buffer) y"
    using rtrancl_into_rtrancl(1) fill_runs_inv by (simp add: fill_runs_def)
  from rtrancl_into_rtrancl(2) this show ?thesis
  proof (induction rule: fill_step.induct)
    case (fill_answered i fl answer fl' c)
    have "fill_inv content off (length buffer) (fl'\<lparr>fl_connection := c\<rparr>)"
      using fill_answer_inv [OF fill_answered.prems fill_answered.hyps(1-3)] by (simp add: fill_inv_def)
    then show ?case by (rule fill_issue_settled [OF _ assms(2)])
  qed
qed

lemma gap_full: "cov_inv rs \<Longrightarrow> gap tot rs = None \<Longrightarrow> {..<tot} \<subseteq> covered rs"
  using gap_from_spec [of rs 0 tot] by (cases "tot = 0") (auto simp: gap_def)

lemma nothing_covered: "cov_inv rs \<Longrightarrow> covered rs = {} \<Longrightarrow> rs = []"
  by (cases rs) (auto simp: covered_def)

lemma gap_none: "cov_inv rs \<Longrightarrow> covered rs = {..<tot} \<Longrightarrow> gap tot rs = None"
proof (cases "tot = 0")
  case True
  assume "cov_inv rs" "covered rs = {..<tot}"
  then have "rs = []" using True nothing_covered by simp
  then show ?thesis by (simp add: gap_def True)
next
  case False
  assume a: "cov_inv rs" "covered rs = {..<tot}"
  show ?thesis
  proof (cases "gap tot rs")
    case (Some ab)
    obtain x y where "ab = (x, y)" by (cases ab)
    then have "x < y" "y \<le> tot" "{x..<y} \<inter> covered rs = {}"
      using gap_from_spec [of rs 0 tot] a(1) False Some by (auto simp: gap_def)
    then have "x \<in> {x..<y} \<inter> covered rs" using a(2) by auto
    then show ?thesis using \<open>{x..<y} \<inter> covered rs = {}\<close> by blast
  qed simp
qed

lemma gap_far:
  assumes "cov_inv rs" "covered rs \<subseteq> {..<tot}" "gap tot rs = Some (a, b)" "\<not> b < tot"
  shows "covered rs = {..<prefix_len rs}"
proof -
  have "0 < tot" using nothing_covered [OF assms(1)] assms(2,3) by (cases "tot = 0") (auto simp: gap_def)
  then have spec: "a < b" "b \<le> tot" "{0..<a} \<subseteq> covered rs" "{a..<b} \<inter> covered rs = {}"
    using gap_from_spec [of rs 0 tot] assms(1,3) by (auto simp: gap_def)
  have "covered rs = {..<a}"
  proof
    show "covered rs \<subseteq> {..<a}"
    proof
      fix x
      assume x: "x \<in> covered rs"
      then have "x < b" "x \<notin> {a..<b}" using spec(2,4) assms(2,4) by auto
      then show "x \<in> {..<a}" by simp
    qed
    show "{..<a} \<subseteq> covered rs" using spec(3) by auto
  qed
  then show ?thesis
    using prefix_len_spec [OF assms(1)]
    by (metis lessThan_iff lessThan_subset_iff not_le order_antisym)
qed


text \<open>A read of three bytes that the server answers with end of file.\<close>

definition small_connection :: connection where
  "small_connection =
     \<lparr>cn_negotiated = \<lparr>max_mpx_count = 50, max_buffer_size = 4356, capabilities = 0\<rparr>, cn_downgraded = False\<rparr>"

definition eof_reply :: reply where
  "eof_reply =
     \<lparr>rp_message = \<lparr>header = (header_request CMD_READ_ANDX)\<lparr>h_status := END_OF_FILE\<rparr>, m_bytes = [], word_count = 0, byte_count = 0\<rparr>,
      rp_transaction = None\<rparr>"

lemma small_chunks: "read_chunk_size small_connection = 3332" "write_chunk_size small_connection = 3332"
  by (simp_all add: read_chunk_size_def write_chunk_size_def chunk_size_def small_connection_def
      SMALL_IO_CHUNK_def PROTOCOL_OVERHEAD_def)

lemma small_issue:
  "fill_issue 1 (fill_start [0, 0, 0] small_connection) =
     (fill_start [0, 0, 0] small_connection)\<lparr>fl_spans :=
        \<lparr>sp_issued = [\<lparr>sc_start = 0, sc_length = 3, sc_large = True\<rparr>], sp_queue = [], sp_next = 3\<rparr>\<rparr>"
proof -
  have "\<not> cn_downgraded small_connection" by (simp add: small_connection_def)
  then show ?thesis
    by (simp add: fill_issue_def fill_start_def small_chunks issue.simps next_span_def)
qed


section \<open>Both loops end\<close>

text \<open>
  What goes down with every answer: the bytes no answer has been had for; or, where an answer leaves
  them all, the large chunks there are or still could be.
\<close>

definition bytes_left :: "nat \<Rightarrow> span_loop \<Rightarrow> nat" where
  "bytes_left tot sp = bytes_in (unanswered sp) + (tot - sp_next sp)"

definition large_left :: "nat \<Rightarrow> connection \<Rightarrow> span_loop \<Rightarrow> nat" where
  "large_left tot c sp = larges sp + (if cn_downgraded c then 0 else unissued tot sp + 1)"

lemma issue_left:
  assumes "0 < csize" "spans_ok tot sp" "sp' = issue depth csize (\<not> cn_downgraded c) tail tot sp"
  shows "bytes_left tot sp' = bytes_left tot sp" "large_left tot c sp' \<le> large_left tot c sp"
  using issue_spec [OF assms(1,2), of depth "\<not> cn_downgraded c" tail]
  by (auto simp: issued_from_def bytes_left_def large_left_def assms(3))

lemma take_left:
  assumes "i < length (sp_issued sp)" "spans_ok tot sp"
  shows "bytes_left tot sp = bytes_left tot (without i sp) + sc_length (sp_issued sp ! i)"
    and "larges sp = larges (without i sp) + of_bool (sc_large (sp_issued sp ! i))"
    and "0 < sc_length (sp_issued sp ! i)"
  using without_spec(2,3,5) [OF assms(1)] without_spec(4) [OF assms(1,2)] by (simp_all add: bytes_left_def)

lemma requeue_left:
  "bytes_left tot (requeue (s, n) sp) = bytes_left tot sp + n"
  by (simp add: bytes_left_def requeue_spec)

definition fill_measure :: "nat \<Rightarrow> (fill \<times> fill) set" where
  "fill_measure tot =
     measures [\<lambda>fl. bytes_left tot (fl_spans fl), \<lambda>fl. large_left tot (fl_connection fl) (fl_spans fl)]"

lemma fill_step_measure:
  assumes "fill_step content off depth fl fl'" "fill_inv content off tot fl"
  shows "(fl', fl) \<in> fill_measure tot"
  using assms
proof (induction rule: fill_step.induct)
  case (fill_answered i fl answer fl' c)
  define ck where "ck = sp_issued (fl_spans fl) ! i"
  note inv = fill_answer_inv [OF fill_answered.prems fill_answered.hyps(1-3)]
  have ok: "spans_ok tot (fl_spans fl')" and len: "length (fl_buffer fl') = tot"
    using inv by (simp_all add: fill_inv_def)
  note taken = take_left [OF fill_answered.hyps(1) fill_inv_ok [OF fill_answered.prems], folded ck_def]
  have dg: "cn_downgraded (fl_connection fl') \<Longrightarrow> cn_downgraded c"
    using fill_answered.hyps(4) by (auto simp: record_small_buffer_def)
  define sp' where "sp' = fl_spans (fill_issue depth (fl'\<lparr>fl_connection := c\<rparr>))"
  have sp': "sp' = issue depth (max (read_chunk_size c) 1) (\<not> cn_downgraded c) (\<not> fl_at_end fl') tot (fl_spans fl')"
    by (simp add: sp'_def fill_issue_def len)
  have conn: "fl_connection (fill_issue depth (fl'\<lparr>fl_connection := c\<rparr>)) = c" by (simp add: fill_issue_def)
  have left: "bytes_left tot sp' = bytes_left tot (fl_spans fl')" "large_left tot c sp' \<le> large_left tot c (fl_spans fl')"
    using issue_left [OF _ ok sp'] by simp_all
  from fill_answered.hyps(3) [unfolded fill_take_spans, folded ck_def]
  have "bytes_left tot (fl_spans fl') < bytes_left tot (fl_spans fl) \<or>
      bytes_left tot (fl_spans fl') = bytes_left tot (fl_spans fl) \<and>
      large_left tot c (fl_spans fl') < large_left tot (fl_connection fl) (fl_spans fl)"
  proof (cases rule: fill_answer_cases)
    case again
    have spans: "fl_spans fl' = requeue (sc_start ck, sc_length ck) (without i (fl_spans fl))"
      by (subst again(3)) (simp add: chunk_span_def)
    have "large_left tot c (fl_spans fl') = larges (without i (fl_spans fl))"
      using dg again(2) by (simp add: large_left_def spans requeue_spec)
    moreover have "larges (without i (fl_spans fl)) < larges (fl_spans fl)"
      using taken(2) again(1) by simp
    ultimately have "large_left tot c (fl_spans fl') < large_left tot (fl_connection fl) (fl_spans fl)"
      by (simp add: large_left_def)
    then show ?thesis using taken(1) by (simp add: spans requeue_left)
  next
    case finish
    have "fl_spans fl' = without i (fl_spans fl)" by (subst finish(1)) simp
    then show ?thesis using taken(1,3) by simp
  next
    case (some reply r got)
    have spans: "fl_spans fl' = (if got < sc_length ck then requeue (sc_start ck + got, sc_length ck - got) (without i (fl_spans fl))
        else without i (fl_spans fl))"
      by (subst some(6)) simp
    show ?thesis using taken(1,3) some(4) by (simp add: spans requeue_left)
  qed
  then show ?case
    using left unfolding fill_measure_def sp'_def [symmetric] by (auto simp: conn sp'_def [symmetric])
qed



section \<open>Runs of the write loop\<close>

text \<open>
  Beside the loop, the positions of the data some reply acknowledged: a reply that took \<open>n\<close> bytes of a
  chunk acknowledges the chunk's first \<open>n\<close>, which \<open>write_chunk\<close> offered at their own offset.
\<close>

inductive write_step :: "nat \<Rightarrow> nat \<Rightarrow> write_loop \<times> nat set \<Rightarrow> write_loop \<times> nat set \<Rightarrow> bool"
  for depth :: nat and tot :: nat where
  write_answered: "i < length (sp_issued (wl_spans wl)) \<Longrightarrow>
    write_answer (sp_issued (wl_spans wl) ! i) answer (write_take i wl) = (taken, wl') \<Longrightarrow>
    c = wl_connection wl' \<or> c = record_small_buffer (wl_connection wl') \<Longrightarrow>
    s = sc_start (sp_issued (wl_spans wl) ! i) \<Longrightarrow>
    write_step depth tot (wl, acks)
      (write_issue depth tot (wl'\<lparr>wl_connection := c\<rparr>), acks \<union> {s..<s + taken})"

definition write_inv :: "nat \<Rightarrow> write_loop \<times> nat set \<Rightarrow> bool" where
  "write_inv tot w \<longleftrightarrow>
     (case w of (wl, acks) \<Rightarrow>
        spans_ok tot (wl_spans wl) \<and>
        (\<forall>k. hits k (unanswered (wl_spans wl)) + of_bool (k \<in> acks) \<le> of_bool (k < sp_next (wl_spans wl))) \<and>
        (wl_failure wl = None \<longrightarrow>
           (\<forall>k. hits k (unanswered (wl_spans wl)) + of_bool (k \<in> acks) = of_bool (k < sp_next (wl_spans wl)))))"

lemma write_inv_ok: "write_inv tot (wl, acks) \<Longrightarrow> spans_ok tot (wl_spans wl)"
  by (simp only: write_inv_def prod.case)

lemma write_inv_le:
  "write_inv tot (wl, acks) \<Longrightarrow>
   hits k (unanswered (wl_spans wl)) + of_bool (k \<in> acks) \<le> of_bool (k < sp_next (wl_spans wl))"
  by (simp only: write_inv_def prod.case)

lemma write_inv_eq:
  "write_inv tot (wl, acks) \<Longrightarrow> wl_failure wl = None \<Longrightarrow>
   hits k (unanswered (wl_spans wl)) + of_bool (k \<in> acks) = of_bool (k < sp_next (wl_spans wl))"
  by (simp only: write_inv_def prod.case simp_thms)

lemma write_take_spans: "write_take i wl = wl\<lparr>wl_spans := without i (wl_spans wl)\<rparr>"
  by (simp add: write_take_def without_def)

text \<open>What an answer does: asks again, takes the front of the chunk, or fails the write.\<close>

lemma write_answer_cases:
  assumes "write_answer ck answer wl = (taken, wl')" "0 < sc_length ck"
  obtains
    (again) "taken = 0" "sc_large ck" "cn_downgraded (wl_connection wl')" "wl_failure wl' = wl_failure wl"
      "wl_spans wl' = requeue (chunk_span ck) (wl_spans wl)"
  | (some) "0 < taken" "taken \<le> sc_length ck" "wl_failure wl' = wl_failure wl"
      "wl_spans wl' = (if taken < sc_length ck then requeue (sc_start ck + taken, sc_length ck - taken) (wl_spans wl) else wl_spans wl)"
  | (failed) "taken = 0" "wl_failure wl' \<noteq> None" "wl_spans wl' = wl_spans wl"
proof -
  obtain m w where ack: "acknowledge ck answer wl = (m, w)" by fastforce
  show ?thesis
  proof (cases m)
    case (Inl e)
    have "wl_spans w = wl_spans wl"
      using ack Inl by (auto simp: acknowledge_def Let_def split: sum.splits if_splits)
    then show ?thesis using assms(1) ack Inl by (intro failed) (auto simp: write_answer_def split: if_splits)
  next
    case (Inr n)
    have n: "taken = n" "wl' = w" using assms(1) ack Inr by (simp_all add: write_answer_def)
    have "(n = 0 \<and> sc_large ck \<and> cn_downgraded (wl_connection w) \<and> wl_failure w = wl_failure wl
        \<and> wl_spans w = requeue (chunk_span ck) (wl_spans wl)) \<or>
      (0 < n \<and> n \<le> sc_length ck \<and> wl_failure w = wl_failure wl \<and>
        wl_spans w = (if n < sc_length ck then requeue (sc_start ck + n, sc_length ck - n) (wl_spans wl) else wl_spans wl))"
      using ack Inr assms(2)
      by (auto simp: acknowledge_def Let_def record_small_buffer_def chunk_span_def split: sum.splits if_splits)
    then show ?thesis using again some n by blast
  qed
qed

lemma write_issue_inv:
  assumes "write_inv tot (wl, acks)"
  shows "write_inv tot (write_issue depth tot wl, acks)"
    and "wl_failure wl = None \<Longrightarrow> length (sp_issued (wl_spans (write_issue depth tot wl))) < depth \<Longrightarrow>
           sp_queue (wl_spans (write_issue depth tot wl)) = [] \<and> sp_next (wl_spans (write_issue depth tot wl)) = tot"
proof -
  define sp' where "sp' = issue depth (max (write_chunk_size (wl_connection wl)) 1)
      (\<not> cn_downgraded (wl_connection wl)) True tot (wl_spans wl)"
  have "issued_from depth tot (\<not> cn_downgraded (wl_connection wl)) True (wl_spans wl) sp'"
    unfolding sp'_def by (rule issue_spec) (use write_inv_ok [OF assms] in simp_all)
  note moved = this [unfolded issued_from_def]
  have wi: "write_issue depth tot wl = (if wl_failure wl \<noteq> None then wl else wl\<lparr>wl_spans := sp'\<rparr>)"
    by (simp add: write_issue_def sp'_def)
  have exact: "hits k (unanswered sp') + of_bool (k \<in> acks) = of_bool (k < sp_next sp')" if "wl_failure wl = None" for k
    using write_inv_eq [OF assms that, of k] moved by (auto split: if_splits)
  show "write_inv tot (write_issue depth tot wl, acks)"
    using assms moved exact by (auto simp: wi write_inv_def)
  show "sp_queue (wl_spans (write_issue depth tot wl)) = [] \<and> sp_next (wl_spans (write_issue depth tot wl)) = tot"
    if "wl_failure wl = None" "length (sp_issued (wl_spans (write_issue depth tot wl))) < depth"
    using that moved by (auto simp: wi spans_ok_def)
qed

lemma write_answer_inv:
  assumes inv: "write_inv tot (wl, acks)" and i: "i < length (sp_issued (wl_spans wl))"
    and ans: "write_answer (sp_issued (wl_spans wl) ! i) answer (write_take i wl) = (taken, wl')"
  shows "write_inv tot (wl', acks \<union> {sc_start (sp_issued (wl_spans wl) ! i)..<sc_start (sp_issued (wl_spans wl) ! i) + taken})"
proof -
  define ck where "ck = sp_issued (wl_spans wl) ! i"
  define sp where "sp = without i (wl_spans wl)"
  have ok: "spans_ok tot sp" and pos: "0 < sc_length ck"
    using without_spec(4) [OF i write_inv_ok [OF inv]] by (simp_all add: sp_def ck_def)
  have nxt: "sp_next sp = sp_next (wl_spans wl)" by (simp add: sp_def without_def)
  have hit: "hits k (unanswered (wl_spans wl)) = hits k (unanswered sp) + hits k [chunk_span ck]" for k
    using without_spec(1) [OF i] by (simp add: sp_def ck_def)
  have le: "hits k (unanswered sp) + hits k [chunk_span ck] + of_bool (k \<in> acks) \<le> of_bool (k < sp_next sp)" for k
    using write_inv_le [OF inv, of k] unfolding hit nxt .
  have eq: "hits k (unanswered sp) + hits k [chunk_span ck] + of_bool (k \<in> acks) = of_bool (k < sp_next sp)"
    if "wl_failure wl = None" for k
    using write_inv_eq [OF inv that, of k] unfolding hit nxt .
  from ans [unfolded write_take_spans, folded ck_def sp_def] pos
  have "write_inv tot (wl', acks \<union> {sc_start ck..<sc_start ck + taken})"
  proof (cases rule: write_answer_cases)
    case again
    then show ?thesis
      using le eq requeue_spec(5) [OF ok pos, of "sc_start ck"]
      by (simp add: write_inv_def requeue_spec chunk_span_def sp_def [symmetric])
  next
    case some
    have free: "k \<notin> acks" if "sc_start ck \<le> k" "k < sc_start ck + sc_length ck" for k
      using le [of k] that by (cases "k < sp_next sp") (auto simp: chunk_span_def)
    define sp' where "sp' = (if taken < sc_length ck then requeue (sc_start ck + taken, sc_length ck - taken) sp else sp)"
    have sp': "wl_spans wl' = sp'" using some(4) by (simp add: sp'_def)
    have "spans_ok tot sp'" using ok requeue_spec(5) [OF ok] by (simp add: sp'_def)
    moreover have "sp_next sp' = sp_next sp" by (simp add: sp'_def requeue_def)
    moreover have "hits k (unanswered sp') + of_bool (k \<in> acks \<union> {sc_start ck..<sc_start ck + taken}) =
        hits k (unanswered sp) + hits k [chunk_span ck] + of_bool (k \<in> acks)" for k
      using free [of k] some(2) by (auto simp: sp'_def requeue_spec chunk_span_def)
    ultimately show ?thesis using le eq some(3) by (simp only: write_inv_def prod.case sp') simp
  next
    case failed
    have "hits k (unanswered sp) + of_bool (k \<in> acks) \<le> of_bool (k < sp_next sp)" for k
      using le [of k] by linarith
    moreover obtain e where "wl_failure wl' = Some e" using failed(2) by blast
    ultimately show ?thesis using failed(1,3) ok by (simp add: write_inv_def sp_def [symmetric])
  qed
  then show ?thesis by (simp only: ck_def)
qed

lemma write_step_inv: "write_step depth tot w w' \<Longrightarrow> write_inv tot w \<Longrightarrow> write_inv tot w'"
proof (induction rule: write_step.induct)
  case (write_answered i wl answer taken wl' c s acks)
  have "write_inv tot (wl', acks \<union> {s..<s + taken})"
    using write_answer_inv [OF write_answered.prems write_answered.hyps(1,2)] write_answered.hyps(4) by simp
  then have "write_inv tot (wl'\<lparr>wl_connection := c\<rparr>, acks \<union> {s..<s + taken})" by (simp add: write_inv_def)
  then show ?case by (rule write_issue_inv)
qed

lemma write_inv_start: "write_inv tot (write_start c, {})"
  by (simp add: write_inv_def write_start_def spans_ok_def unanswered_def)

definition write_loop_runs :: "nat \<Rightarrow> nat \<Rightarrow> write_loop \<times> nat set \<Rightarrow> write_loop \<times> nat set \<Rightarrow> bool" where
  "write_loop_runs depth tot = (write_step depth tot)\<^sup>*\<^sup>*"

definition write_settled :: "nat \<Rightarrow> write_loop \<times> nat set \<Rightarrow> bool" where
  "write_settled tot w \<longleftrightarrow>
     (wl_failure (fst w) = None \<longrightarrow> sp_issued (wl_spans (fst w)) = [] \<longrightarrow>
        sp_queue (wl_spans (fst w)) = [] \<and> sp_next (wl_spans (fst w)) = tot)"

lemma write_issue_settled:
  assumes "write_inv tot (wl, acks)" "0 < depth"
  shows "write_settled tot (write_issue depth tot wl, acks)"
proof -
  have "wl_failure (write_issue depth tot wl) = wl_failure wl" by (simp add: write_issue_def)
  then show ?thesis using write_issue_inv(2) [OF assms(1), of depth] assms(2) by (simp add: write_settled_def)
qed

lemma write_runs_facts:
  assumes "write_loop_runs depth tot (write_issue depth tot (write_start c), {}) w" "0 < depth"
  shows "write_inv tot w \<and> write_settled tot w"
  using assms(1) unfolding write_loop_runs_def
proof (induction rule: rtranclp_induct)
  case base
  then show ?case using write_issue_inv(1) write_issue_settled assms(2) write_inv_start by blast
next
  case (step y z)
  have inv: "write_inv tot z" using step write_step_inv by blast
  from step.hyps(2) have "write_settled tot z"
  proof (cases rule: write_step.cases)
    case (write_answered i wl answer taken wl' c' s acks)
    have "write_inv tot (wl', acks \<union> {s..<s + taken})"
      using write_answer_inv [of tot wl acks i] write_answered step.IH by auto
    then have "write_inv tot (wl'\<lparr>wl_connection := c'\<rparr>, acks \<union> {s..<s + taken})" by (simp add: write_inv_def)
    then show ?thesis using write_issue_settled [OF _ assms(2)] write_answered(2) by simp
  qed
  with inv show ?case by simp
qed

text \<open>What \<open>write_span\<close> returns: the failure with the prefix the progress handle has by then.\<close>

definition write_result :: "nat \<Rightarrow> write_loop \<Rightarrow> error + unit" where
  "write_result reached wl =
     (case wl_failure wl of None \<Rightarrow> Inr () | Some src \<Rightarrow> Inl (WritePartial reached src))"


definition write_measure :: "nat \<Rightarrow> ((write_loop \<times> nat set) \<times> (write_loop \<times> nat set)) set" where
  "write_measure tot =
     measures [\<lambda>w. bytes_left tot (wl_spans (fst w)), \<lambda>w. large_left tot (wl_connection (fst w)) (wl_spans (fst w))]"

lemma write_step_measure:
  assumes "write_step depth tot w w'" "write_inv tot w"
  shows "(w', w) \<in> write_measure tot"
  using assms
proof (induction rule: write_step.induct)
  case (write_answered i wl answer taken wl' c s acks)
  define ck where "ck = sp_issued (wl_spans wl) ! i"
  have ok: "spans_ok tot (wl_spans wl')"
    using write_inv_ok [OF write_answer_inv [OF write_answered.prems write_answered.hyps(1,2)]] .
  note taken = take_left [OF write_answered.hyps(1) write_inv_ok [OF write_answered.prems], folded ck_def]
  have dg: "cn_downgraded (wl_connection wl') \<Longrightarrow> cn_downgraded c"
    using write_answered.hyps(3) by (auto simp: record_small_buffer_def)
  define sp' where "sp' = wl_spans (write_issue depth tot (wl'\<lparr>wl_connection := c\<rparr>))"
  have conn: "wl_connection (write_issue depth tot (wl'\<lparr>wl_connection := c\<rparr>)) = c" by (simp add: write_issue_def)
  have left: "bytes_left tot sp' = bytes_left tot (wl_spans wl')" "large_left tot c sp' \<le> large_left tot c (wl_spans wl')"
    using issue_left [OF _ ok refl, where csize = "max (write_chunk_size c) 1" and depth = depth and c = c and tail = True]
    by (auto simp: sp'_def write_issue_def)
  from write_answered.hyps(2) [unfolded write_take_spans, folded ck_def] taken(3)
  have "bytes_left tot (wl_spans wl') < bytes_left tot (wl_spans wl) \<or>
      bytes_left tot (wl_spans wl') = bytes_left tot (wl_spans wl) \<and>
      large_left tot c (wl_spans wl') < large_left tot (wl_connection wl) (wl_spans wl)"
  proof (cases rule: write_answer_cases)
    case again
    have spans: "wl_spans wl' = requeue (sc_start ck, sc_length ck) (without i (wl_spans wl))"
      using again(5) by (simp add: chunk_span_def)
    have "large_left tot c (wl_spans wl') = larges (without i (wl_spans wl))"
      using dg again(3) by (simp add: large_left_def spans requeue_spec)
    moreover have "larges (without i (wl_spans wl)) < larges (wl_spans wl)"
      using taken(2) again(2) by simp
    ultimately have "large_left tot c (wl_spans wl') < large_left tot (wl_connection wl) (wl_spans wl)"
      by (simp add: large_left_def)
    then show ?thesis using taken(1) by (simp add: spans requeue_left)
  next
    case some
    then show ?thesis using taken(1,3) by (simp add: requeue_left)
  next
    case failed
    then show ?thesis using taken(1,3) by simp
  qed
  then show ?case
    using left unfolding write_measure_def by (auto simp: conn sp'_def [symmetric])
qed


text \<open>A reply that acknowledges three bytes, and a write of three.\<close>

definition ack_reply :: reply where
  "ack_reply =
     \<lparr>rp_message = built (header_request CMD_WRITE_ANDX)
        (wr_write_response_words \<lparr>ws_andx = ANDX_NONE, ws_count = 3, ws_remaining = 0, ws_count_high = 0, ws_reserved = 0\<rparr>) [],
      rp_transaction = None\<rparr>"

lemma ack_reply_decodes:
  "reply_status ack_reply = SUCCESS"
  "write_response_decode (rp_message ack_reply) = Inr \<lparr>wp_andx = ANDX_NONE, wp_count = 3, wp_remaining = 0\<rparr>"
proof -
  have "join16_u32 3 0 = 3" by (simp add: join16_u32_def)
  then show "write_response_decode (rp_message ack_reply) = Inr \<lparr>wp_andx = ANDX_NONE, wp_count = 3, wp_remaining = 0\<rparr>"
    by (simp add: ack_reply_def write_response_decode_def write_response.wf_words_plain io_word_counts
        write_response.expect_words_built write_response.read_words_plain refuse_chaining_def ANDX_NONE_def)
  show "reply_status ack_reply = SUCCESS"
    by (simp add: reply_status_def ack_reply_def header_request_def SUCCESS_def)
qed



end
