(* ===== verification/Files.thy ===== *)
theory Files
  imports Message
begin

text \<open>
  \<open>NT_CREATE_ANDX\<close>, \<open>CLOSE\<close> and \<open>RENAME\<close> (\<open>wire/file.rs\<close>).  A signed 64-bit time
  is held as its bit pattern.
\<close>

unbundle bit_operations_syntax

definition CREATE_REQUEST_WORDS :: u8 where "CREATE_REQUEST_WORDS = 24"
definition CREATE_RESPONSE_WORDS :: u8 where "CREATE_RESPONSE_WORDS = 34"
definition CLOSE_REQUEST_WORDS :: u8 where "CLOSE_REQUEST_WORDS = 3"
definition RENAME_REQUEST_WORDS :: u8 where "RENAME_REQUEST_WORDS = 1"
definition BUFFER_FORMAT_ASCII :: u8 where "BUFFER_FORMAT_ASCII = 0x04"

lemmas file_word_counts =
  CREATE_REQUEST_WORDS_def CREATE_RESPONSE_WORDS_def CLOSE_REQUEST_WORDS_def RENAME_REQUEST_WORDS_def

section \<open>Word blocks\<close>

record create_request_words =
  qw_andx :: andx
  qw_reserved :: u8
  qw_name_length :: u16
  qw_flags :: u32
  qw_root_directory_fid :: u32
  qw_desired_access :: u32
  qw_allocation_size :: u64
  qw_ext_file_attributes :: u32
  qw_share_access :: u32
  qw_create_disposition :: u32
  qw_create_options :: u32
  qw_impersonation_level :: u32
  qw_security_flags :: u8

definition wr_create_request_words :: "create_request_words \<Rightarrow> bytes" where
  "wr_create_request_words w =
     write_andx (qw_andx w) @ le8 (qw_reserved w) @ le16 (qw_name_length w) @ le32 (qw_flags w)
     @ le32 (qw_root_directory_fid w) @ le32 (qw_desired_access w) @ le64 (qw_allocation_size w)
     @ le32 (qw_ext_file_attributes w) @ le32 (qw_share_access w) @ le32 (qw_create_disposition w)
     @ le32 (qw_create_options w) @ le32 (qw_impersonation_level w) @ le8 (qw_security_flags w)"

definition rd_create_request_words :: "bytes \<Rightarrow> (create_request_words \<times> bytes) option" where
  "rd_create_request_words bs = do {
     (a, bs) \<leftarrow> rd_andx bs;
     (reserved, bs) \<leftarrow> rd8 bs;
     (name_length, bs) \<leftarrow> rd16 bs;
     (flags, bs) \<leftarrow> rd32 bs;
     (root, bs) \<leftarrow> rd32 bs;
     (access, bs) \<leftarrow> rd32 bs;
     (allocation, bs) \<leftarrow> rd64 bs;
     (attributes, bs) \<leftarrow> rd32 bs;
     (sharing, bs) \<leftarrow> rd32 bs;
     (disposition, bs) \<leftarrow> rd32 bs;
     (options, bs) \<leftarrow> rd32 bs;
     (impersonation, bs) \<leftarrow> rd32 bs;
     (security, bs) \<leftarrow> rd8 bs;
     Some (\<lparr>qw_andx = a, qw_reserved = reserved, qw_name_length = name_length, qw_flags = flags,
            qw_root_directory_fid = root, qw_desired_access = access, qw_allocation_size = allocation,
            qw_ext_file_attributes = attributes, qw_share_access = sharing,
            qw_create_disposition = disposition, qw_create_options = options,
            qw_impersonation_level = impersonation, qw_security_flags = security\<rparr>, bs)
   }"

interpretation create_request: word_layout wr_create_request_words rd_create_request_words 24
  by unfold_locales (simp_all add: wr_create_request_words_def rd_create_request_words_def codec_simps)

record create_response_words =
  sw_andx :: andx
  sw_oplock_level :: u8
  sw_fid :: u16
  sw_create_action :: u32
  sw_creation_time :: u64
  sw_last_access_time :: u64
  sw_last_write_time :: u64
  sw_change_time :: u64
  sw_ext_file_attributes :: u32
  sw_allocation_size :: u64
  sw_end_of_file :: u64
  sw_resource_type :: u16
  sw_nm_pipe_status :: u16
  sw_directory :: u8

definition wr_create_response_words :: "create_response_words \<Rightarrow> bytes" where
  "wr_create_response_words w =
     write_andx (sw_andx w) @ le8 (sw_oplock_level w) @ le16 (sw_fid w) @ le32 (sw_create_action w)
     @ le64 (sw_creation_time w) @ le64 (sw_last_access_time w) @ le64 (sw_last_write_time w)
     @ le64 (sw_change_time w) @ le32 (sw_ext_file_attributes w) @ le64 (sw_allocation_size w)
     @ le64 (sw_end_of_file w) @ le16 (sw_resource_type w) @ le16 (sw_nm_pipe_status w)
     @ le8 (sw_directory w)"

definition rd_create_response_words :: "bytes \<Rightarrow> (create_response_words \<times> bytes) option" where
  "rd_create_response_words bs = do {
     (a, bs) \<leftarrow> rd_andx bs;
     (oplock, bs) \<leftarrow> rd8 bs;
     (fid, bs) \<leftarrow> rd16 bs;
     (action, bs) \<leftarrow> rd32 bs;
     (created, bs) \<leftarrow> rd64 bs;
     (accessed, bs) \<leftarrow> rd64 bs;
     (written, bs) \<leftarrow> rd64 bs;
     (changed, bs) \<leftarrow> rd64 bs;
     (attributes, bs) \<leftarrow> rd32 bs;
     (allocation, bs) \<leftarrow> rd64 bs;
     (end_of_file, bs) \<leftarrow> rd64 bs;
     (resource, bs) \<leftarrow> rd16 bs;
     (pipe_status, bs) \<leftarrow> rd16 bs;
     (directory, bs) \<leftarrow> rd8 bs;
     Some (\<lparr>sw_andx = a, sw_oplock_level = oplock, sw_fid = fid, sw_create_action = action,
            sw_creation_time = created, sw_last_access_time = accessed, sw_last_write_time = written,
            sw_change_time = changed, sw_ext_file_attributes = attributes,
            sw_allocation_size = allocation, sw_end_of_file = end_of_file, sw_resource_type = resource,
            sw_nm_pipe_status = pipe_status, sw_directory = directory\<rparr>, bs)
   }"

interpretation create_response: word_layout wr_create_response_words rd_create_response_words 34
  by unfold_locales (simp_all add: wr_create_response_words_def rd_create_response_words_def codec_simps)

record close_request_words =
  cw_fid :: u16
  cw_last_time_modified :: u32

definition wr_close_request_words :: "close_request_words \<Rightarrow> bytes" where
  "wr_close_request_words w = le16 (cw_fid w) @ le32 (cw_last_time_modified w)"

definition rd_close_request_words :: "bytes \<Rightarrow> (close_request_words \<times> bytes) option" where
  "rd_close_request_words bs = do {
     (fid, bs) \<leftarrow> rd16 bs;
     (modified, bs) \<leftarrow> rd32 bs;
     Some (\<lparr>cw_fid = fid, cw_last_time_modified = modified\<rparr>, bs)
   }"

interpretation close_words: word_layout wr_close_request_words rd_close_request_words 3
  by unfold_locales (simp_all add: wr_close_request_words_def rd_close_request_words_def codec_simps)

record rename_request_words =
  nw_search_attributes :: u16

definition wr_rename_request_words :: "rename_request_words \<Rightarrow> bytes" where
  "wr_rename_request_words w = le16 (nw_search_attributes w)"

definition rd_rename_request_words :: "bytes \<Rightarrow> (rename_request_words \<times> bytes) option" where
  "rd_rename_request_words bs = do {
     (attributes, bs) \<leftarrow> rd16 bs;
     Some (\<lparr>nw_search_attributes = attributes\<rparr>, bs)
   }"

interpretation rename_words: word_layout wr_rename_request_words rd_rename_request_words 1
  by unfold_locales (simp_all add: wr_rename_request_words_def rd_rename_request_words_def codec_simps)

section \<open>NT_CREATE_ANDX\<close>

record nt_create_request =
  cq_flags :: u32
  cq_root_directory_fid :: u32
  cq_desired_access :: u32
  cq_allocation_size :: u64
  cq_ext_file_attributes :: u32
  cq_share_access :: u32
  cq_create_disposition :: u32
  cq_create_options :: u32
  cq_impersonation_level :: u32
  cq_security_flags :: u8
  cq_name :: rstr

definition nt_create_request_encode_body :: "nt_create_request \<Rightarrow> wire_error + bytes" where
  "nt_create_request_encode_body r =
     (let name = utf16z (cq_name r);
          area = align_to 2 (for_word_count (unat CREATE_REQUEST_WORDS)) in
      rbind (require_word_aligned ''Name'' (area_offset area)) (\<lambda>_.
      let area = snd (put name area);
          ws = \<lparr>qw_andx = ANDX_NONE, qw_reserved = 0, qw_name_length = of_nat (length name - 2),
                qw_flags = cq_flags r, qw_root_directory_fid = cq_root_directory_fid r,
                qw_desired_access = cq_desired_access r, qw_allocation_size = cq_allocation_size r,
                qw_ext_file_attributes = cq_ext_file_attributes r, qw_share_access = cq_share_access r,
                qw_create_disposition = cq_create_disposition r, qw_create_options = cq_create_options r,
                qw_impersonation_level = cq_impersonation_level r, qw_security_flags = cq_security_flags r\<rparr>
      in Inr (body (wr_create_request_words ws) (area_bytes area))))"

definition nt_create_request_decode :: "message \<Rightarrow> wire_error + nt_create_request" where
  "nt_create_request_decode m =
     rbind (expect_words m CMD_NT_CREATE_ANDX [CREATE_REQUEST_WORDS] ''24'') (\<lambda>_.
     rbind (read_words rd_create_request_words (words m)) (\<lambda>w.
     rbind (byte_area_of m) (\<lambda>area.
     rbind (ok_or (Truncated ''Name'' (1 + unat (qw_name_length w)) (length area))
              (slice_at area 1 (unat (qw_name_length w)))) (\<lambda>name.
     rbind (from_utf16 ''Name'' 0 name) (\<lambda>name.
     Inr \<lparr>cq_flags = qw_flags w, cq_root_directory_fid = qw_root_directory_fid w,
          cq_desired_access = qw_desired_access w, cq_allocation_size = qw_allocation_size w,
          cq_ext_file_attributes = qw_ext_file_attributes w, cq_share_access = qw_share_access w,
          cq_create_disposition = qw_create_disposition w, cq_create_options = qw_create_options w,
          cq_impersonation_level = qw_impersonation_level w, cq_security_flags = qw_security_flags w,
          cq_name = name\<rparr>)))))"

record nt_create_response =
  cr_andx :: andx
  cr_oplock_level :: u8
  cr_fid :: u16
  cr_create_action :: u32
  cr_creation_time :: u64
  cr_last_access_time :: u64
  cr_last_write_time :: u64
  cr_change_time :: u64
  cr_ext_file_attributes :: u32
  cr_allocation_size :: u64
  cr_end_of_file :: u64
  cr_resource_type :: u16
  cr_nm_pipe_status :: u16
  cr_directory :: u8

definition nt_create_response_decode :: "message \<Rightarrow> wire_error + nt_create_response" where
  "nt_create_response_decode m =
     rbind (expect_words m CMD_NT_CREATE_ANDX [CREATE_RESPONSE_WORDS] ''34'') (\<lambda>_.
     rbind (read_words rd_create_response_words (words m)) (\<lambda>w.
     rbind (refuse_chaining (sw_andx w)) (\<lambda>_.
     Inr \<lparr>cr_andx = sw_andx w, cr_oplock_level = sw_oplock_level w, cr_fid = sw_fid w,
          cr_create_action = sw_create_action w, cr_creation_time = sw_creation_time w,
          cr_last_access_time = sw_last_access_time w, cr_last_write_time = sw_last_write_time w,
          cr_change_time = sw_change_time w, cr_ext_file_attributes = sw_ext_file_attributes w,
          cr_allocation_size = sw_allocation_size w, cr_end_of_file = sw_end_of_file w,
          cr_resource_type = sw_resource_type w, cr_nm_pipe_status = sw_nm_pipe_status w,
          cr_directory = sw_directory w\<rparr>)))"

definition nt_create_response_encode_body :: "nt_create_response \<Rightarrow> wire_error + bytes" where
  "nt_create_response_encode_body r =
     (let ws = \<lparr>sw_andx = cr_andx r, sw_oplock_level = cr_oplock_level r, sw_fid = cr_fid r,
                sw_create_action = cr_create_action r, sw_creation_time = cr_creation_time r,
                sw_last_access_time = cr_last_access_time r, sw_last_write_time = cr_last_write_time r,
                sw_change_time = cr_change_time r, sw_ext_file_attributes = cr_ext_file_attributes r,
                sw_allocation_size = cr_allocation_size r, sw_end_of_file = cr_end_of_file r,
                sw_resource_type = cr_resource_type r, sw_nm_pipe_status = cr_nm_pipe_status r,
                sw_directory = cr_directory r\<rparr>
      in Inr (body (wr_create_response_words ws) []))"

section \<open>CLOSE\<close>

record close_request =
  cl_fid :: u16
  cl_last_time_modified :: u32

definition close_request_encode_body :: "close_request \<Rightarrow> wire_error + bytes" where
  "close_request_encode_body r =
     (let ws = \<lparr>cw_fid = cl_fid r, cw_last_time_modified = cl_last_time_modified r\<rparr>
      in Inr (body (wr_close_request_words ws) []))"

definition close_request_decode :: "message \<Rightarrow> wire_error + close_request" where
  "close_request_decode m =
     rbind (expect_words m CMD_CLOSE [CLOSE_REQUEST_WORDS] ''3'') (\<lambda>_.
     rbind (read_words rd_close_request_words (words m)) (\<lambda>w.
     Inr \<lparr>cl_fid = cw_fid w, cl_last_time_modified = cw_last_time_modified w\<rparr>))"

definition close_response_decode :: "message \<Rightarrow> wire_error + unit" where
  "close_response_decode m = rbind (expect_words m CMD_CLOSE [0] ''0'') (\<lambda>_. Inr ())"

definition close_response_encode_body :: "wire_error + bytes" where
  "close_response_encode_body = Inr (body [] [])"

section \<open>RENAME\<close>

record rename_request =
  rn_search_attributes :: u16
  rn_old_name :: rstr
  rn_new_name :: rstr

definition rename_request_encode_body :: "rename_request \<Rightarrow> wire_error + bytes" where
  "rename_request_encode_body r =
     (let area = snd (put [BUFFER_FORMAT_ASCII] (for_word_count (unat RENAME_REQUEST_WORDS))) in
      rbind (require_word_aligned ''OldFileName'' (area_offset area)) (\<lambda>_.
      let area = align_to 2 (snd (put [BUFFER_FORMAT_ASCII] (snd (put (utf16z (rn_old_name r)) area)))) in
      rbind (require_word_aligned ''NewFileName'' (area_offset area)) (\<lambda>_.
      let area = snd (put (utf16z (rn_new_name r)) area);
          ws = \<lparr>nw_search_attributes = rn_search_attributes r\<rparr>
      in Inr (body (wr_rename_request_words ws) (area_bytes area)))))"

definition utf16_field :: "string \<Rightarrow> bytes \<Rightarrow> nat \<Rightarrow> wire_error + rstr \<times> nat" where
  "utf16_field field area start =
     (if length area < start then Inl (Truncated field start (length area))
      else
        (let rest = drop start area in
         case nul_unit (le_units rest) of
           None \<Rightarrow> Inl (Truncated field (length rest) (length rest))
         | Some units \<Rightarrow>
             let fin = units * 2 in
             rbind (from_utf16 field 0 (take fin rest)) (\<lambda>text. Inr (text, fin))))"

definition rename_request_decode :: "message \<Rightarrow> wire_error + rename_request" where
  "rename_request_decode m =
     rbind (expect_words m CMD_RENAME [RENAME_REQUEST_WORDS] ''1'') (\<lambda>_.
     rbind (read_words rd_rename_request_words (words m)) (\<lambda>w.
     rbind (byte_area_of m) (\<lambda>area.
     rbind (utf16_field ''OldFileName'' area 1) (\<lambda>(old, old_len).
     let second = 1 + old_len + 2 in
     if \<not> (second < length area \<and> area ! second = BUFFER_FORMAT_ASCII)
     then Inl (Truncated ''NewFileName marker'' (second + 1) (length area))
     else
       (let second = second + 1;
            second = (if (byte_area_offset m + second) mod 2 \<noteq> 0 then second + 1 else second) in
        rbind (utf16_field ''NewFileName'' area second) (\<lambda>(new, _).
        Inr \<lparr>rn_search_attributes = nw_search_attributes w, rn_old_name = old, rn_new_name = new\<rparr>))))))"

section \<open>Round trips\<close>

lemma utf16_field_name:
  assumes "area = pre @ utf16z text @ post" "length pre = start" "name_ok text"
  shows "utf16_field field area start = Inr (text, 2 * length (encode_utf16 text))"
proof -
  have rest: "drop start area = units_le (encode_utf16 text) @ 0 # 0 # post"
    using assms(1,2) by (simp add: utf16z_def)
  have "nul_unit (le_units (drop start area)) = Some (length (encode_utf16 text))"
    unfolding rest using encode_nonzero [OF assms(3)] by (simp add: le_units_append nul_unit_append u16_le_def)
  moreover have "take (length (encode_utf16 text) * 2) (drop start area) = units_le (encode_utf16 text)"
    unfolding rest by simp
  moreover have "\<not> length area < start" using assms(1,2) by simp
  ultimately show ?thesis
    using assms(3) by (simp add: utf16_field_def Let_def from_utf16_utf16 name_ok_def)
qed

text \<open>
  A rename survives the wire: both names come back, though only the second is padded and where it
  begins is found from the first one's terminator and the message's alignment.
\<close>

theorem rename_roundtrip:
  assumes "wf_header h" "h_command h = CMD_RENAME" "name_ok (rn_old_name r)" "name_ok (rn_new_name r)"
    and "length (utf16z (rn_old_name r)) + length (utf16z (rn_new_name r)) < 65500"
  shows "delivered h (rename_request_encode_body r) rename_request_decode = Inr r"
proof -
  define old new where "old = utf16z (rn_old_name r)" and "new = utf16z (rn_new_name r)"
  let ?ws = "wr_rename_request_words \<lparr>nw_search_attributes = rn_search_attributes r\<rparr>"
  let ?area = "BUFFER_FORMAT_ASCII # old @ BUFFER_FORMAT_ASCII # 0 # new"
  have even: "even (length old)" by (simp add: old_def)
  have enc: "rename_request_encode_body r = Inr (body ?ws ?area)"
    using even
    by (simp add: rename_request_encode_body_def Let_def file_word_counts HEADER_LEN_def align_to_2
        require_word_aligned_def NAME_ALIGNMENT_def put_def area_offset_def for_word_count_def area_at_def
        old_def new_def)
  have small: "length ?area < 65536" using assms(5) by (simp add: old_def new_def)
  have first: "utf16_field f ?area 1 = Inr (rn_old_name r, length old - 2)" for f
    by (subst utf16_field_name [where pre = "[BUFFER_FORMAT_ASCII]"
          and post = "BUFFER_FORMAT_ASCII # 0 # new"]) (use assms(3) in \<open>simp_all add: old_def\<close>)
  have second: "utf16_field f ?area (length old + 3) = Inr (rn_new_name r, length new - 2)" for f
    by (subst utf16_field_name [where pre = "BUFFER_FORMAT_ASCII # old @ [BUFFER_FORMAT_ASCII, 0]"
          and post = "[]"]) (use assms(4) in \<open>simp_all add: new_def\<close>)
  have two: "1 + (length old - 2) + 2 = length old + 1" by (simp add: old_def)
  have mark: "length old + 1 < length ?area" "?area ! (length old + 1) = BUFFER_FORMAT_ASCII"
    by (simp_all add: nth_append)
  let ?m = "built h ?ws ?area"
  have "byte_area_offset ?m = HEADER_LEN + 1 + length ?ws + 2"
    by (rule byte_area_offset_built [OF rename_words.wf_words_plain])
  then have "odd (byte_area_offset ?m + (length old + 1 + 1))"
    using even by (simp add: HEADER_LEN_def rename_words.length_wr)
  then have at: "((byte_area_offset ?m + (length old + 1 + 1)) mod 2 \<noteq> 0) = True" by presburger
  have plus: "length old + 1 + 1 + 1 = length old + 3" by simp
  have cmd: "expect_words ?m CMD_RENAME [1] ''1'' = Inr ()"
    by (rule rename_words.expect_words_built) (use assms(2) in simp_all)
  have rd: "read_words rd_rename_request_words (words ?m) = Inr \<lparr>nw_search_attributes = rn_search_attributes r\<rparr>"
    by (simp only: words_built [OF assms(1) rename_words.wf_words_plain] rename_words.read_words_plain)
  have "rename_request_decode ?m = Inr r"
    by (simp only: rename_request_decode_def file_word_counts cmd rd rbind_simps first second
        byte_area_built [OF assms(1) rename_words.wf_words_plain small] prod.case Let_def two mark at plus
        simp_thms if_True if_False) simp
  then show ?thesis
    unfolding enc by (simp only: delivered_body [OF assms(1) rename_words.wf_words_plain])
qed

text \<open>
  A create request survives the wire: the name is found behind the pad byte by its length without
  the terminator, and every other field is returned.
\<close>

theorem create_roundtrip:
  assumes "wf_header h" "h_command h = CMD_NT_CREATE_ANDX" "valid_str (cq_name r)"
    and "length (utf16z (cq_name r)) < 65500"
  shows "delivered h (nt_create_request_encode_body r) nt_create_request_decode = Inr r"
proof -
  let ?name = "utf16z (cq_name r)" and ?units = "units_le (encode_utf16 (cq_name r))"
  have len: "unat (of_nat (length ?name - 2) :: u16) = length ?units"
    by (subst unat_of_nat) (use assms(4) in simp)
  have name: "slice_at (0 # ?name) (Suc 0) (length ?units) = Some ?units"
    by (simp add: slice_at_def utf16z_def)
  show ?thesis
    using assms(1-3) assms(4) len name
    by (simp add: nt_create_request_encode_body_def Let_def file_word_counts HEADER_LEN_def align_to_2
        require_word_aligned_def NAME_ALIGNMENT_def put_def area_offset_def for_word_count_def area_at_def
        delivered_body create_request.wf_words_plain nt_create_request_decode_def
        create_request.expect_words_built create_request.read_words_plain byte_area_built from_utf16_utf16)
qed

lemma create_response_roundtrip:
  assumes "wf_header h" "h_command h = CMD_NT_CREATE_ANDX" "ax_command (cr_andx r) = NO_FURTHER_COMMAND"
  shows "delivered h (nt_create_response_encode_body r) nt_create_response_decode = Inr r"
  using assms
  by (simp add: nt_create_response_encode_body_def delivered_body create_response.wf_words_plain
      nt_create_response_decode_def file_word_counts create_response.expect_words_built
      create_response.read_words_plain refuse_chaining_def)

lemma close_roundtrip:
  assumes "wf_header h" "h_command h = CMD_CLOSE"
  shows "delivered h (close_request_encode_body r) close_request_decode = Inr r"
  using assms
  by (simp add: close_request_encode_body_def delivered_body close_words.wf_words_plain
      close_request_decode_def file_word_counts close_words.expect_words_built
      close_words.read_words_plain)

lemma close_response_roundtrip:
  assumes "wf_header h" "h_command h = CMD_CLOSE"
  shows "delivered h close_response_encode_body close_response_decode = Inr ()"
  using assms
  by (simp add: delivered_body close_response_encode_body_def close_response_decode_def
      wf_words_def expect_words_def)

theorem rename_roundtrip_witness:
  "let r = \<lparr>rn_search_attributes = 0x16, rn_old_name = lit ''a.txt'', rn_new_name = [0x1F600]\<rparr>
   in delivered (header_request CMD_RENAME) (rename_request_encode_body r) rename_request_decode = Inr r"
  unfolding Let_def
  by (rule rename_roundtrip) (simp_all add: name_ok_def lit_def utf16_char_def scalar_def)

theorem create_roundtrip_witness:
  "let r = \<lparr>cq_flags = 0, cq_root_directory_fid = 0, cq_desired_access = 0xC0000000,
            cq_allocation_size = 0x123456789, cq_ext_file_attributes = 0x80, cq_share_access = 3,
            cq_create_disposition = 1, cq_create_options = 0, cq_impersonation_level = 2,
            cq_security_flags = 0, cq_name = lit ''srvsvc''\<rparr>
   in delivered (header_request CMD_NT_CREATE_ANDX) (nt_create_request_encode_body r)
        nt_create_request_decode = Inr r"
  unfolding Let_def
  by (rule create_roundtrip) (simp_all add: lit_def utf16_char_def scalar_def)

end
