(* ===== verification/Pipe.thy ===== *)
theory Pipe
  imports Errors Files Io Connection
begin

text \<open>
  A named pipe and the two transports of a DCE/RPC exchange (\<open>rpc/pipe.rs\<close>).  The connection is a
  parameter: what it answers a request with, and a state of its own that each request may change.
  What was negotiated is held to the floor \<open>Connection::spawn\<close> refuses below, which is what makes
  both loops end.
\<close>

unbundle bit_operations_syntax

typedef served = "{n. spawn_accepts n}"
  morphisms negotiated_of Served
proof
  show "\<lparr>max_mpx_count = 1, max_buffer_size = MIN_BUFFER_SIZE, capabilities = 0\<rparr> \<in> {n. spawn_accepts n}"
    by (simp add: spawn_accepts_def)
qed

type_synonym 's link = "'s \<Rightarrow> request \<Rightarrow> (conn_error + reply) \<times> 's"

definition MAX_PIPE_TRANSFER :: u32 where "MAX_PIPE_TRANSFER = 65520"
definition PIPE_DESIRED_ACCESS :: u32 where "PIPE_DESIRED_ACCESS = 0xC0000000"
definition FILE_ATTRIBUTE_NORMAL :: u32 where "FILE_ATTRIBUTE_NORMAL = 0x00000080"
definition PIPE_SHARE_ACCESS :: u32 where "PIPE_SHARE_ACCESS = 0x00000003"
definition FILE_OPEN :: u32 where "FILE_OPEN = 0x00000001"
definition IMPERSONATION :: u32 where "IMPERSONATION = 0x00000002"
definition LEAVE_TIME_ALONE :: u32 where "LEAVE_TIME_ALONE = 0xFFFFFFFF"

record pipe =
  pp_served :: served
  pp_tid :: u16
  pp_uid :: u16
  pp_fid :: u16
  pp_offset :: u64
  pp_transact :: bool
  pp_transact_failure :: "error option"
  pp_name :: rstr

section \<open>Opening and closing\<close>

text \<open>\<open>connection.request(Request::new(command, tid, uid, body?)).await?\<close>.\<close>

definition send ::
  "'s link \<Rightarrow> u8 \<Rightarrow> u16 \<Rightarrow> u16 \<Rightarrow> wire_error + bytes \<Rightarrow> 's \<Rightarrow> (error + reply) \<times> 's" where
  "send link command tid uid encoded s =
     (case encoded of
        Inl e \<Rightarrow> (Inl (from_wire e), s)
      | Inr b \<Rightarrow> apfst (map_sum from_connection id) (link s (request_new command tid uid b)))"

definition open_fid :: "'s link \<Rightarrow> u16 \<Rightarrow> u16 \<Rightarrow> rstr \<Rightarrow> 's \<Rightarrow> (error + u16) \<times> 's" where
  "open_fid link tid uid name s =
     (let r = \<lparr>cq_flags = 0, cq_root_directory_fid = 0, cq_desired_access = PIPE_DESIRED_ACCESS,
              cq_allocation_size = 0, cq_ext_file_attributes = FILE_ATTRIBUTE_NORMAL,
              cq_share_access = PIPE_SHARE_ACCESS, cq_create_disposition = FILE_OPEN,
              cq_create_options = 0, cq_impersonation_level = IMPERSONATION, cq_security_flags = 0,
              cq_name = name\<rparr>;
          (reply, s) = send link CMD_NT_CREATE_ANDX tid uid (nt_create_request_encode_body r) s in
      (rbind reply (\<lambda>reply.
       if reply_status reply \<noteq> SUCCESS then Inl (refused (reply_status reply))
       else map_sum from_wire cr_fid (nt_create_response_decode (rp_message reply))), s))"

definition pipe_open :: "'s link \<Rightarrow> served \<Rightarrow> u16 \<Rightarrow> u16 \<Rightarrow> rstr \<Rightarrow> 's \<Rightarrow> (error + pipe) \<times> 's" where
  "pipe_open link n tid uid name s =
     apfst (map_sum id (\<lambda>fid.
       \<lparr>pp_served = n, pp_tid = tid, pp_uid = uid, pp_fid = fid, pp_offset = 0, pp_transact = True,
        pp_transact_failure = None, pp_name = name\<rparr>)) (open_fid link tid uid name s)"

text \<open>A close that fails is logged and not returned.\<close>

definition release :: "'s link \<Rightarrow> u16 \<Rightarrow> u16 \<Rightarrow> u16 \<Rightarrow> 's \<Rightarrow> 's" where
  "release link tid uid fid s =
     (case close_request_encode_body \<lparr>cl_fid = fid, cl_last_time_modified = LEAVE_TIME_ALONE\<rparr> of
        Inl _ \<Rightarrow> s
      | Inr b \<Rightarrow> snd (link s (request_new CMD_CLOSE tid uid b)))"

definition pipe_close :: "'s link \<Rightarrow> pipe \<Rightarrow> 's \<Rightarrow> 's" where
  "pipe_close link p s = release link (pp_tid p) (pp_uid p) (pp_fid p) s"

definition reopen :: "'s link \<Rightarrow> pipe \<Rightarrow> 's \<Rightarrow> (error + unit) \<times> pipe \<times> 's" where
  "reopen link p s =
     (let s = release link (pp_tid p) (pp_uid p) (pp_fid p) s;
          (fid, s) = open_fid link (pp_tid p) (pp_uid p) (pp_name p) s in
      case fid of
        Inl e \<Rightarrow> (Inl e, p, s)
      | Inr fid \<Rightarrow> (Inr (), p\<lparr>pp_fid := fid, pp_offset := 0\<rparr>, s))"

section \<open>The two loops\<close>

definition accept_pipe_status :: "nt_status \<Rightarrow> error + unit" where
  "accept_pipe_status status =
     (if status = SUCCESS \<or> status = BUFFER_OVERFLOW then Inr () else Inl (refused status))"

definition transfer_size :: "pipe \<Rightarrow> u32" where
  "transfer_size p =
     min (max_buffer_size (negotiated_of (pp_served p)) - PROTOCOL_OVERHEAD) MAX_PIPE_TRANSFER"

text \<open>One round of the read loop, up to the data it got.\<close>

definition pipe_read :: "'s link \<Rightarrow> pipe \<Rightarrow> 's \<Rightarrow> (error + bytes) \<times> 's" where
  "pipe_read link p s =
     (let r = \<lparr>rr_fid = pp_fid p, rr_offset = pp_offset p, rr_max_count = transfer_size p,
              rr_min_count = 0, rr_remaining = 0\<rparr>;
          (reply, s) = send link CMD_READ_ANDX (pp_tid p) (pp_uid p) (read_request_encode_body r) s in
      (rbind reply (\<lambda>reply.
       rbind (accept_pipe_status (reply_status reply)) (\<lambda>_.
       map_sum from_wire rp_data (read_response_decode (rp_message reply)))), s))"

lemma drain_progress:
  "collector_drain co = Inr co' \<Longrightarrow> \<not> co_complete co \<Longrightarrow>
   co' = co \<or> (co_pdus co < co_pdus co' \<and> co_pdus co' \<le> PDU_CAP)"
proof (induction co rule: collector_drain.induct)
  case (1 co)
  have accepted: "co_pdus c = co_pdus co + 1 \<and> co_pdus c \<le> PDU_CAP"
    if "collector_accept f (co\<lparr>co_pending := r\<rparr>) = Inr c" for f r c
    using that "1.prems"(2)
    by (auto simp: collector_accept_def open_reply_def rbind_Inr_iff Let_def split: if_splits option.splits)
  have complete: "collector_drain c = Inr c' \<Longrightarrow> co_complete c \<Longrightarrow> co_pdus c' = co_pdus c" for c c'
  proof (induction c rule: collector_drain.induct)
    case (1 c)
    then show ?case
      by (auto simp: collector_drain.simps [of c] collector_accept_def split: sum.splits option.splits)
  qed
  consider "pdu_next (co_pending co) = Inr None"
    | f r c where "pdu_next (co_pending co) = Inr (Some (f, r))"
        "collector_accept f (co\<lparr>co_pending := r\<rparr>) = Inr c" "collector_drain c = Inr co'"
    using "1.prems"(1) by (auto simp: collector_drain.simps [of co] split: sum.splits option.splits)
  then show ?case
  proof cases
    case 1
    then show ?thesis using "1.prems"(1) by (simp add: collector_drain.simps [of co])
  next
    case 2
    then show ?thesis
      using "1.IH" [OF 2(1) refl refl 2(2,3)] accepted [OF 2(2)] complete [OF 2(3)]
      by (cases "co_complete c") auto
  qed
qed

text \<open>How much a collector may still be fed: the PDUs left to take, and the bytes of the next one.\<close>

definition room :: "collector \<Rightarrow> nat" where
  "room co = (PDU_CAP - co_pdus co) * 65537 + (65536 - length (co_pending co))"

lemma feed_room:
  assumes "feed bs co = Inr co'" "\<not> co_complete co" "bs \<noteq> []"
  shows "room co' < room co"
proof -
  have len: "length (co_pending co') < 65536" using feed_drained [OF assms(1)] by (rule drained_pending)
  consider "co' = co\<lparr>co_pending := co_pending co @ bs\<rparr>" | "co_pdus co < co_pdus co'" "co_pdus co' \<le> PDU_CAP"
    using drain_progress [OF assms(1) [unfolded feed_def]] assms(2) by auto
  then show ?thesis
  proof cases
    case 1
    obtain k where "length bs = Suc k" using assms(3) by (cases bs) auto
    then show ?thesis using len 1 by (simp add: room_def)
  next
    case 2
    then have "(PDU_CAP - co_pdus co') * 65537 + 65537 \<le> (PDU_CAP - co_pdus co) * 65537" by simp
    moreover have "65536 - length (co_pending co') < 65537" by simp
    ultimately show ?thesis unfolding room_def by linarith
  qed
qed

function pipe_fill :: "'s link \<Rightarrow> collector \<Rightarrow> pipe \<Rightarrow> 's \<Rightarrow> (error + collector) \<times> pipe \<times> 's" where
  "pipe_fill link co p s =
     (if co_complete co then (Inr co, p, s)
      else
        (case pipe_read link p s of
           (Inl e, s) \<Rightarrow> (Inl e, p, s)
         | (Inr bs, s) \<Rightarrow>
             if bs = [] then (Inr co, p, s)
             else
               (case feed bs co of
                  Inl e \<Rightarrow> (Inl (Protocol (PPdu e)), p\<lparr>pp_offset := pp_offset p + of_nat (length bs)\<rparr>, s)
                | Inr co' \<Rightarrow> pipe_fill link co' (p\<lparr>pp_offset := pp_offset p + of_nat (length bs)\<rparr>) s)))"
  by pat_completeness auto

termination
  by (relation "measure (\<lambda>(link, co, p, s). room co)") (auto dest: feed_room)

declare pipe_fill.simps [simp del]

text \<open>One write: the chunk from \<open>written\<close> on, and how much of it was taken.\<close>

definition pipe_write :: "'s link \<Rightarrow> bytes \<Rightarrow> nat \<Rightarrow> pipe \<Rightarrow> 's \<Rightarrow> (error + nat) \<times> 's" where
  "pipe_write link request written p s =
     (let fin = min (written + unat (transfer_size p)) (length request);
          r = \<lparr>wr_fid = pp_fid p, wr_offset = pp_offset p, wr_write_mode = 0, wr_remaining = 0,
               wr_data = take (fin - written) (drop written request)\<rparr>;
          (reply, s) = send link CMD_WRITE_ANDX (pp_tid p) (pp_uid p) (write_request_encode_body r) s in
      (rbind reply (\<lambda>reply.
       rbind (accept_pipe_status (reply_status reply)) (\<lambda>_.
       rbind (map_sum from_wire (\<lambda>w. unat (wp_count w)) (write_response_decode (rp_message reply))) (\<lambda>acknowledged.
       if acknowledged = 0
       then Inl (Protocol (PWire (Truncated ''the pipe write acknowledgement'' (fin - written) 0)))
       else Inr (min acknowledged (fin - written))))), s))"

lemma transfer_size_bounds: "3332 \<le> unat (transfer_size p) \<and> unat (transfer_size p) \<le> 65520"
proof -
  have "3332 \<le> unat (max_buffer_size (negotiated_of (pp_served p)) - PROTOCOL_OVERHEAD)"
    using buffered_exact negotiated_of [of "pp_served p"] by fastforce
  then show ?thesis
    by (auto simp: transfer_size_def min_def MAX_PIPE_TRANSFER_def word_le_nat_alt)
qed

lemma pipe_write_progress:
  "pipe_write link request written p s = (Inr n, s') \<Longrightarrow> written < length request \<Longrightarrow>
   0 < n \<and> written + n \<le> length request"
  using transfer_size_bounds [of p]
  by (auto simp: pipe_write_def Let_def rbind_Inr_iff split: prod.splits if_splits)

function pipe_write_from :: "'s link \<Rightarrow> bytes \<Rightarrow> nat \<Rightarrow> pipe \<Rightarrow> 's \<Rightarrow> (error + unit) \<times> pipe \<times> 's" where
  "pipe_write_from link request written p s =
     (if written < length request then
        (case pipe_write link request written p s of
           (Inl e, s) \<Rightarrow> (Inl e, p, s)
         | (Inr progress, s) \<Rightarrow>
             pipe_write_from link request (written + progress)
               (p\<lparr>pp_offset := pp_offset p + of_nat progress\<rparr>) s)
      else (Inr (), p, s))"
  by pat_completeness auto

termination
  by (relation "measure (\<lambda>(link, request, written, p, s). length request - written)")
    (auto dest!: pipe_write_progress [OF sym])

declare pipe_write_from.simps [simp del]

definition pipe_write_all :: "'s link \<Rightarrow> bytes \<Rightarrow> pipe \<Rightarrow> 's \<Rightarrow> (error + unit) \<times> pipe \<times> 's" where
  "pipe_write_all link request p s = pipe_write_from link request 0 p s"

section \<open>The call\<close>

definition write_read_call ::
  "'s link \<Rightarrow> bytes \<Rightarrow> collector \<Rightarrow> pipe \<Rightarrow> 's \<Rightarrow> (error + collector) \<times> pipe \<times> 's" where
  "write_read_call link request co p s =
     (case pipe_write_all link request p s of
        (Inl e, p, s) \<Rightarrow> (Inl e, p, s)
      | (Inr _, p, s) \<Rightarrow> pipe_fill link co p s)"

definition transact_call ::
  "'s link \<Rightarrow> bytes \<Rightarrow> collector \<Rightarrow> pipe \<Rightarrow> 's \<Rightarrow> (error + collector) \<times> pipe \<times> 's" where
  "transact_call link request co p s =
     (let t = pipe_transact_request (pp_fid p) request in
      case check_limits t (max_buffer_size (negotiated_of (pp_served p))) of
        Inl e \<Rightarrow> (Inl (too_large e ''TRANS_TRANSACT_NMPIPE''), p, s)
      | Inr _ \<Rightarrow>
          (case trans_request_encode_body t of
             Inl e \<Rightarrow> (Inl (from_wire e), p, s)
           | Inr b \<Rightarrow>
               (let (reply, s) = link s (request_transaction CMD_TRANSACTION (pp_tid p) (pp_uid p) b
                                           (tr_max_parameter_count t) (tr_max_data_count t)) in
                case rbind (map_sum from_connection id reply) (\<lambda>reply.
                       rbind (accept_pipe_status (reply_status reply)) (\<lambda>_.
                       case rp_transaction reply of
                         None \<Rightarrow> Inr co
                       | Some bd \<Rightarrow> protocol PPdu (feed (bd_data bd) co))) of
                  Inl e \<Rightarrow> (Inl e, p, s)
                | Inr co \<Rightarrow> pipe_fill link co p s)))"

definition both_failed :: "pipe \<Rightarrow> error \<Rightarrow> error \<times> pipe" where
  "both_failed p second =
     (case pp_transact_failure p of
        Some first \<Rightarrow>
          (BothAttemptsFailed ''the DCE/RPC exchange on the named pipe'' first second,
           p\<lparr>pp_transact_failure := None\<rparr>)
      | None \<Rightarrow> (second, p))"

text \<open>The write and read attempt that ends \<open>call\<close>.\<close>

definition second_attempt :: "'s link \<Rightarrow> bytes \<Rightarrow> u32 \<Rightarrow> pipe \<Rightarrow> 's \<Rightarrow> (error + answer) \<times> pipe \<times> 's" where
  "second_attempt link request call_id p s =
     (case write_read_call link request (collector_new call_id) p s of
        (Inr co, p, s) \<Rightarrow> (protocol PPdu (collector_finish co), p, s)
      | (Inl second, p, s) \<Rightarrow> (let (e, p) = both_failed p second in (Inl e, p, s)))"

definition pipe_call :: "'s link \<Rightarrow> bytes \<Rightarrow> u32 \<Rightarrow> pipe \<Rightarrow> 's \<Rightarrow> (error + answer) \<times> pipe \<times> 's" where
  "pipe_call link request call_id p s =
     (if pp_transact p then
        (case transact_call link request (collector_new call_id) p s of
           (Inr co, p, s) \<Rightarrow> (protocol PPdu (collector_finish co), p, s)
         | (Inl e, p, s) \<Rightarrow>
             (let p = p\<lparr>pp_transact := False, pp_transact_failure := Some e\<rparr> in
              case reopen link p s of
                (Inl e, p, s) \<Rightarrow> (let (e, p) = both_failed p e in (Inl e, p, s))
              | (Inr _, p, s) \<Rightarrow> second_attempt link request call_id p s))
      else second_attempt link request call_id p s)"

section \<open>A call ends\<close>

text \<open>A connection that counts the requests made of it.\<close>

definition counted :: "'s link \<Rightarrow> ('s \<times> nat) link" where
  "counted link t r = (case t of (s, n) \<Rightarrow> (case link s r of (m, s) \<Rightarrow> (m, (s, n + 1))))"

definition spent :: "'a \<times> 'b \<times> 's \<times> nat \<Rightarrow> nat" where
  "spent t = snd (snd (snd t))"

lemma spent_simps [simp]: "spent (a, p, s, n) = n"
  by (simp add: spent_def)

lemma snd_counted [simp]: "snd (snd (counted link (s, n) r)) = n + 1"
  by (simp add: counted_def split: prod.split)

lemma send_counted: "snd (snd (send (counted link) command tid uid encoded (s, n))) \<le> n + 1"
  by (auto simp: send_def apfst_def counted_def split: sum.split prod.split)

lemma open_fid_counted: "snd (snd (open_fid (counted link) tid uid name (s, n))) \<le> n + 1"
  using send_counted [of link CMD_NT_CREATE_ANDX tid uid _ s n]
  by (simp add: open_fid_def Let_def split: prod.split) (metis snd_conv)

lemma release_counted: "snd (release (counted link) tid uid fid (s, n)) \<le> n + 1"
  by (simp add: release_def split: sum.split)

lemma pipe_read_counted: "snd (snd (pipe_read (counted link) p (s, n))) \<le> n + 1"
  using send_counted [of link CMD_READ_ANDX "pp_tid p" "pp_uid p" _ s n]
  by (simp add: pipe_read_def Let_def split: prod.split) (metis snd_conv)

lemma pipe_write_counted: "snd (snd (pipe_write (counted link) request written p (s, n))) \<le> n + 1"
  using send_counted [of link CMD_WRITE_ANDX "pp_tid p" "pp_uid p" _ s n]
  by (simp add: pipe_write_def Let_def split: prod.split) (metis snd_conv)

lemma pipe_fill_counted:
  "room co \<le> k \<Longrightarrow> spent (pipe_fill (counted link) co p (s, n)) \<le> n + k + 1"
proof (induction k arbitrary: co p s n rule: less_induct)
  case (less k)
  show ?case
  proof (cases "co_complete co")
    case True
    then show ?thesis by (simp add: pipe_fill.simps [of _ co])
  next
    case False
    obtain m s1 n1 where rd: "pipe_read (counted link) p (s, n) = (m, s1, n1)" by (metis prod_cases3)
    then have n1: "n1 \<le> n + 1" using pipe_read_counted [of link p s n] by simp
    have step: "spent (pipe_fill (counted link) co' p' (s1, n1)) \<le> n + k + 1"
      if f: "feed bs co = Inr co'" "bs \<noteq> []" for bs co' p'
    proof -
      have "room co' < k" using feed_room [OF f(1) False f(2)] less.prems by simp
      then show ?thesis using less.IH [of "room co'" co' p' s1 n1] n1 by simp
    qed
    then show ?thesis
      using False n1 by (simp add: pipe_fill.simps [of _ co] rd split: sum.split)
  qed
qed

lemma pipe_write_counted_all:
  "length request - written \<le> k \<Longrightarrow> spent (pipe_write_from (counted link) request written p (s, n)) \<le> n + k"
proof (induction k arbitrary: written p s n rule: less_induct)
  case (less k)
  show ?case
  proof (cases "written < length request")
    case True
    obtain m s1 n1 where wr: "pipe_write (counted link) request written p (s, n) = (m, s1, n1)"
      by (metis prod_cases3)
    then have n1: "n1 \<le> n + 1" using pipe_write_counted [of link request written p s n] by simp
    show ?thesis
    proof (cases m)
      case (Inl e)
      then show ?thesis using True n1 less.prems by (simp add: pipe_write_from.simps [of _ _ written] wr)
    next
      case (Inr j)
      then have "0 < j" using pipe_write_progress wr True by fastforce
      have "spent (pipe_write_from (counted link) request (written + j) q (s1, n1)) \<le> n + k" for q
      proof -
        have "spent (pipe_write_from (counted link) request (written + j) q (s1, n1)) \<le> n1 + (k - 1)"
          using less.prems True \<open>0 < j\<close> by (intro less.IH) auto
        then show ?thesis using n1 less.prems True by linarith
      qed
      then show ?thesis using True Inr by (simp add: pipe_write_from.simps [of _ _ written] wr)
    qed
  next
    case False
    then show ?thesis by (simp add: pipe_write_from.simps [of _ _ written])
  qed
qed

text \<open>What the transaction's own reply puts in the collector.\<close>

lemma transact_collector:
  assumes "rbind reply (\<lambda>reply. rbind (accept_pipe_status (reply_status reply)) (\<lambda>_.
             case rp_transaction reply of None \<Rightarrow> Inr co | Some bd \<Rightarrow> protocol PPdu (feed (bd_data bd) co))) = Inr co'"
  shows "co' = co \<or> (\<exists>bs. feed bs co = Inr co')"
  using assms by (auto simp: rbind_Inr_iff protocol_Inr_iff split: option.splits)

lemma room_fed:
  assumes "co = collector_new i \<or> (\<exists>bs. feed bs (collector_new i) = Inr co)"
  shows "room co \<le> room (collector_new i)"
  using assms
proof (elim disjE exE)
  fix bs
  assume fed: "feed bs (collector_new i) = Inr co"
  show ?thesis
  proof (cases "bs = []")
    case True
    have "(collector_new i)\<lparr>co_pending := []\<rparr> = collector_new i" by (simp add: collector_new_def)
    then have "co = collector_new i"
      using fed collector_drain_idle [OF drained_new, of i] True by (simp add: feed_def collector_new_def)
    then show ?thesis by simp
  next
    case False
    then show ?thesis using feed_room [OF fed] by (simp add: collector_new_def)
  qed
qed simp

lemma transact_counted:
  "spent (transact_call (counted link) request (collector_new i) p (s, n)) \<le> n + room (collector_new i) + 2"
proof -
  have fill: "spent (pipe_fill (counted link) co p (s1, n + 1)) \<le> n + room (collector_new i) + 2"
    if "co = collector_new i \<or> (\<exists>bs. feed bs (collector_new i) = Inr co)" for co s1
    using pipe_fill_counted [OF room_fed [OF that], of link p s1 "n + 1"] by simp
  show ?thesis
    by (auto simp: transact_call_def Let_def counted_def split: sum.split prod.split
        dest!: transact_collector intro!: fill [simplified])
qed

lemma write_read_counted:
  "spent (write_read_call (counted link) request (collector_new i) p (s, n)) \<le> n + length request + room (collector_new i) + 1"
proof -
  obtain m q s1 n1 where wr: "pipe_write_all (counted link) request p (s, n) = (m, q, s1, n1)" by (metis prod_cases4)
  then have "n1 \<le> n + length request"
    using pipe_write_counted_all [of request 0 "length request" link p s n] by (simp add: pipe_write_all_def)
  then show ?thesis
    using pipe_fill_counted [of "collector_new i" "room (collector_new i)" link q s1 n1]
    by (cases m) (simp_all add: write_read_call_def wr)
qed

lemma second_attempt_counted:
  "spent (second_attempt (counted link) request i p (s, n)) \<le> n + length request + room (collector_new i) + 1"
  using write_read_counted [of link request i p s n]
  by (auto simp: second_attempt_def Let_def split: prod.split sum.split)

lemma reopen_counted: "spent (reopen (counted link) p (s, n)) \<le> n + 2"
proof -
  obtain s1 n1 where r: "release (counted link) (pp_tid p) (pp_uid p) (pp_fid p) (s, n) = (s1, n1)" by fastforce
  obtain m s2 n2 where o: "open_fid (counted link) (pp_tid p) (pp_uid p) (pp_name p) (s1, n1) = (m, s2, n2)"
    by (metis prod_cases3)
  have "n1 \<le> n + 1" "n2 \<le> n1 + 1"
    using release_counted [of link "pp_tid p" "pp_uid p" "pp_fid p" s n]
      open_fid_counted [of link "pp_tid p" "pp_uid p" "pp_name p" s1 n1] r o by simp_all
  then show ?thesis by (simp add: reopen_def r o split: sum.split)
qed

text \<open>
  C29. A call on a pipe always ends: whatever the server answers, byte by byte or without end, one call
  makes at most as many requests as it has bytes to write, plus what two replies at the collector's
  limits could take a byte at a time.
\<close>

theorem pipe_call_ends:
  "spent (pipe_call (counted link) request i p (s, 0)) \<le> length request + 2 * room (collector_new i) + 5"
proof (cases "pp_transact p")
  case False
  then show ?thesis using second_attempt_counted [of link request i p s 0] by (simp add: pipe_call_def)
next
  case True
  obtain m q s1 n1 where t: "transact_call (counted link) request (collector_new i) p (s, 0) = (m, q, s1, n1)"
    by (metis prod_cases4)
  then have n1: "n1 \<le> room (collector_new i) + 2" using transact_counted [of link request i p s 0] by simp
  show ?thesis
  proof (cases m)
    case (Inr co)
    then show ?thesis using True n1 by (simp add: pipe_call_def t)
  next
    case (Inl e)
    let ?q = "q\<lparr>pp_transact := False, pp_transact_failure := Some e\<rparr>"
    obtain m2 r s2 n2 where o: "reopen (counted link) ?q (s1, n1) = (m2, r, s2, n2)" by (metis prod_cases4)
    then have "n2 \<le> n1 + 2" using reopen_counted [of link ?q s1 n1] by simp
    then show ?thesis
      using True n1 second_attempt_counted [of link request i r s2 n2]
      by (cases m2) (auto simp: pipe_call_def t Inl o Let_def split: prod.split)
  qed
qed

section \<open>The fall-through\<close>

lemma open_fid_pipe: "reopen link p s =
   (case open_fid link (pp_tid p) (pp_uid p) (pp_name p) (pipe_close link p s) of
      (Inl e, s) \<Rightarrow> (Inl e, p, s) | (Inr fid, s) \<Rightarrow> (Inr (), p\<lparr>pp_fid := fid, pp_offset := 0\<rparr>, s))"
  by (simp add: reopen_def pipe_close_def Let_def split: prod.split sum.split)

text \<open>The failure of both transports, naming the first.\<close>

definition both_attempts :: "error \<Rightarrow> error \<Rightarrow> error" where
  "both_attempts first second = BothAttemptsFailed ''the DCE/RPC exchange on the named pipe'' first second"

text \<open>Neither loop touches anything but the cursor.\<close>

definition same_mode :: "pipe \<Rightarrow> pipe \<Rightarrow> bool" where
  "same_mode p q \<longleftrightarrow>
     pp_transact q = pp_transact p \<and> pp_transact_failure q = pp_transact_failure p \<and> pp_name q = pp_name p"

lemma pipe_fill_mode: "same_mode p (fst (snd (pipe_fill link co p s)))"
proof (induction link co p s rule: pipe_fill.induct)
  case (1 link co p s)
  have seek: "same_mode (p\<lparr>pp_offset := x\<rparr>) q = same_mode p q" "same_mode p (p\<lparr>pp_offset := x\<rparr>)" for x q
    by (simp_all add: same_mode_def)
  have refl: "same_mode p p" by (simp add: same_mode_def)
  obtain m s1 where rd: "pipe_read link p s = (m, s1)" by fastforce
  show ?case
  proof (cases "co_complete co")
    case True
    then show ?thesis by (simp add: pipe_fill.simps [of _ co] refl)
  next
    case False
    show ?thesis
      using 1 [OF False rd [symmetric] _ _] refl
      by (auto simp: pipe_fill.simps [of _ co] rd False seek split: sum.split)
  qed
qed

lemma pipe_write_mode: "same_mode p (fst (snd (pipe_write_from link request written p s)))"
proof (induction link request written p s rule: pipe_write_from.induct)
  case (1 link request written p s)
  have seek: "same_mode (p\<lparr>pp_offset := x\<rparr>) q = same_mode p q" "same_mode p (p\<lparr>pp_offset := x\<rparr>)" for x q
    by (simp_all add: same_mode_def)
  have refl: "same_mode p p" by (simp add: same_mode_def)
  obtain m s1 where wr: "pipe_write link request written p s = (m, s1)" by fastforce
  show ?case
    using 1 [OF _ wr [symmetric]] refl
    by (auto simp: pipe_write_from.simps [of _ _ written] wr seek split: sum.split)
qed

lemma write_read_mode: "same_mode p (fst (snd (write_read_call link request co p s)))"
proof -
  obtain m q s1 where wr: "pipe_write_all link request p s = (m, q, s1)" by (metis prod_cases3)
  then have "same_mode p q" using pipe_write_mode [of p link request 0 s] by (simp add: pipe_write_all_def)
  then show ?thesis
    using pipe_fill_mode [of q link co s1]
    by (cases m) (auto simp: write_read_call_def wr same_mode_def)
qed

lemma second_attempt_mode: "pp_transact (fst (snd (second_attempt link request i p s))) = pp_transact p"
proof -
  obtain m q s1 where wr: "write_read_call link request (collector_new i) p s = (m, q, s1)" by (metis prod_cases3)
  then have "same_mode p q" using write_read_mode [of p link request "collector_new i" s] by simp
  then show ?thesis
    by (cases m) (auto simp: second_attempt_def wr both_failed_def same_mode_def split: option.split)
qed

text \<open>
  C28. When the transact mode fails the pipe never tries it again, and the write and read mode runs on a
  pipe closed and opened afresh, its cursor at zero; if the reopen or the second transport then fails,
  the error names both attempts, the first one first.
\<close>

theorem pipe_falls_through:
  assumes "pp_transact p" "transact_call link request (collector_new i) p s = (Inl first, p1, s1)"
    and "open_fid link (pp_tid p1) (pp_uid p1) (pp_name p1) (pipe_close link p1 s1) = (reopened, s2)"
  shows "\<not> pp_transact (fst (snd (pipe_call link request i p s)))
     \<and> (case reopened of
          Inl e \<Rightarrow> fst (pipe_call link request i p s) = Inl (both_attempts first e)
        | Inr fid \<Rightarrow>
            (let fresh = p1\<lparr>pp_transact := False, pp_transact_failure := Some first, pp_fid := fid, pp_offset := 0\<rparr> in
             case fst (write_read_call link request (collector_new i) fresh s2) of
               Inl second \<Rightarrow> fst (pipe_call link request i p s) = Inl (both_attempts first second)
             | Inr co \<Rightarrow> fst (pipe_call link request i p s) = protocol PPdu (collector_finish co)))"
proof (cases reopened)
  case (Inl e)
  then show ?thesis
    using assms by (simp add: pipe_call_def open_fid_pipe pipe_close_def both_failed_def both_attempts_def Let_def)
next
  case (Inr fid)
  let ?fresh = "p1\<lparr>pp_transact := False, pp_transact_failure := Some first, pp_fid := fid, pp_offset := 0\<rparr>"
  have call: "pipe_call link request i p s = second_attempt link request i ?fresh s2"
    using assms Inr by (simp add: pipe_call_def open_fid_pipe pipe_close_def Let_def)
  obtain m q s3 where wr: "write_read_call link request (collector_new i) ?fresh s2 = (m, q, s3)"
    by (metis prod_cases3)
  then have "pp_transact_failure q = Some first"
    using write_read_mode [of ?fresh link request "collector_new i" s2] by (simp add: same_mode_def)
  moreover have "\<not> pp_transact (fst (snd (second_attempt link request i ?fresh s2)))"
    by (simp add: second_attempt_mode)
  ultimately show ?thesis
    by (cases m) (simp_all add: call Inr wr second_attempt_def both_failed_def both_attempts_def Let_def)
qed

text \<open>
  An answer that the server stops in the middle of is not a failure of the transact mode: the read that
  got nothing ends the loop without an error, and the call fails with the missing fragment and keeps
  the mode for the next call.
\<close>

lemma unfinished_answer_no_fall_through:
  assumes "pp_transact p" "transact_call link request (collector_new i) p s = (Inr co, p1, s1)"
    and "\<not> co_complete co" "same_mode p p1"
  shows "\<exists>n. pipe_call link request i p s = (Inl (Protocol (PPdu (NoLastFragment n))), p1, s1) \<and> pp_transact p1"
  using assms by (auto simp: pipe_call_def collector_finish_def same_mode_def split: option.split)

text \<open>A connection that is lost, and a pipe on it.\<close>

definition lost_link :: "unit link" where
  "lost_link s r = (Inl Lost, s)"

definition idle_pipe :: pipe where
  "idle_pipe =
     \<lparr>pp_served = Served \<lparr>max_mpx_count = 1, max_buffer_size = MIN_BUFFER_SIZE, capabilities = 0\<rparr>,
      pp_tid = 1, pp_uid = 1, pp_fid = 1, pp_offset = 0, pp_transact = True, pp_transact_failure = None,
      pp_name = lit ''srvsvc''\<rparr>"

theorem pipe_falls_through_witness:
  "\<exists>first. fst (pipe_call lost_link [] 1 idle_pipe ()) = Inl (both_attempts first (ConnectionLost None))"
proof -
  have "\<exists>first. transact_call lost_link [] (collector_new 1) idle_pipe () = (Inl first, idle_pipe, ())"
    by (auto simp: transact_call_def lost_link_def Let_def split: sum.split)
  then obtain first where first: "transact_call lost_link [] (collector_new 1) idle_pipe () = (Inl first, idle_pipe, ())"
    by blast
  have on: "pp_transact idle_pipe" by (simp add: idle_pipe_def)
  have "open_fid lost_link tid uid name () = (Inl (ConnectionLost None), ())" for tid uid name
    by (simp add: open_fid_def send_def lost_link_def nt_create_request_encode_body_def file_word_counts
        align_to_2 require_word_aligned_def NAME_ALIGNMENT_def HEADER_LEN_def area_offset_def
        for_word_count_def area_at_def Let_def from_connection_def apfst_def)
  then have "fst (pipe_call lost_link [] 1 idle_pipe ()) = Inl (both_attempts first (ConnectionLost None))"
    using pipe_falls_through [OF on first, of "Inl (ConnectionLost None)" "()"] by (simp add: pipe_close_def)
  then show ?thesis ..
qed

end
