(* ===== verification/Unc.thy ===== *)
theory Unc
  imports Errors
begin

text \<open>
  UNC paths (\<open>unc.rs\<close>) and the two path shapes of \<open>path.rs\<close>: the server, the share
  and the share-relative path, each validated by the constructor its parser ends in.
\<close>

section \<open>The string functions the parsers use\<close>

definition BACKSLASH :: nat where "BACKSLASH = 0x5C"
definition SLASH :: nat where "SLASH = 0x2F"
definition COLON :: nat where "COLON = 0x3A"
definition DOT :: nat where "DOT = 0x2E"

lemmas char_defs = BACKSLASH_def SLASH_def COLON_def DOT_def

text \<open>\<open>char::is_whitespace\<close> (the Unicode property \<open>White_Space\<close>) and \<open>char::is_control\<close>.\<close>

definition is_whitespace :: "nat \<Rightarrow> bool" where
  "is_whitespace c \<longleftrightarrow>
     (0x9 \<le> c \<and> c \<le> 0xD) \<or> c = 0x20 \<or> c = 0x85 \<or> c = 0xA0 \<or> c = 0x1680 \<or> (0x2000 \<le> c \<and> c \<le> 0x200A)
     \<or> c = 0x2028 \<or> c = 0x2029 \<or> c = 0x202F \<or> c = 0x205F \<or> c = 0x3000"

definition is_control :: "nat \<Rightarrow> bool" where
  "is_control c \<longleftrightarrow> c \<le> 0x1F \<or> (0x7F \<le> c \<and> c \<le> 0x9F)"

definition trim :: "rstr \<Rightarrow> rstr" where
  "trim s = rev (dropWhile is_whitespace (rev (dropWhile is_whitespace s)))"

text \<open>\<open>split_once\<close>, \<open>rsplit_once\<close> and \<open>split\<close> on one character.\<close>

fun split_once :: "nat \<Rightarrow> rstr \<Rightarrow> (rstr \<times> rstr) option" where
  "split_once c [] = None"
| "split_once c (d # s) =
     (if d = c then Some ([], s) else map_option (\<lambda>(a, b). (d # a, b)) (split_once c s))"

definition rsplit_once :: "nat \<Rightarrow> rstr \<Rightarrow> (rstr \<times> rstr) option" where
  "rsplit_once c s = map_option (\<lambda>(a, b). (rev b, rev a)) (split_once c (rev s))"

fun split_on :: "nat \<Rightarrow> rstr \<Rightarrow> rstr list" where
  "split_on c [] = [[]]"
| "split_on c (d # s) =
     (if d = c then [] # split_on c s
      else (case split_on c s of x # xs \<Rightarrow> (d # x) # xs | [] \<Rightarrow> [[d]]))"

text \<open>\<open>str::parse::<u16>\<close>: an optional plus and decimal digits that fit, and what a port prints as.\<close>

definition digits_value :: "rstr \<Rightarrow> nat" where
  "digits_value s = foldl (\<lambda>n d. 10 * n + (d - 0x30)) 0 s"

definition parse_u16 :: "rstr \<Rightarrow> u16 option" where
  "parse_u16 s =
     (let ds = (case s of c # rest \<Rightarrow> if c = 0x2B then rest else s | [] \<Rightarrow> s) in
      if ds \<noteq> [] \<and> list_all (\<lambda>d. 0x30 \<le> d \<and> d \<le> 0x39) ds \<and> digits_value ds < 65536
      then Some (of_nat (digits_value ds)) else None)"

fun decimal :: "nat \<Rightarrow> rstr" where
  "decimal n = (if n < 10 then [0x30 + n] else decimal (n div 10) @ [0x30 + n mod 10])"

declare decimal.simps [simp del]

section \<open>The server\<close>

definition DEFAULT_PORT :: u16 where "DEFAULT_PORT = 445"
definition IPC_SHARE :: rstr where "IPC_SHARE = lit ''IPC$''"

record server =
  sv_host :: rstr
  sv_port :: u16

definition validate_host :: "rstr \<Rightarrow> error + unit" where
  "validate_host host =
     (if host = [] then Inl (InvalidPath NoServer)
      else if 0x5B \<in> set host \<or> 0x5D \<in> set host \<or> COLON \<in> set host then Inl (InvalidPath Ipv6Literal)
      else if list_ex (\<lambda>c. c = BACKSLASH \<or> c = SLASH \<or> is_whitespace c \<or> is_control c) host
      then Inl (InvalidPath BadHostChar)
      else Inr ())"

definition server_new :: "rstr \<Rightarrow> u16 \<Rightarrow> error + server" where
  "server_new host port =
     rbind (validate_host host) (\<lambda>_.
     if port = 0 then Inl (InvalidPath PortZero) else Inr \<lparr>sv_host = host, sv_port = port\<rparr>)"

definition dial_address :: "server \<Rightarrow> rstr \<times> u16" where
  "dial_address s = (sv_host s, sv_port s)"

text \<open>The lowercasing of \<open>str::to_lowercase\<close> is the standard library's table, a parameter.\<close>

definition cache_key :: "(rstr \<Rightarrow> rstr) \<Rightarrow> server \<Rightarrow> rstr" where
  "cache_key to_lowercase s = to_lowercase (sv_host s) @ [COLON] @ decimal (unat (sv_port s))"

definition unc_name :: "server \<Rightarrow> rstr" where
  "unc_name s = [BACKSLASH, BACKSLASH] @ sv_host s"

definition unc_to :: "server \<Rightarrow> rstr \<Rightarrow> rstr" where
  "unc_to s share = unc_name s @ [BACKSLASH] @ share"

definition ipc_path :: "server \<Rightarrow> rstr" where
  "ipc_path s = unc_to s IPC_SHARE"

definition server_from_str :: "rstr \<Rightarrow> error + server" where
  "server_from_str s =
     (if (s \<noteq> [] \<and> hd s = 0x5B) \<or> 0x5D \<in> set s then server_new s DEFAULT_PORT
      else
        (case rsplit_once COLON s of
           Some (host, port) \<Rightarrow>
             if COLON \<in> set host then server_new s DEFAULT_PORT
             else rbind (ok_or (InvalidPath NotAPort) (parse_u16 port)) (server_new host)
         | None \<Rightarrow> server_new s DEFAULT_PORT))"

definition server_display :: "server \<Rightarrow> rstr" where
  "server_display s =
     (if sv_port s = DEFAULT_PORT then sv_host s else sv_host s @ [COLON] @ decimal (unat (sv_port s)))"

section \<open>The UNC path\<close>

record unc_path =
  up_server :: server
  up_share :: rstr

definition validate_share :: "rstr \<Rightarrow> error + unit" where
  "validate_share share =
     (if share = [] then Inl (InvalidPath NoShare)
      else if 0 \<in> set share then Inl (InvalidPath NullByte)
      else if BACKSLASH \<in> set share \<or> SLASH \<in> set share then Inl (InvalidPath ShareSeparator)
      else Inr ())"

definition unc_path_new :: "server \<Rightarrow> rstr \<Rightarrow> error + unc_path" where
  "unc_path_new s share =
     rbind (validate_share share) (\<lambda>_. Inr \<lparr>up_server = s, up_share = share\<rparr>)"

definition share_path_of :: "unc_path \<Rightarrow> rstr" where
  "share_path_of p = unc_to (up_server p) (up_share p)"

text \<open>\<open>strip_suffix('\')\<close>, and \<open>strip_prefix\<close> of two.\<close>

definition strip_backslash :: "rstr \<Rightarrow> rstr" where
  "strip_backslash s = (if s \<noteq> [] \<and> last s = BACKSLASH then butlast s else s)"

definition unc_path_from_str :: "rstr \<Rightarrow> error + unc_path" where
  "unc_path_from_str path =
     rbind (if take 2 path = [BACKSLASH, BACKSLASH] then Inr (drop 2 path) else Inl (InvalidPath NotUnc)) (\<lambda>rest.
     rbind (ok_or (InvalidPath NamesNoShare) (split_once BACKSLASH rest)) (\<lambda>(s, share).
     let share = strip_backslash share in
     rbind (server_from_str s) (\<lambda>s. unc_path_new s share)))"

definition unc_path_display :: "unc_path \<Rightarrow> rstr" where
  "unc_path_display p =
     [BACKSLASH, BACKSLASH] @ server_display (up_server p) @ [BACKSLASH] @ up_share p"

section \<open>The path inside a share\<close>

text \<open>The walk over the components from a depth.\<close>

fun escapes_from :: "nat \<Rightarrow> rstr list \<Rightarrow> bool" where
  "escapes_from depth [] = False"
| "escapes_from depth (c # cs) =
     (if c = [] \<or> c = [DOT] then escapes_from depth cs
      else if c = [DOT, DOT] then (if depth = 0 then True else escapes_from (depth - 1) cs)
      else escapes_from (depth + 1) cs)"

definition escapes_share_root :: "rstr \<Rightarrow> bool" where
  "escapes_share_root path = escapes_from 0 (split_on BACKSLASH path)"

definition share_path_new :: "rstr \<Rightarrow> error + rstr" where
  "share_path_new path =
     (let normalized = map (\<lambda>c. if c = SLASH then BACKSLASH else c) (trim path) in
      if 0 \<in> set normalized then Inl (InvalidPath NullByte)
      else if normalized \<noteq> [] \<and> hd normalized = BACKSLASH then Inl (InvalidPath AbsolutePath)
      else if escapes_share_root normalized then Inl (InvalidPath EscapesRoot)
      else Inr normalized)"

definition is_root :: "rstr \<Rightarrow> bool" where
  "is_root path \<longleftrightarrow> path = []"

text \<open>\<open>path.rs\<close>: the pattern a listing searches on, and a directory joined to an entry.\<close>

definition search_pattern :: "rstr \<Rightarrow> rstr" where
  "search_pattern normalized =
     (if normalized = [] then [BACKSLASH, 0x2A]
      else if last normalized = BACKSLASH then normalized @ [0x2A]
      else normalized @ [BACKSLASH, 0x2A])"

definition path_join :: "rstr \<Rightarrow> rstr \<Rightarrow> rstr" where
  "path_join directory name =
     (if directory = [] then name
      else if last directory = BACKSLASH then directory @ name
      else directory @ [BACKSLASH] @ name)"

section \<open>Printing a port and reading it back\<close>

lemma decimal_digits: "list_all (\<lambda>d. 0x30 \<le> d \<and> d \<le> 0x39) (decimal n)"
proof (induction n rule: decimal.induct)
  case (1 n)
  have "n mod 10 < 10" by simp
  then have "0x30 + n mod 10 \<le> 0x39" by linarith
  then show ?case using 1 by (subst decimal.simps) auto
qed

lemma decimal_value: "digits_value (decimal n) = n"
proof (induction n rule: decimal.induct)
  case (1 n)
  then show ?case by (subst decimal.simps) (auto simp: digits_value_def)
qed

lemma decimal_nonempty: "decimal n \<noteq> []"
  by (subst decimal.simps) simp

lemma parse_decimal: "parse_u16 (decimal (unat p)) = Some p"
proof -
  have "hd (decimal (unat p)) \<noteq> 0x2B"
    using decimal_digits [of "unat p"] decimal_nonempty [of "unat p"] by (cases "decimal (unat p)") auto
  then have "(case decimal (unat p) of c # rest \<Rightarrow> if c = 0x2B then rest else decimal (unat p)
      | [] \<Rightarrow> decimal (unat p)) = decimal (unat p)"
    by (cases "decimal (unat p)") auto
  then show ?thesis
    using decimal_digits [of "unat p"] decimal_nonempty [of "unat p"] unat_u16 [of p]
    by (simp add: parse_u16_def decimal_value)
qed

lemma digit_not: "list_all (\<lambda>d. 0x30 \<le> d \<and> d \<le> (0x39 :: nat)) s \<Longrightarrow> c < 0x30 \<or> 0x39 < c \<Longrightarrow> c \<notin> set s"
  by (auto simp: list_all_iff)

section \<open>Splitting\<close>

lemma split_once_append: "c \<notin> set a \<Longrightarrow> split_once c (a @ c # b) = Some (a, b)"
  by (induction a) auto

lemma split_once_None: "c \<notin> set s \<Longrightarrow> split_once c s = None"
  by (induction s) auto

lemma rsplit_once_append: "c \<notin> set b \<Longrightarrow> rsplit_once c (a @ c # b) = Some (a, b)"
  using split_once_append [of c "rev b" "rev a"] by (simp add: rsplit_once_def)

lemma rsplit_once_None: "c \<notin> set s \<Longrightarrow> rsplit_once c s = None"
  using split_once_None [of c "rev s"] by (simp add: rsplit_once_def)

text \<open>What a constructor accepted.\<close>

lemma server_new_Inr_iff:
  "server_new host port = Inr s \<longleftrightarrow>
     validate_host host = Inr () \<and> port \<noteq> 0 \<and> s = \<lparr>sv_host = host, sv_port = port\<rparr>"
  by (auto simp: server_new_def rbind_Inr_iff)

lemma validate_host_Inr:
  "validate_host host = Inr () \<Longrightarrow>
   host \<noteq> [] \<and> 0x5B \<notin> set host \<and> 0x5D \<notin> set host \<and> COLON \<notin> set host \<and> BACKSLASH \<notin> set host \<and> SLASH \<notin> set host"
  by (auto simp: validate_host_def list_ex_iff split: if_splits)

lemma server_display_no_backslash:
  "validate_host (sv_host s) = Inr () \<Longrightarrow> BACKSLASH \<notin> set (server_display s)"
  using digit_not [OF decimal_digits, of BACKSLASH "unat (sv_port s)"]
  by (auto simp: server_display_def COLON_def BACKSLASH_def dest: validate_host_Inr)

lemma server_parses_back:
  assumes "validate_host (sv_host s) = Inr ()" "sv_port s \<noteq> 0"
  shows "server_from_str (server_display s) = Inr s"
proof -
  note host = validate_host_Inr [OF assms(1)]
  let ?d = "decimal (unat (sv_port s))"
  have digits: "COLON \<notin> set ?d" "0x5D \<notin> set ?d"
    using digit_not [OF decimal_digits] by (simp_all add: COLON_def)
  have first: "hd (sv_host s) \<noteq> 0x5B" using host hd_in_set by metis
  have new: "server_new (sv_host s) (sv_port s) = Inr s"
    using assms by (simp add: server_new_Inr_iff)
  show ?thesis
  proof (cases "sv_port s = DEFAULT_PORT")
    case True
    then show ?thesis
      using host first new by (simp add: server_from_str_def server_display_def rsplit_once_None)
  next
    case False
    have "rsplit_once COLON (server_display s) = Some (sv_host s, ?d)"
      using False digits(1) rsplit_once_append [of COLON ?d "sv_host s"] by (simp add: server_display_def)
    moreover have "0x5D \<notin> set (server_display s)" "hd (server_display s) \<noteq> 0x5B"
      using host first digits(2) by (auto simp: server_display_def COLON_def hd_append)
    ultimately show ?thesis
      using host new by (simp add: server_from_str_def parse_decimal)
  qed
qed

text \<open>
  C39. A UNC path that a constructor accepted prints as a string that parses back to the same value, port
  and all, while the path its tree connect carries and the server's \<open>IPC$\<close> path are built
  from the host alone: changing the port changes neither.
\<close>

theorem unc_roundtrip:
  assumes "server_new host port = Inr s" "unc_path_new s share = Inr p"
  shows "unc_path_from_str (unc_path_display p) = Inr p
     \<and> server_from_str (server_display s) = Inr s
     \<and> share_path_of p = [BACKSLASH, BACKSLASH] @ host @ [BACKSLASH] @ share
     \<and> ipc_path s = [BACKSLASH, BACKSLASH] @ host @ [BACKSLASH] @ IPC_SHARE"
proof -
  have s: "validate_host host = Inr ()" "port \<noteq> 0" "s = \<lparr>sv_host = host, sv_port = port\<rparr>"
    using assms(1) by (simp_all add: server_new_Inr_iff)
  have p: "p = \<lparr>up_server = s, up_share = share\<rparr>" and share: "validate_share share = Inr ()"
    using assms(2) by (auto simp: unc_path_new_def rbind_Inr_iff)
  have parsed: "server_from_str (server_display s) = Inr s"
    by (rule server_parses_back) (simp_all add: s)
  have "BACKSLASH \<notin> set (server_display s)" by (rule server_display_no_backslash) (simp add: s)
  then have "split_once BACKSLASH (server_display s @ BACKSLASH # share) = Some (server_display s, share)"
    by (rule split_once_append)
  moreover have "strip_backslash share = share"
  proof -
    have "share \<noteq> []" "BACKSLASH \<notin> set share"
      using share by (auto simp: validate_share_def split: if_splits)
    then have "last share \<noteq> BACKSLASH" by (metis last_in_set)
    then show ?thesis by (simp add: strip_backslash_def)
  qed
  ultimately have "unc_path_from_str (unc_path_display p) = Inr p"
    using parsed share by (simp add: unc_path_from_str_def unc_path_display_def p unc_path_new_def Let_def)
  then show ?thesis
    using parsed by (simp add: share_path_of_def ipc_path_def unc_to_def unc_name_def p s)
qed

theorem unc_roundtrip_witness:
  "unc_path_from_str (unc_path_display \<lparr>up_server = \<lparr>sv_host = lit ''Host'', sv_port = 10445\<rparr>, up_share = lit ''a b''\<rparr>)
     = Inr \<lparr>up_server = \<lparr>sv_host = lit ''Host'', sv_port = 10445\<rparr>, up_share = lit ''a b''\<rparr>"
proof -
  let ?s = "\<lparr>sv_host = lit ''Host'', sv_port = 10445 :: u16\<rparr>"
  have "server_new (lit ''Host'') 10445 = Inr ?s"
    by (simp add: server_new_def validate_host_def lit_def char_defs is_whitespace_def is_control_def)
  moreover have "unc_path_new ?s (lit ''a b'') = Inr \<lparr>up_server = ?s, up_share = lit ''a b''\<rparr>"
    by (simp add: unc_path_new_def validate_share_def lit_def char_defs)
  ultimately show ?thesis using unc_roundtrip by blast
qed

section \<open>No path reaches outside the share\<close>

text \<open>
  Resolving a path from a directory inside the share, the components of the directory innermost first:
  an empty component and a dot stay, two dots climb, a name descends.  Climbing out of the root is \<open>None\<close>.
\<close>

fun resolve :: "rstr list \<Rightarrow> rstr list \<Rightarrow> rstr list option" where
  "resolve cwd [] = Some cwd"
| "resolve cwd (c # cs) =
     (if c = [] \<or> c = [DOT] then resolve cwd cs
      else if c = [DOT, DOT] then (case cwd of [] \<Rightarrow> None | _ # up \<Rightarrow> resolve up cs)
      else resolve (c # cwd) cs)"

lemma escapes_from_resolve: "escapes_from (length cwd) cs \<longleftrightarrow> resolve cwd cs = None"
proof (induction cs arbitrary: cwd)
  case (Cons c cs)
  show ?case using Cons [of "c # cwd"] Cons [of cwd] Cons [of "tl cwd"] by (cases cwd) auto
qed simp

lemma resolve_append: "resolve cwd (xs @ ys) = Option.bind (resolve cwd xs) (\<lambda>d. resolve d ys)"
  by (induction cwd xs rule: resolve.induct) (auto split: list.split)

lemma trim_trim: "trim (trim s) = trim s"
proof -
  define t where "t = dropWhile is_whitespace s"
  define u where "u = rev (dropWhile is_whitespace (rev t))"
  have t: "t = [] \<or> \<not> is_whitespace (hd t)"
    unfolding t_def using hd_dropWhile by blast
  obtain w where w: "t = u @ w"
    unfolding u_def by (metis rev_append rev_rev_ident takeWhile_dropWhile_id)
  have "u = [] \<or> \<not> is_whitespace (hd u)" using t w by (cases u) auto
  then have 1: "dropWhile is_whitespace u = u" by (cases u) auto
  have "dropWhile is_whitespace (rev u) = rev u" unfolding u_def by simp
  then show ?thesis using 1 by (simp add: trim_def t_def [symmetric] u_def [symmetric])
qed

lemma is_whitespace_rewrite: "is_whitespace (if c = SLASH then BACKSLASH else c) = is_whitespace c"
  by (simp add: is_whitespace_def char_defs)

lemma trim_rewrite:
  "trim (map (\<lambda>c. if c = SLASH then BACKSLASH else c) s) = map (\<lambda>c. if c = SLASH then BACKSLASH else c) (trim s)"
  by (simp add: trim_def dropWhile_map comp_def is_whitespace_rewrite rev_map)

lemma rewrite_twice:
  "map (\<lambda>c. if c = SLASH then BACKSLASH else c) (map (\<lambda>c. if c = SLASH then BACKSLASH else c) s) =
   map (\<lambda>c. if c = SLASH then BACKSLASH else c) s"
  by (simp add: char_defs)

text \<open>
  C38. A path the policy accepts never leaves the share: resolving its components one after another, in
  every prefix of them, stays at or below the root.  The path is relative, carries no null and no
  forward slash, and constructing it again from its own text changes nothing.
\<close>

theorem share_path_contained:
  assumes "share_path_new path = Inr normalized"
  shows "resolve [] (take n (split_on BACKSLASH normalized)) \<noteq> None
     \<and> 0 \<notin> set normalized \<and> SLASH \<notin> set normalized
     \<and> (normalized = [] \<or> hd normalized \<noteq> BACKSLASH)
     \<and> share_path_new normalized = Inr normalized"
proof -
  define f where "f = (\<lambda>c. if c = SLASH then BACKSLASH else c)"
  have n: "normalized = map f (trim path)" and ok: "0 \<notin> set normalized"
      "\<not> (normalized \<noteq> [] \<and> hd normalized = BACKSLASH)" "\<not> escapes_share_root normalized"
    using assms by (auto simp: share_path_new_def f_def Let_def split: if_splits)
  have again: "map f (trim normalized) = normalized"
    unfolding n f_def by (simp only: trim_rewrite trim_trim rewrite_twice)
  have "resolve [] (split_on BACKSLASH normalized) \<noteq> None"
    using ok(3) escapes_from_resolve [of "[]"] by (simp add: escapes_share_root_def)
  then have "resolve [] (take n (split_on BACKSLASH normalized)) \<noteq> None"
    using resolve_append [of "[]" "take n (split_on BACKSLASH normalized)" "drop n (split_on BACKSLASH normalized)"]
    by (cases "resolve [] (take n (split_on BACKSLASH normalized))") auto
  moreover have "SLASH \<notin> set normalized" unfolding n by (auto simp: f_def char_defs)
  moreover have "share_path_new normalized = Inr normalized"
    using ok again by (simp add: share_path_new_def f_def [symmetric])
  ultimately show ?thesis using ok by blast
qed

theorem share_path_contained_witness:
  "share_path_new (lit '' a/../b.txt '') = Inr (lit ''a'' @ BACKSLASH # lit ''..'' @ BACKSLASH # lit ''b.txt'')
   \<and> resolve [] (take 2 (split_on BACKSLASH (lit ''a'' @ BACKSLASH # lit ''..'' @ BACKSLASH # lit ''b.txt''))) \<noteq> None"
proof -
  let ?n = "lit ''a'' @ BACKSLASH # lit ''..'' @ BACKSLASH # lit ''b.txt''"
  have "share_path_new (lit '' a/../b.txt '') = Inr ?n"
    by (simp add: share_path_new_def trim_def lit_def char_defs is_whitespace_def escapes_share_root_def)
  then show ?thesis using share_path_contained [of "lit '' a/../b.txt ''" ?n 2] by blast
qed

end
