(* ===== verification/Rpc.thy ===== *)
theory Rpc
  imports Pipe Unc
begin

text \<open>
  Share enumeration (\<open>rpc/mod.rs\<close>): RAP first, then \<open>srvsvc\<close> over a pipe, with the loop that
  asks for page after page.
\<close>

section \<open>The paging loop\<close>

definition MAX_ROUNDS :: nat where "MAX_ROUNDS = 64"

text \<open>The pipe, as the loop uses it: what a call answers, and the state it leaves.\<close>

type_synonym 'w rpc_call = "'w \<Rightarrow> bytes \<Rightarrow> u32 \<Rightarrow> (error + answer) \<times> 'w"

text \<open>
  One round: the call id is the round's number from one.  The pipe is called once whatever follows.
\<close>

definition enumerate_round ::
  "'s rpc_call \<Rightarrow> rstr \<Rightarrow> nat \<Rightarrow> u32 \<Rightarrow> 's \<Rightarrow> (error + page) \<times> 's" where
  "enumerate_round call server round resume s =
     (let call_id = of_nat round + 1;
          (reply, s) = call s (pdu_request call_id OPNUM (srvsvc_request server resume)) call_id in
      (rbind reply (\<lambda>an.
       rbind (protocol PPdu (pdu_response an)) (\<lambda>stub.
       protocol PSrvsvc (srvsvc_response stub))), s))"

text \<open>\<open>left\<close> rounds remain of \<open>for round in 0..MAX_ROUNDS\<close>.\<close>

fun enumerate_loop ::
  "'s rpc_call \<Rightarrow> rstr \<Rightarrow> nat \<Rightarrow> share list \<Rightarrow> u32 \<Rightarrow> 's \<Rightarrow> (error + share list) \<times> 's" where
  "enumerate_loop call server 0 shares resume s =
     (Inl (Protocol (PPaging (TooManyRounds MAX_ROUNDS (length shares)))), s)"
| "enumerate_loop call server (Suc left) shares resume s =
     (case enumerate_round call server (MAX_ROUNDS - Suc left) resume s of
        (Inl e, s) \<Rightarrow> (Inl e, s)
      | (Inr pg, s) \<Rightarrow>
          let shares = shares @ pg_shares pg in
          if \<not> pg_more pg then (Inr shares, s)
          else if pg_shares pg = [] then (Inl (Protocol (PPaging (NoProgress resume))), s)
          else enumerate_loop call server left shares (pg_resume pg) s)"

definition enumerate_shares ::
  "'s rpc_call \<Rightarrow> rstr \<Rightarrow> 's \<Rightarrow> (error + share list) \<times> 's" where
  "enumerate_shares call server s =
     (let (bound, s) = call s (bind_pdu INTERFACE INTERFACE_VERSION) 0 in
      case rbind bound (\<lambda>an. protocol PPdu (bind_ack an)) of
        Inl e \<Rightarrow> (Inl e, s)
      | Inr _ \<Rightarrow> enumerate_loop call server MAX_ROUNDS [] 0 s)"

section \<open>What the loop returns\<close>

text \<open>The pages a run of rounds was answered with, each round resuming where the last left off.\<close>

inductive rounds ::
  "'s rpc_call \<Rightarrow> rstr \<Rightarrow> nat \<Rightarrow> u32 \<Rightarrow> 's \<Rightarrow> page list \<Rightarrow> 's \<Rightarrow> bool"
  for call :: "'s rpc_call" and server :: rstr where
  rounds_none: "rounds call server n resume s [] s"
| rounds_page: "enumerate_round call server n resume s = (Inr pg, s1) \<Longrightarrow>
    rounds call server (Suc n) (pg_resume pg) s1 pgs s' \<Longrightarrow> rounds call server n resume s (pg # pgs) s'"

inductive_simps rounds_simps [simp]:
  "rounds call server n resume s [] s'"
  "rounds call server n resume s (pg # pgs) s'"

definition whole_enumeration :: "page list \<Rightarrow> bool" where
  "whole_enumeration pgs \<longleftrightarrow>
     pgs \<noteq> [] \<and> \<not> pg_more (last pgs) \<and>
     list_all (\<lambda>pg. pg_more pg \<and> pg_shares pg \<noteq> []) (butlast pgs)"

lemma whole_enumeration_Cons:
  "whole_enumeration (pg # pgs) \<longleftrightarrow>
     (if pgs = [] then \<not> pg_more pg else pg_more pg \<and> pg_shares pg \<noteq> [] \<and> whole_enumeration pgs)"
  by (auto simp: whole_enumeration_def)

lemma enumerate_loop_iff:
  "left \<le> MAX_ROUNDS \<Longrightarrow>
   enumerate_loop call server left shares resume s = (Inr all, s') \<longleftrightarrow>
     (\<exists>pgs. rounds call server (MAX_ROUNDS - left) resume s pgs s' \<and> length pgs \<le> left \<and>
            whole_enumeration pgs \<and> all = shares @ concat (map pg_shares pgs))"
proof (induction left arbitrary: shares resume s)
  case 0
  then show ?case by (auto simp: whole_enumeration_def)
next
  case (Suc left)
  let ?n = "MAX_ROUNDS - Suc left"
  have step: "Suc ?n = MAX_ROUNDS - left" using Suc.prems by simp
  obtain a s1 where r: "enumerate_round call server ?n resume s = (a, s1)" by fastforce
  show ?case
  proof (cases a)
    case (Inl e)
    have "\<not> (rounds call server ?n resume s pgs s' \<and> whole_enumeration pgs)" for pgs
      by (cases pgs) (simp_all add: r Inl whole_enumeration_def)
    then show ?thesis by (auto simp: r Inl)
  next
    case (Inr pg)
    have ex: "(\<exists>pgs. rounds call server ?n resume s pgs s' \<and> length pgs \<le> Suc left \<and>
            whole_enumeration pgs \<and> all = shares @ concat (map pg_shares pgs)) \<longleftrightarrow>
         (\<exists>pgs. rounds call server (MAX_ROUNDS - left) (pg_resume pg) s1 pgs s' \<and> length pgs \<le> left \<and>
            whole_enumeration (pg # pgs) \<and> all = shares @ pg_shares pg @ concat (map pg_shares pgs))"
      (is "(\<exists>pgs. ?P pgs) \<longleftrightarrow> (\<exists>pgs. ?Q pgs)")
    proof
      assume "\<exists>pgs. ?P pgs"
      then obtain pgs where P: "?P pgs" by blast
      then obtain q qs where pgs: "pgs = q # qs" by (cases pgs) (simp_all add: whole_enumeration_def)
      then have "q = pg" using P by (simp add: r Inr)
      then have "?Q qs" using P by (simp add: pgs r Inr step)
      then show "\<exists>pgs. ?Q pgs" by blast
    next
      assume "\<exists>pgs. ?Q pgs"
      then obtain pgs where "?Q pgs" by blast
      then have "?P (pg # pgs)" by (simp add: r Inr step)
      then show "\<exists>pgs. ?P pgs" by blast
    qed
    consider "\<not> pg_more pg" | "pg_more pg" "pg_shares pg = []" | "pg_more pg" "pg_shares pg \<noteq> []" by blast
    then show ?thesis
    proof cases
      case 1
      then show ?thesis unfolding ex by (auto simp: r Inr whole_enumeration_Cons)
    next
      case 2
      then show ?thesis unfolding ex by (auto simp: r Inr whole_enumeration_Cons)
    next
      case 3
      have "whole_enumeration (pg # pgs) \<longleftrightarrow> whole_enumeration pgs" for pgs
        using 3 by (auto simp: whole_enumeration_Cons) (simp add: whole_enumeration_def)
      then show ?thesis
        unfolding ex using Suc.IH [of "shares @ pg_shares pg" "pg_resume pg" s1] Suc.prems 3 by (simp add: r Inr)
    qed
  qed
qed


section \<open>Both ways of enumerating\<close>

record ipc =
  ip_served :: served
  ip_tid :: u16
  ip_uid :: u16

definition SRVSVC_PIPE :: rstr where "SRVSVC_PIPE = 0x5C # lit ''srvsvc''"

text \<open>One transaction on the tree.\<close>

definition ipc_transaction ::
  "'s link \<Rightarrow> ipc \<Rightarrow> trans_request \<Rightarrow> string \<Rightarrow> 's \<Rightarrow> (error + reply) \<times> 's" where
  "ipc_transaction link ip t what s =
     (case check_limits t (max_buffer_size (negotiated_of (ip_served ip))) of
        Inl e \<Rightarrow> (Inl (too_large e what), s)
      | Inr _ \<Rightarrow>
          (case trans_request_encode_body t of
             Inl e \<Rightarrow> (Inl (from_wire e), s)
           | Inr b \<Rightarrow>
               apfst (map_sum from_connection id)
                 (link s (request_transaction (tr_command t) (ip_tid ip) (ip_uid ip) b
                            (tr_max_parameter_count t) (tr_max_data_count t)))))"

definition over_rap :: "'s link \<Rightarrow> ipc \<Rightarrow> 's \<Rightarrow> (error + share list) \<times> 's" where
  "over_rap link ip s =
     (let (reply, s) = ipc_transaction link ip (rap_request (rap_parameters MAX_DATA_COUNT) [])
                         ''RAP NetShareEnum'' s in
      (rbind reply (\<lambda>reply.
       if reply_status reply \<noteq> SUCCESS then Inl (refused (reply_status reply))
       else
         rbind (ok_or (Protocol (PWire (NoResponseBody CMD_TRANSACTION (reply_status reply))))
                  (rp_transaction reply)) (\<lambda>bd.
         protocol PRap (rap_response (bd_parameters bd) (bd_data bd)))), s))"

definition over_srvsvc :: "'s link \<Rightarrow> ipc \<Rightarrow> rstr \<Rightarrow> 's \<Rightarrow> (error + share list) \<times> 's" where
  "over_srvsvc link ip server s =
     (case pipe_open link (ip_served ip) (ip_tid ip) (ip_uid ip) SRVSVC_PIPE s of
        (Inl e, s) \<Rightarrow> (Inl e, s)
      | (Inr p, s) \<Rightarrow>
          (let (shares, p, s) =
             enumerate_shares (\<lambda>(p, s) request call_id. pipe_call link request call_id p s) server (p, s) in
           (shares, pipe_close link p s)))"

text \<open>A connection that has died, or a tree that has gone, is no refusal of RAP.\<close>

definition ends_enumeration :: "error \<Rightarrow> bool" where
  "ends_enumeration e = (case e of ConnectionLost _ \<Rightarrow> True | TreeDisconnected \<Rightarrow> True | _ \<Rightarrow> False)"

definition list_shares :: "'s link \<Rightarrow> ipc \<Rightarrow> server \<Rightarrow> 's \<Rightarrow> (error + share list) \<times> 's" where
  "list_shares link ip server s =
     (let name = unc_name server in
      case over_rap link ip s of
        (Inr shares, s) \<Rightarrow> (Inr shares, s)
      | (Inl first, s) \<Rightarrow>
          if ends_enumeration first then (Inl first, s)
          else
            (case over_srvsvc link ip name s of
               (Inr shares, s) \<Rightarrow> (Inr shares, s)
             | (Inl second, s) \<Rightarrow> (Inl (BothAttemptsFailed ''share enumeration'' first second), s)))"

end
