(* ===== verification/Setup.thy ===== *)
theory Setup
  imports Message
begin

text \<open>
  The handshake messages: \<open>NEGOTIATE\<close> (\<open>wire/negotiate.rs\<close>),
  \<open>SESSION_SETUP_ANDX\<close> and \<open>LOGOFF_ANDX\<close> (\<open>wire/session.rs\<close>).  One dialect is
  offered; the strings behind a security token are aligned whatever the token's length.  Times are
  kept as their 64 and 16 bits.
\<close>

section \<open>NEGOTIATE\<close>

definition NT_LM_0_12 :: rstr where "NT_LM_0_12 = lit ''NT LM 0.12''"
definition NO_COMMON_DIALECT :: u16 where "NO_COMMON_DIALECT = 0xFFFF"
definition DIALECT_ENTRY :: u8 where "DIALECT_ENTRY = 0x02"
definition NEGOTIATE_RESPONSE_WORDS :: u8 where "NEGOTIATE_RESPONSE_WORDS = 17"

type_synonym negotiate_request = "rstr list"

definition single_dialect :: negotiate_request where
  "single_dialect = [NT_LM_0_12]"

definition negotiate_request_encode_body :: "negotiate_request \<Rightarrow> wire_error + bytes" where
  "negotiate_request_encode_body dialects =
     (let area = foldl (\<lambda>area dialect. snd (put [0] (snd (put (utf8 dialect) (snd (put [DIALECT_ENTRY] area))))))
                   (for_word_count 0) dialects
      in Inr (body [] (area_bytes area)))"

text \<open>The loop over the byte area; \<open>tot\<close> is the area's length.\<close>

function decode_dialects :: "nat \<Rightarrow> bytes \<Rightarrow> wire_error + rstr list" where
  "decode_dialects tot [] = Inr []"
| "decode_dialects tot (marker # rest) =
     (if marker \<noteq> DIALECT_ENTRY
      then Inl (Truncated ''dialect list'' tot (tot - length (marker # rest)))
      else
        (let text = takeWhile (\<lambda>b. b \<noteq> 0) rest in
         if length text = length rest
         then Inl (Truncated ''dialect string'' tot (tot - length (marker # rest)))
         else rbind (decode_dialects tot (drop (length text + 1) rest))
                (\<lambda>more. Inr (from_utf8_lossy text # more))))"
  by pat_completeness auto
termination
  by (relation "measure (length \<circ> snd)") auto

definition negotiate_request_decode :: "message \<Rightarrow> wire_error + negotiate_request" where
  "negotiate_request_decode m =
     (if h_command (header m) \<noteq> CMD_NEGOTIATE
      then Inl (UnexpectedCommand CMD_NEGOTIATE (h_command (header m)))
      else rbind (byte_area_of m) (\<lambda>area. decode_dialects (length area) area))"

record negotiate_words =
  ng_dialect_index :: u16
  ng_security_mode :: u8
  ng_max_mpx_count :: u16
  ng_max_number_vcs :: u16
  ng_max_buffer_size :: u32
  ng_max_raw_size :: u32
  ng_session_key :: u32
  ng_capabilities :: u32
  ng_system_time :: u64
  ng_server_time_zone :: u16
  ng_encryption_key_length :: u8

definition wr_negotiate_words :: "negotiate_words \<Rightarrow> bytes" where
  "wr_negotiate_words w =
     le16 (ng_dialect_index w) @ le8 (ng_security_mode w) @ le16 (ng_max_mpx_count w)
     @ le16 (ng_max_number_vcs w) @ le32 (ng_max_buffer_size w) @ le32 (ng_max_raw_size w)
     @ le32 (ng_session_key w) @ le32 (ng_capabilities w) @ le64 (ng_system_time w)
     @ le16 (ng_server_time_zone w) @ le8 (ng_encryption_key_length w)"

definition rd_negotiate_words :: "bytes \<Rightarrow> (negotiate_words \<times> bytes) option" where
  "rd_negotiate_words bs = do {
     (dialect, bs) \<leftarrow> rd16 bs;
     (security, bs) \<leftarrow> rd8 bs;
     (mpx, bs) \<leftarrow> rd16 bs;
     (vcs, bs) \<leftarrow> rd16 bs;
     (buffer, bs) \<leftarrow> rd32 bs;
     (raw, bs) \<leftarrow> rd32 bs;
     (key, bs) \<leftarrow> rd32 bs;
     (capabilities, bs) \<leftarrow> rd32 bs;
     (time, bs) \<leftarrow> rd64 bs;
     (zone, bs) \<leftarrow> rd16 bs;
     (key_length, bs) \<leftarrow> rd8 bs;
     Some (\<lparr>ng_dialect_index = dialect, ng_security_mode = security, ng_max_mpx_count = mpx,
            ng_max_number_vcs = vcs, ng_max_buffer_size = buffer, ng_max_raw_size = raw,
            ng_session_key = key, ng_capabilities = capabilities, ng_system_time = time,
            ng_server_time_zone = zone, ng_encryption_key_length = key_length\<rparr>, bs)
   }"

interpretation negotiate_words: word_layout wr_negotiate_words rd_negotiate_words 17
  by unfold_locales (simp_all add: wr_negotiate_words_def rd_negotiate_words_def codec_simps)

record negotiate_response =
  np_words :: negotiate_words
  np_server_guid :: bytes
  np_security_blob :: bytes

definition negotiate_response_decode :: "message \<Rightarrow> wire_error + negotiate_response" where
  "negotiate_response_decode m =
     rbind (expect_words m CMD_NEGOTIATE [NEGOTIATE_RESPONSE_WORDS] ''17'') (\<lambda>_.
     rbind (read_words rd_negotiate_words (words m)) (\<lambda>w.
     rbind (byte_area_of m) (\<lambda>area.
     if length area < 16 then Inl (Truncated ''ServerGUID'' 16 (length area))
     else Inr \<lparr>np_words = w, np_server_guid = take 16 area, np_security_blob = drop 16 area\<rparr>)))"

definition accepted_offered_dialect :: "negotiate_response \<Rightarrow> wire_error + unit" where
  "accepted_offered_dialect r =
     (let i = ng_dialect_index (np_words r) in
      if i = 0 then Inr ()
      else if i = NO_COMMON_DIALECT then Inl NoCommonDialect
      else Inl (UnsupportedDialectIndex i))"

definition negotiate_response_encode_body :: "negotiate_response \<Rightarrow> wire_error + bytes" where
  "negotiate_response_encode_body r =
     (let area = snd (put (np_security_blob r) (snd (put (np_server_guid r) (area_at (HEADER_LEN + 1 + 34 + 2)))))
      in Inr (body (wr_negotiate_words (np_words r)) (area_bytes area)))"

section \<open>LOGOFF_ANDX\<close>

definition LOGOFF_WORDS :: u8 where "LOGOFF_WORDS = 2"

record logoff_words = lo_andx :: andx

definition wr_logoff_words :: "logoff_words \<Rightarrow> bytes" where
  "wr_logoff_words w = write_andx (lo_andx w)"

definition rd_logoff_words :: "bytes \<Rightarrow> (logoff_words \<times> bytes) option" where
  "rd_logoff_words bs = do { (a, bs) \<leftarrow> rd_andx bs; Some (\<lparr>lo_andx = a\<rparr>, bs) }"

interpretation logoff_words: word_layout wr_logoff_words rd_logoff_words 2
  by unfold_locales (simp_all add: wr_logoff_words_def rd_logoff_words_def codec_simps)

record logoff = lf_andx :: andx

definition logoff_request :: logoff where "logoff_request = \<lparr>lf_andx = ANDX_NONE\<rparr>"

definition logoff_encode_body :: "logoff \<Rightarrow> wire_error + bytes" where
  "logoff_encode_body r = Inr (body (wr_logoff_words \<lparr>lo_andx = lf_andx r\<rparr>) [])"

definition logoff_decode :: "message \<Rightarrow> wire_error + logoff" where
  "logoff_decode m =
     rbind (expect_words m CMD_LOGOFF_ANDX [LOGOFF_WORDS] ''2'') (\<lambda>_.
     rbind (read_words rd_logoff_words (words m)) (\<lambda>w.
     rbind (refuse_chaining (lo_andx w)) (\<lambda>_. Inr \<lparr>lf_andx = lo_andx w\<rparr>)))"

section \<open>SESSION_SETUP_ANDX\<close>

definition SETUP_REQUEST_WORDS :: u8 where "SETUP_REQUEST_WORDS = 12"
definition SETUP_RESPONSE_WORDS :: u8 where "SETUP_RESPONSE_WORDS = 4"
definition ACTION_GUEST :: u16 where "ACTION_GUEST = 0x0001"

record setup_request_words =
  up_andx :: andx
  up_max_buffer_size :: u16
  up_max_mpx_count :: u16
  up_vc_number :: u16
  up_session_key :: u32
  up_security_blob_length :: u16
  up_reserved :: u32
  up_capabilities :: u32

definition wr_setup_request_words :: "setup_request_words \<Rightarrow> bytes" where
  "wr_setup_request_words w =
     write_andx (up_andx w) @ le16 (up_max_buffer_size w) @ le16 (up_max_mpx_count w)
     @ le16 (up_vc_number w) @ le32 (up_session_key w) @ le16 (up_security_blob_length w)
     @ le32 (up_reserved w) @ le32 (up_capabilities w)"

definition rd_setup_request_words :: "bytes \<Rightarrow> (setup_request_words \<times> bytes) option" where
  "rd_setup_request_words bs = do {
     (a, bs) \<leftarrow> rd_andx bs;
     (buffer, bs) \<leftarrow> rd16 bs;
     (mpx, bs) \<leftarrow> rd16 bs;
     (vc, bs) \<leftarrow> rd16 bs;
     (key, bs) \<leftarrow> rd32 bs;
     (blob, bs) \<leftarrow> rd16 bs;
     (reserved, bs) \<leftarrow> rd32 bs;
     (capabilities, bs) \<leftarrow> rd32 bs;
     Some (\<lparr>up_andx = a, up_max_buffer_size = buffer, up_max_mpx_count = mpx, up_vc_number = vc,
            up_session_key = key, up_security_blob_length = blob, up_reserved = reserved,
            up_capabilities = capabilities\<rparr>, bs)
   }"

interpretation setup_request: word_layout wr_setup_request_words rd_setup_request_words 12
  by unfold_locales (simp_all add: wr_setup_request_words_def rd_setup_request_words_def codec_simps)

record setup_response_words =
  ur_andx :: andx
  ur_action :: u16
  ur_security_blob_length :: u16

definition wr_setup_response_words :: "setup_response_words \<Rightarrow> bytes" where
  "wr_setup_response_words w =
     write_andx (ur_andx w) @ le16 (ur_action w) @ le16 (ur_security_blob_length w)"

definition rd_setup_response_words :: "bytes \<Rightarrow> (setup_response_words \<times> bytes) option" where
  "rd_setup_response_words bs = do {
     (a, bs) \<leftarrow> rd_andx bs;
     (action, bs) \<leftarrow> rd16 bs;
     (blob, bs) \<leftarrow> rd16 bs;
     Some (\<lparr>ur_andx = a, ur_action = action, ur_security_blob_length = blob\<rparr>, bs)
   }"

interpretation setup_response: word_layout wr_setup_response_words rd_setup_response_words 4
  by unfold_locales (simp_all add: wr_setup_response_words_def rd_setup_response_words_def codec_simps)

record session_setup =
  su_max_buffer_size :: u16
  su_max_mpx_count :: u16
  su_session_key :: u32
  su_capabilities :: u32
  su_security_blob :: bytes
  su_native_os :: rstr
  su_native_lan_man :: rstr

definition session_setup_encode_body :: "session_setup \<Rightarrow> wire_error + bytes" where
  "session_setup_encode_body r =
     (if 65535 < length (su_security_blob r)
      then Inl (FieldTooLong ''SecurityBlobLength'' (length (su_security_blob r)) 65535)
      else
        (let ws = \<lparr>up_andx = ANDX_NONE, up_max_buffer_size = su_max_buffer_size r,
                   up_max_mpx_count = su_max_mpx_count r, up_vc_number = 0, up_session_key = su_session_key r,
                   up_security_blob_length = of_nat (length (su_security_blob r)), up_reserved = 0,
                   up_capabilities = su_capabilities r\<rparr>;
             area = snd (put (su_security_blob r) (for_word_count (unat SETUP_REQUEST_WORDS)));
             (native_os_at, area) = put (utf16z (su_native_os r)) (align_to NAME_ALIGNMENT area) in
         rbind (require_word_aligned ''NativeOS'' native_os_at) (\<lambda>_.
         let area = snd (put (utf16z (su_native_lan_man r)) area)
         in Inr (body (wr_setup_request_words ws) (area_bytes area)))))"

record session_setup_response =
  sr_action :: u16
  sr_security_blob :: bytes
  sr_server_strings :: "rstr list"

text \<open>\<open>decode_string_run\<close>: \<open>cur\<close> is the string under way.\<close>

fun string_run :: "u16 list \<Rightarrow> u16 list \<Rightarrow> rstr list" where
  "string_run cur [] = []"
| "string_run cur (u # us) =
     (if u = 0 then (case decode_utf16 cur of None \<Rightarrow> [] | Some text \<Rightarrow> text # string_run [] us)
      else string_run (cur @ [u]) us)"

definition decode_string_run :: "bytes \<Rightarrow> rstr list" where
  "decode_string_run bs = string_run [] (le_units bs)"

definition session_setup_response_decode :: "message \<Rightarrow> wire_error + session_setup_response" where
  "session_setup_response_decode m =
     rbind (expect_words m CMD_SESSION_SETUP_ANDX [SETUP_RESPONSE_WORDS] ''4'') (\<lambda>_.
     rbind (read_words rd_setup_response_words (words m)) (\<lambda>w.
     rbind (refuse_chaining (ur_andx w)) (\<lambda>_.
     let blob_length = unat (ur_security_blob_length w); blob_at = byte_area_offset m in
     rbind (block m ''SecurityBlobLength'' blob_at blob_length) (\<lambda>blob.
     let at = blob_at + blob_length;
         at = (if at mod NAME_ALIGNMENT \<noteq> 0 then at + 1 else at) in
     Inr \<lparr>sr_action = ur_action w, sr_security_blob = blob,
          sr_server_strings = (if length (as_bytes m) < at then [] else decode_string_run (drop at (as_bytes m)))\<rparr>))))"

definition is_guest :: "session_setup_response \<Rightarrow> bool" where
  "is_guest r \<longleftrightarrow> sr_action r AND ACTION_GUEST \<noteq> 0"

section \<open>Round trips\<close>

lemma decode_dialects_encoded:
  assumes "list_all (list_all (\<lambda>c. 0 < c \<and> c < 0x80)) dialects"
  shows "decode_dialects tot (concat (map (\<lambda>d. DIALECT_ENTRY # utf8 d @ [0]) dialects)) = Inr dialects"
  using assms
proof (induction dialects)
  case (Cons d ds)
  have u: "utf8 d = map of_nat d" using Cons.prems by (intro utf8_ascii) (simp add: list_all_iff)
  have "of_nat c \<noteq> (0 :: u8)" if "c \<in> set d" for c
  proof -
    have "0 < c" "c < 0x80" using Cons.prems that by (auto simp: list_all_iff)
    then have "unat (of_nat c :: u8) \<noteq> 0" by (simp add: unat_of_nat)
    then show ?thesis by auto
  qed
  then have t: "takeWhile (\<lambda>b. b \<noteq> 0) (utf8 d @ 0 # rest) = utf8 d" for rest :: bytes
    by (subst takeWhile_append2) (auto simp: u)
  have "from_utf8_lossy (utf8 d) = d"
    unfolding u using Cons.prems by (intro from_utf8_lossy_ascii) (simp add: list_all_iff)
  then show ?case using Cons by (simp add: t)
qed simp

lemma negotiate_request_roundtrip:
  assumes "wf_header h" "h_command h = CMD_NEGOTIATE"
    and "list_all (list_all (\<lambda>c. 0 < c \<and> c < 0x80)) dialects"
    and "length (concat (map (\<lambda>d. DIALECT_ENTRY # utf8 d @ [0]) dialects)) < 65536"
  shows "delivered h (negotiate_request_encode_body dialects) negotiate_request_decode = Inr dialects"
proof -
  have "area_bytes (foldl (\<lambda>area d. snd (put [0] (snd (put (utf8 d) (snd (put [DIALECT_ENTRY] area)))))) a ds)
      = area_bytes a @ concat (map (\<lambda>d. DIALECT_ENTRY # utf8 d @ [0]) ds)" for a ds
    by (induction ds arbitrary: a) simp_all
  then have "negotiate_request_encode_body dialects
      = Inr (body [] (concat (map (\<lambda>d. DIALECT_ENTRY # utf8 d @ [0]) dialects)))"
    by (simp add: negotiate_request_encode_body_def)
  then show ?thesis
    using assms decode_dialects_encoded [OF assms(3)]
    by (simp add: delivered_body wf_words_def negotiate_request_decode_def byte_area_built del: map_map)
qed

lemma negotiate_response_roundtrip:
  assumes "wf_header h" "h_command h = CMD_NEGOTIATE" "length (np_server_guid r) = 16"
    and "length (np_security_blob r) < 65000"
  shows "delivered h (negotiate_response_encode_body r) negotiate_response_decode = Inr r"
  using assms
  by (simp add: negotiate_response_encode_body_def Let_def area_at_def put_def delivered_body
      negotiate_words.wf_words_plain negotiate_response_decode_def NEGOTIATE_RESPONSE_WORDS_def
      negotiate_words.expect_words_built negotiate_words.read_words_plain byte_area_built)

lemma logoff_roundtrip:
  assumes "wf_header h" "h_command h = CMD_LOGOFF_ANDX" "ax_command (lf_andx r) = NO_FURTHER_COMMAND"
  shows "delivered h (logoff_encode_body r) logoff_decode = Inr r"
  using assms
  by (simp add: logoff_encode_body_def delivered_body logoff_words.wf_words_plain logoff_decode_def
      LOGOFF_WORDS_def logoff_words.expect_words_built logoff_words.read_words_plain refuse_chaining_def)

lemma string_run_append:
  "0 \<notin> set us \<Longrightarrow> string_run cur (us @ vs) = string_run (cur @ us) vs"
  by (induction us arbitrary: cur) auto

lemma string_run_names:
  "list_all name_ok ts \<Longrightarrow> string_run [] (concat (map (\<lambda>t. encode_utf16 t @ [0]) ts)) = ts"
proof (induction ts)
  case (Cons t ts)
  then show ?case
    using string_run_append [OF encode_nonzero, of t "[]" "0 # concat (map (\<lambda>t. encode_utf16 t @ [0]) ts)"]
    by (simp add: decode_encode_utf16 name_ok_def)
qed simp

lemma le_units_names: "le_units (concat (map utf16z ts)) = concat (map (\<lambda>t. encode_utf16 t @ [0]) ts)"
  by (induction ts) (simp_all add: utf16z_def le_units_append u16_le_def)

text \<open>A byte area of a token, at most one pad byte and a run of strings.\<close>

definition token_area :: "nat \<Rightarrow> bytes \<Rightarrow> rstr list \<Rightarrow> bytes" where
  "token_area start blob ts = blob @ (if even (start + length blob) then [] else [0]) @ concat (map utf16z ts)"

text \<open>What stands at the aligned offset behind a token is the run, whatever the token's length.\<close>

lemma token_strings:
  assumes "wf_header h" "wf_words ws" "list_all name_ok ts" "start = HEADER_LEN + 1 + length ws + 2"
    and "at = (if (start + length blob) mod NAME_ALIGNMENT \<noteq> 0 then start + length blob + 1 else start + length blob)"
  shows "block (built h ws (token_area start blob ts)) f start (length blob) = Inr blob"
    "at \<le> length (m_bytes (built h ws (token_area start blob ts)))"
    "decode_string_run (drop at (m_bytes (built h ws (token_area start blob ts)))) = ts"
proof -
  let ?m = "built h ws (token_area start blob ts)"
  show "block ?m f start (length blob) = Inr blob"
    by (rule block_built [OF assms(1), where pre = "[]"
          and post = "(if even (start + length blob) then [] else [0]) @ concat (map utf16z ts)"])
      (simp_all add: token_area_def assms(4))
  define front where "front = write_header h @ le8 (of_nat (length ws div 2)) @ ws
      @ le16 (of_nat (length (token_area start blob ts))) @ blob @ (if even (start + length blob) then [] else [0])"
  have m: "m_bytes ?m = front @ concat (map utf16z ts)"
    by (simp add: front_def body_def token_area_def)
  have "length front = at"
    using assms(1,2) by (simp add: front_def assms(4,5) length_write_header NAME_ALIGNMENT_def mod2_eq_if wf_words_def)
  then show "at \<le> length (m_bytes ?m)" "decode_string_run (drop at (m_bytes ?m)) = ts"
    unfolding m using string_run_names [OF assms(3)] by (simp_all add: decode_string_run_def le_units_names)
qed

text \<open>
  A reply with a token of any length is read back, guest bit and strings included.
\<close>

lemma setup_reply_read:
  assumes "wf_header h" "h_command h = CMD_SESSION_SETUP_ANDX" "length blob < 65536" "list_all name_ok ts"
  shows "session_setup_response_decode
      (built h (wr_setup_response_words \<lparr>ur_andx = ANDX_NONE, ur_action = action,
                 ur_security_blob_length = of_nat (length blob)\<rparr>)
         (token_area (HEADER_LEN + 1 + 8 + 2) blob ts))
    = Inr \<lparr>sr_action = action, sr_security_blob = blob, sr_server_strings = ts\<rparr>"
proof -
  let ?ws = "wr_setup_response_words \<lparr>ur_andx = ANDX_NONE, ur_action = action,
                 ur_security_blob_length = of_nat (length blob)\<rparr>"
  let ?start = "HEADER_LEN + 1 + 8 + 2"
  have start: "?start = HEADER_LEN + 1 + length ?ws + 2" by (simp add: setup_response.length_wr)
  note strings = token_strings [where blob = blob, OF assms(1) setup_response.wf_words_plain assms(4) start refl]
  have n: "unat (of_nat (length blob) :: u16) = length blob" using assms(3) by (simp add: unat_of_nat)
  have off: "byte_area_offset (built h ?ws (token_area ?start blob ts)) = ?start"
    by (simp add: setup_response.wf_words_plain setup_response.length_wr)
  have cmd: "expect_words (built h ?ws (token_area ?start blob ts)) CMD_SESSION_SETUP_ANDX [4] d = Inr ()" for d
    by (rule setup_response.expect_words_built) (use assms(2) in simp_all)
  have chain: "refuse_chaining ANDX_NONE = Inr ()" by (simp add: refuse_chaining_def ANDX_NONE_def)
  show ?thesis
    unfolding session_setup_response_decode_def SETUP_RESPONSE_WORDS_def cmd rbind_simps
      words_built [OF assms(1) setup_response.wf_words_plain] setup_response.read_words_plain off Let_def
      setup_response_words.simps chain n strings(1) as_bytes_def
    by (simp only: strings(3) if_not_P [OF leD [OF strings(2)]])
qed

text \<open>What a server reads of the client's request: the words, the token, and the strings behind it.\<close>

definition setup_request_view :: "message \<Rightarrow> wire_error + session_setup" where
  "setup_request_view m =
     rbind (read_words rd_setup_request_words (words m)) (\<lambda>w.
     let n = unat (up_security_blob_length w); at = byte_area_offset m + n;
         at = (if at mod NAME_ALIGNMENT \<noteq> 0 then at + 1 else at) in
     rbind (block m ''SecurityBlobLength'' (byte_area_offset m) n) (\<lambda>blob.
     let ts = decode_string_run (drop at (m_bytes m)) in
     Inr \<lparr>su_max_buffer_size = up_max_buffer_size w, su_max_mpx_count = up_max_mpx_count w,
          su_session_key = up_session_key w, su_capabilities = up_capabilities w, su_security_blob = blob,
          su_native_os = ts ! 0, su_native_lan_man = ts ! 1\<rparr>))"

text \<open>The words of a request, and the body they make with its token and strings.\<close>

definition setup_words_of :: "session_setup \<Rightarrow> setup_request_words" where
  "setup_words_of r =
     \<lparr>up_andx = ANDX_NONE, up_max_buffer_size = su_max_buffer_size r, up_max_mpx_count = su_max_mpx_count r,
      up_vc_number = 0, up_session_key = su_session_key r,
      up_security_blob_length = of_nat (length (su_security_blob r)), up_reserved = 0,
      up_capabilities = su_capabilities r\<rparr>"

definition setup_area :: "session_setup \<Rightarrow> bytes" where
  "setup_area r = token_area (HEADER_LEN + 1 + 24 + 2) (su_security_blob r) [su_native_os r, su_native_lan_man r]"

lemma setup_encoded:
  "length (su_security_blob r) \<le> 65535 \<Longrightarrow>
   session_setup_encode_body r = Inr (body (wr_setup_request_words (setup_words_of r)) (setup_area r))"
  by (simp add: session_setup_encode_body_def Let_def SETUP_REQUEST_WORDS_def HEADER_LEN_def align_to_2
      NAME_ALIGNMENT_def require_word_aligned_def token_area_def put_def area_offset_def for_word_count_def
      area_at_def setup_words_of_def setup_area_def)

lemma setup_viewed:
  assumes "wf_header h" "name_ok (su_native_os r)" "name_ok (su_native_lan_man r)" "length (su_security_blob r) \<le> 65535"
  shows "setup_request_view (built h (wr_setup_request_words (setup_words_of r)) (setup_area r)) = Inr r"
proof -
  let ?blob = "su_security_blob r" and ?ts = "[su_native_os r, su_native_lan_man r]" and ?w = "setup_words_of r"
  let ?start = "HEADER_LEN + 1 + 24 + 2"
  have start: "?start = HEADER_LEN + 1 + length (wr_setup_request_words ?w) + 2" by (simp add: setup_request.length_wr)
  have ok: "list_all name_ok ?ts" using assms by simp
  note strings = token_strings [where blob = ?blob, OF assms(1) setup_request.wf_words_plain ok start refl,
      folded setup_area_def]
  have n: "unat (up_security_blob_length ?w) = length ?blob" using assms(4) by (simp add: unat_of_nat setup_words_of_def)
  have off: "byte_area_offset (built h (wr_setup_request_words ?w) (setup_area r)) = ?start"
    by (simp add: setup_request.wf_words_plain setup_request.length_wr)
  show ?thesis
    unfolding setup_request_view_def words_built [OF assms(1) setup_request.wf_words_plain]
      setup_request.read_words_plain rbind_simps off Let_def n strings(1,3)
    by (simp add: setup_words_of_def)
qed

text \<open>
  A session setup reaches the server as it was meant whatever the length of its token: the token
  is found by its declared length and both identity strings stand on the word boundary behind it.
  Only a token the 16-bit length cannot declare is refused.
\<close>

theorem session_setup_roundtrip:
  assumes "wf_header h" "name_ok (su_native_os r)" "name_ok (su_native_lan_man r)"
  shows "delivered h (session_setup_encode_body r) setup_request_view =
     (if length (su_security_blob r) \<le> 65535 then Inr r
      else Inl (FieldTooLong ''SecurityBlobLength'' (length (su_security_blob r)) 65535))"
proof (cases "length (su_security_blob r) \<le> 65535")
  case False
  then show ?thesis by (simp add: session_setup_encode_body_def delivered_def)
next
  case True
  then show ?thesis
    by (simp only: setup_encoded [OF True] delivered_body [OF assms(1) setup_request.wf_words_plain]
        setup_viewed [OF assms True] if_True)
qed

theorem session_setup_roundtrip_witness:
  "let r = \<lparr>su_max_buffer_size = 65535, su_max_mpx_count = 50, su_session_key = 7, su_capabilities = 0x8000005C,
            su_security_blob = [1, 2, 3], su_native_os = lit ''smb1'', su_native_lan_man = lit ''smb1/0''\<rparr>
   in delivered (header_request CMD_SESSION_SETUP_ANDX) (session_setup_encode_body r) setup_request_view = Inr r"
  unfolding Let_def
  by (subst session_setup_roundtrip) (simp_all add: name_ok_def lit_def scalar_def)

end
