(* ===== verification/Handshake.thy ===== *)
theory Handshake
  imports Setup Connection Frames Errors
begin

text \<open>
  The handshake (\<open>session.rs\<close>): negotiate, the SPNEGO exchange of one leg or two, the four
  refusals, and the session they produce.

  The stream is what the peer delivers before the connect timeout cancels the handshake, the frames
  handed to it, how many of them it takes, and how it stops: closed with an error of the operating
  system, or silent until the timeout.  The entropy source, the clock reading and the primitives
  of NTLM are arguments.  The texts of \<open>UnsupportedServer\<close> are reduced to the name of what is
  missing; the logging and the tracer are left out.
\<close>

section \<open>The stream\<close>

datatype ending = Closed string | Silent

record wire_stream =
  ws_in :: bytes
  ws_sent :: "bytes list"
  ws_writable :: nat
  ws_end :: ending

type_synonym 'a step = "wire_stream \<Rightarrow> (error + 'a) \<times> wire_stream"

definition hbind :: "'a step \<Rightarrow> ('a \<Rightarrow> 'b step) \<Rightarrow> 'b step" where
  "hbind m f w = (case m w of (Inl e, w) \<Rightarrow> (Inl e, w) | (Inr x, w) \<Rightarrow> f x w)"

definition concluded :: "error + 'a \<Rightarrow> 'a step" where
  "concluded r w = (r, w)"

lemma hbind_simps [simp]:
  "m w = (Inl e, w') \<Longrightarrow> hbind m f w = (Inl e, w')"
  "m w = (Inr x, w') \<Longrightarrow> hbind m f w = f x w'"
  "hbind (concluded (Inl e)) f w = (Inl e, w)"
  "hbind (concluded (Inr x)) f w = f x w"
  by (simp_all add: hbind_def concluded_def)

lemma hbind_Inr_iff: "hbind m f w = (Inr y, w') \<longleftrightarrow> (\<exists>x w1. m w = (Inr x, w1) \<and> f x w1 = (Inr y, w'))"
  by (auto simp: hbind_def split: prod.splits sum.splits)

text \<open>What the end of the stream is to the handshake: its error, or the timeout around it.\<close>

definition stalled :: "wire_stream \<Rightarrow> error" where
  "stalled w = (case ws_end w of Closed e \<Rightarrow> IoError e | Silent \<Rightarrow> ConnectTimeout)"

text \<open>A write that fails may have delivered any part of the frame, so the frame counts as sent.\<close>

definition write_all :: "bytes \<Rightarrow> unit step" where
  "write_all f w =
     (let w' = w\<lparr>ws_sent := ws_sent w @ [f]\<rparr> in
      if ws_writable w = 0 then (Inl (stalled w), w')
      else (Inr (), w'\<lparr>ws_writable := ws_writable w - 1\<rparr>))"

definition read_exact :: "nat \<Rightarrow> bytes step" where
  "read_exact n w =
     (if length (ws_in w) < n then (Inl (stalled w), w\<lparr>ws_in := []\<rparr>)
      else (Inr (take n (ws_in w)), w\<lparr>ws_in := drop n (ws_in w)\<rparr>))"

section \<open>One exchange\<close>

text \<open>The loop of \<open>send\<close>, which reads past keep-alives.\<close>

function await_reply :: "u8 \<Rightarrow> message step" where
  "await_reply command w =
     (case read_exact NB_HEADER_LEN w of
        (Inl e, w1) \<Rightarrow> (Inl e, w1)
      | (Inr hdr, w1) \<Rightarrow>
          (case decode_header (hdr ! 0) (hdr ! 1) (hdr ! 2) (hdr ! 3) of
             Inl e \<Rightarrow> (Inl (from_wire e), w1)
           | Inr (kind, len) \<Rightarrow>
               (case read_exact len w1 of
                  (Inl e, w2) \<Rightarrow> (Inl e, w2)
                | (Inr bs, w2) \<Rightarrow>
                    if kind = KeepAlive then await_reply command w2
                    else
                      (case parse bs of
                         Inl e \<Rightarrow> (Inl (from_wire e), w2)
                       | Inr m \<Rightarrow>
                           if h_command (header m) \<noteq> command
                           then (Inl (UnsupportedServer ''command''), w2)
                           else (Inr m, w2)))))"
  by pat_completeness auto

termination
  by (relation "measure (\<lambda>(_, w). length (ws_in w))") (auto simp: read_exact_def NB_HEADER_LEN_def split: if_splits)

declare await_reply.simps [simp del]

definition outbound :: "u8 \<Rightarrow> u16 \<Rightarrow> bytes \<Rightarrow> wire_error + bytes" where
  "outbound command uid bdy = rbind (message_of ((header_request command)\<lparr>h_uid := uid\<rparr>) bdy) frame"

definition send_message :: "u8 \<Rightarrow> u16 \<Rightarrow> bytes \<Rightarrow> message step" where
  "send_message command uid bdy =
     hbind (concluded (map_sum from_wire id (outbound command uid bdy))) (\<lambda>f.
     hbind (write_all f) (\<lambda>_. await_reply command))"

definition expect_nt_status :: "message \<Rightarrow> error + unit" where
  "expect_nt_status m =
     (if h_flags2 (header m) AND FLAGS2_NT_STATUS = 0 then Inl (UnsupportedServer ''NT status'') else Inr ())"

section \<open>Negotiate\<close>

definition MIN_MAX_BUFFER_SIZE :: u32 where "MIN_MAX_BUFFER_SIZE = 4356"
definition ADVERTISED_MAX_BUFFER_SIZE :: u16 where "ADVERTISED_MAX_BUFFER_SIZE = 65535"
definition SECURITY_USER :: u8 where "SECURITY_USER = 0x01"
definition SECURITY_SIGNATURES_REQUIRED :: u8 where "SECURITY_SIGNATURES_REQUIRED = 0x08"
definition CAP_EXTENDED_SECURITY :: u32 where "CAP_EXTENDED_SECURITY = 0x80000000"

definition REQUIRED_CAPABILITIES :: "(u32 \<times> string) list" where
  "REQUIRED_CAPABILITIES =
     [(0x00000010, ''CAP_NT_SMBS''), (0x00000004, ''CAP_UNICODE''), (0x00000008, ''CAP_LARGE_FILES''),
      (0x00000040, ''CAP_STATUS32''), (0x00000200, ''CAP_NT_FIND''),
      (CAP_EXTENDED_SECURITY, ''CAP_EXTENDED_SECURITY'')]"

definition CLIENT_CAPABILITIES :: u32 where
  "CLIENT_CAPABILITIES = 0x00000010 OR 0x00000004 OR 0x00000008 OR 0x00000040 OR CAP_EXTENDED_SECURITY"

definition NATIVE_OS :: rstr where "NATIVE_OS = lit ''smb1client-rs''"
definition NATIVE_LAN_MAN :: rstr where "NATIVE_LAN_MAN = NATIVE_OS @ lit ''/'' @ lit ''0.1.0''"

record session_options =
  so_connect_timeout :: duration
  so_timeouts :: timeouts
  so_allow_guest :: bool
  so_advertised_max_buffer_size :: u16
  so_dump_wire_bytes :: bool

definition session_options_default :: session_options where
  "session_options_default =
     \<lparr>so_connect_timeout = 10, so_timeouts = timeouts_default, so_allow_guest = False,
      so_advertised_max_buffer_size = ADVERTISED_MAX_BUFFER_SIZE, so_dump_wire_bytes = False\<rparr>"

definition negotiate_accepts :: "negotiate_words \<Rightarrow> error + unit" where
  "negotiate_accepts w =
     (case find (\<lambda>(b, _). ng_capabilities w AND b = 0) REQUIRED_CAPABILITIES of
        Some (_, name) \<Rightarrow> Inl (UnsupportedServer name)
      | None \<Rightarrow>
          if ng_security_mode w AND SECURITY_USER = 0 then Inl (UnsupportedServer ''user-level security'')
          else if ng_security_mode w AND SECURITY_SIGNATURES_REQUIRED \<noteq> 0 then Inl SigningRequired
          else if ng_max_buffer_size w < MIN_MAX_BUFFER_SIZE then Inl (UnsupportedServer ''MaxBufferSize'')
          else Inr ())"

definition negotiate_reply :: "message \<Rightarrow> error + negotiate_response" where
  "negotiate_reply m =
     rbind (expect_nt_status m) (\<lambda>_.
     if h_status (header m) \<noteq> SUCCESS then Inl (StatusError (h_status (header m)))
     else
       rbind (map_sum from_wire id (negotiate_response_decode m)) (\<lambda>r.
       rbind (map_sum from_wire id (accepted_offered_dialect r)) (\<lambda>_.
       rbind (negotiate_accepts (np_words r)) (\<lambda>_. Inr r))))"

definition negotiate :: "negotiate_response step" where
  "negotiate =
     hbind (concluded (map_sum from_wire id (negotiate_request_encode_body single_dialect))) (\<lambda>bdy.
     hbind (send_message CMD_NEGOTIATE 0 bdy) (\<lambda>m. concluded (negotiate_reply m)))"

section \<open>Session setup\<close>

definition setup_request :: "negotiate_response \<Rightarrow> negotiated \<Rightarrow> session_options \<Rightarrow> session_setup" where
  "setup_request r n opts =
     \<lparr>su_max_buffer_size = so_advertised_max_buffer_size opts,
      su_max_mpx_count = (if admission_limit n < 65536 then of_nat (admission_limit n) else 65535),
      su_session_key = ng_session_key (np_words r),
      su_capabilities = CLIENT_CAPABILITIES OR (ng_capabilities (np_words r) AND (CAP_LARGE_READX OR CAP_LARGE_WRITEX)),
      su_security_blob = neg_token_init negotiate_message,
      su_native_os = NATIVE_OS, su_native_lan_man = NATIVE_LAN_MAN\<rparr>"

definition send_setup :: "u16 \<Rightarrow> session_setup \<Rightarrow> message step" where
  "send_setup uid r =
     hbind (concluded (map_sum from_wire id (session_setup_encode_body r))) (\<lambda>bdy.
     hbind (send_message CMD_SESSION_SETUP_ANDX uid bdy) (\<lambda>m.
     concluded (rbind (expect_nt_status m) (\<lambda>_. Inr m))))"

definition read_challenge :: "message \<Rightarrow> error + challenge" where
  "read_challenge m =
     rbind (map_sum from_wire id (session_setup_response_decode m)) (\<lambda>r.
     rbind (protocol PSpnego (response_token (sr_security_blob r))) (\<lambda>token.
     protocol PNtlm (challenge_parse token)))"

definition answer_token :: "primitives \<Rightarrow> challenge \<Rightarrow> credentials \<Rightarrow> client_values \<Rightarrow> bytes" where
  "answer_token pr ch creds cv =
     (let au = authenticate pr negotiate_message ch creds cv
      in neg_token_resp (au_message au) (mech_list_mic pr au mech_list))"

text \<open>The second leg: the challenge in the first reply, and the answer to it.\<close>

definition second_leg ::
  "primitives \<Rightarrow> (bytes \<times> bytes) option \<Rightarrow> int \<Rightarrow> session_setup \<Rightarrow> credentials \<Rightarrow> message
     \<Rightarrow> (u16 \<times> session_setup_response) step" where
  "second_leg pr entropy now req creds first =
     hbind (concluded (read_challenge first)) (\<lambda>ch.
     hbind (concluded (ok_or (IoError ''entropy'') (client_values_fresh entropy now))) (\<lambda>cv.
     hbind (send_setup (h_uid (header first)) (req\<lparr>su_security_blob := answer_token pr ch creds cv\<rparr>)) (\<lambda>second.
     concluded
       (if h_status (header second) \<noteq> SUCCESS then Inl (StatusError (h_status (header second)))
        else rbind (map_sum from_wire id (session_setup_response_decode second)) (\<lambda>setup.
          Inr (h_uid (header second), setup))))))"

definition session_setup_exchange ::
  "primitives \<Rightarrow> (bytes \<times> bytes) option \<Rightarrow> int \<Rightarrow> negotiate_response \<Rightarrow> negotiated \<Rightarrow> credentials \<Rightarrow> session_options
     \<Rightarrow> (u16 \<times> session_setup_response) step" where
  "session_setup_exchange pr entropy now r n creds opts =
     (let req = setup_request r n opts in
      hbind (send_setup 0 req) (\<lambda>first.
      let status = h_status (header first) in
      if status = SUCCESS then
        concluded (rbind (map_sum from_wire id (session_setup_response_decode first)) (\<lambda>setup.
          Inr (h_uid (header first), setup)))
      else if status \<noteq> MORE_PROCESSING_REQUIRED then concluded (Inl (StatusError status))
      else second_leg pr entropy now req creds first))"

section \<open>The handshake\<close>

record server_info =
  si_capabilities :: u32
  si_security_mode :: u8
  si_max_buffer_size :: u32
  si_guest :: bool
  si_strings :: "rstr list"

record handshake =
  hk_negotiated :: negotiated
  hk_uid :: u16
  hk_server :: server_info

definition words_negotiated :: "negotiate_response \<Rightarrow> negotiated" where
  "words_negotiated r =
     \<lparr>max_mpx_count = ng_max_mpx_count (np_words r), max_buffer_size = ng_max_buffer_size (np_words r),
      capabilities = ng_capabilities (np_words r)\<rparr>"

definition run_handshake ::
  "primitives \<Rightarrow> (bytes \<times> bytes) option \<Rightarrow> int \<Rightarrow> credentials \<Rightarrow> session_options \<Rightarrow> handshake step" where
  "run_handshake pr entropy now creds opts =
     hbind negotiate (\<lambda>r.
     hbind (session_setup_exchange pr entropy now r (words_negotiated r) creds opts) (\<lambda>(uid, setup).
     let guest = is_guest setup in
     concluded
       (if guest \<and> \<not> so_allow_guest opts then Inl GuestLogon
        else Inr \<lparr>hk_negotiated = words_negotiated r, hk_uid = uid,
                  hk_server = \<lparr>si_capabilities = ng_capabilities (np_words r),
                               si_security_mode = ng_security_mode (np_words r),
                               si_max_buffer_size = ng_max_buffer_size (np_words r), si_guest = guest,
                               si_strings = sr_server_strings setup\<rparr>\<rparr>)))"

record session =
  se_connection :: connection
  se_uid :: u16
  se_server :: server_info

text \<open>\<open>establish\<close>; \<open>None\<close> is the panic of \<open>spawn\<close>'s assertion.\<close>

definition establish ::
  "primitives \<Rightarrow> (bytes \<times> bytes) option \<Rightarrow> int \<Rightarrow> credentials \<Rightarrow> session_options \<Rightarrow> wire_stream
     \<Rightarrow> (error + session) option \<times> wire_stream" where
  "establish pr entropy now creds opts w =
     (case run_handshake pr entropy now creds opts w of
        (Inl e, w) \<Rightarrow> (Some (Inl e), w)
      | (Inr h, w) \<Rightarrow>
          (if spawn_accepts (hk_negotiated h)
           then Some (Inr \<lparr>se_connection = \<lparr>cn_negotiated = hk_negotiated h, cn_downgraded = False\<rparr>,
                           se_uid = hk_uid h, se_server = hk_server h\<rparr>)
           else None, w))"

section \<open>What a step does to the stream\<close>

text \<open>A reply depends on what the peer delivers alone, and reading it sends nothing.\<close>

lemma read_exact_frame:
  "ws_sent (snd (read_exact n w)) = ws_sent w" "ws_writable (snd (read_exact n w)) = ws_writable w"
  "ws_end (snd (read_exact n w)) = ws_end w"
  by (simp_all add: read_exact_def)

lemma await_reply_frame:
  "ws_sent (snd (await_reply c w)) = ws_sent w \<and> ws_writable (snd (await_reply c w)) = ws_writable w
   \<and> ws_end (snd (await_reply c w)) = ws_end w"
proof (induction c w rule: await_reply.induct)
  case (1 c w)
  show ?case
  proof (cases "read_exact NB_HEADER_LEN w")
    case (Pair r w1)
    then have w1: "ws_sent w1 = ws_sent w" "ws_writable w1 = ws_writable w" "ws_end w1 = ws_end w"
      using read_exact_frame [of NB_HEADER_LEN w] by simp_all
    show ?thesis
    proof (cases r)
      case (Inr hdr)
      show ?thesis
      proof (cases "decode_header (hdr ! 0) (hdr ! 1) (hdr ! 2) (hdr ! 3)")
        case d: (Inr p)
        obtain kind len where p: "p = (kind, len)" by (cases p)
        obtain r2 w2 where r2: "read_exact len w1 = (r2, w2)" by (cases "read_exact len w1")
        then have w2: "ws_sent w2 = ws_sent w" "ws_writable w2 = ws_writable w" "ws_end w2 = ws_end w"
          using read_exact_frame [of len w1] w1 by simp_all
        note IH = "1.IH" [OF Pair [symmetric] Inr d p [symmetric] r2 [symmetric]]
        show ?thesis
          using IH w2
          by (subst (1 2 3) await_reply.simps)
            (auto simp: Pair Inr d [unfolded One_nat_def] p r2 split: sum.splits)
      qed (subst (1 2 3) await_reply.simps, simp add: Pair Inr w1)
    qed (subst (1 2 3) await_reply.simps, simp add: Pair w1)
  qed
qed

lemma await_reply_steps:
  assumes "await_reply c w = (Inr m, w')"
  obtains hdr w1 kind len bs w2 where "read_exact NB_HEADER_LEN w = (Inr hdr, w1)"
    and "decode_header (hdr ! 0) (hdr ! 1) (hdr ! 2) (hdr ! 3) = Inr (kind, len)"
    and "read_exact len w1 = (Inr bs, w2)"
    and "if kind = KeepAlive then await_reply c w2 = (Inr m, w')
         else parse bs = Inr m \<and> h_command (header m) = c \<and> w' = w2"
  using assms by (subst (asm) await_reply.simps) (auto split: prod.splits sum.splits if_splits)

lemma await_reply_local:
  "await_reply c w = (Inr m, w') \<Longrightarrow> ws_in v = ws_in w \<Longrightarrow>
   await_reply c v = (Inr m, v\<lparr>ws_in := ws_in w'\<rparr>)"
proof (induction c w arbitrary: v rule: await_reply.induct)
  case (1 c w)
  obtain hdr w1 kind len bs w2 where hdr: "read_exact NB_HEADER_LEN w = (Inr hdr, w1)"
    and d: "decode_header (hdr ! 0) (hdr ! 1) (hdr ! 2) (hdr ! 3) = Inr (kind, len)"
    and bs: "read_exact len w1 = (Inr bs, w2)"
    and rest: "if kind = KeepAlive then await_reply c w2 = (Inr m, w')
         else parse bs = Inr m \<and> h_command (header m) = c \<and> w' = w2"
    by (rule await_reply_steps [OF "1.prems"(1)])
  define v1 where "v1 = v\<lparr>ws_in := ws_in w1\<rparr>"
  define v2 where "v2 = v\<lparr>ws_in := ws_in w2\<rparr>"
  have hv: "read_exact NB_HEADER_LEN v = (Inr hdr, v1)" and bv: "read_exact len v1 = (Inr bs, v2)"
    using hdr bs "1.prems"(2) by (auto simp: read_exact_def v1_def v2_def split: if_splits)
  note steps = hv bv d [unfolded One_nat_def]
  show ?case
  proof (cases "kind = KeepAlive")
    case True
    then have "await_reply c v2 = (Inr m, v2\<lparr>ws_in := ws_in w'\<rparr>)"
      using "1.IH" [OF hdr [symmetric] refl d refl bs [symmetric] refl True, of v2] rest by (simp add: v2_def)
    then show ?thesis by (subst await_reply.simps) (simp add: steps True v2_def)
  next
    case False
    then show ?thesis using rest by (subst await_reply.simps) (simp add: steps v2_def)
  qed
qed

text \<open>Frames of keep-alives and then of the reply, as they stand on the stream.\<close>

lemma await_frame:
  assumes "framed f i" "ws_in w = f @ rest"
  shows "await_reply c w =
     (case i of
        InKeepAlive \<Rightarrow> await_reply c (w\<lparr>ws_in := rest\<rparr>)
      | InMessage m \<Rightarrow> (if h_command (header m) = c then Inr m else Inl (UnsupportedServer ''command''), w\<lparr>ws_in := rest\<rparr>))"
proof -
  obtain kind len where d: "decode_header (f ! 0) (f ! 1) (f ! 2) (f ! 3) = Inr (kind, len)"
    and n: "NB_HEADER_LEN \<le> length f" "length f = NB_HEADER_LEN + len"
    and k: "case kind of SessionMessage \<Rightarrow> (case parse (drop NB_HEADER_LEN f) of Inl _ \<Rightarrow> False | Inr m \<Rightarrow> i = InMessage m)
            | KeepAlive \<Rightarrow> i = InKeepAlive"
    using assms(1) by (auto simp: framed_def split: sum.splits)
  define w1 where "w1 = w\<lparr>ws_in := drop NB_HEADER_LEN f @ rest\<rparr>"
  have h: "read_exact NB_HEADER_LEN w = (Inr (take NB_HEADER_LEN f), w1)"
    using n assms(2) by (simp add: read_exact_def w1_def)
  have b: "read_exact len w1 = (Inr (drop NB_HEADER_LEN f), w\<lparr>ws_in := rest\<rparr>)"
    using n by (simp add: read_exact_def w1_def)
  have e: "decode_header (take NB_HEADER_LEN f ! 0) (take NB_HEADER_LEN f ! Suc 0) (take NB_HEADER_LEN f ! 2)
      (take NB_HEADER_LEN f ! 3) = Inr (kind, len)"
    using d by (simp add: NB_HEADER_LEN_def)
  show ?thesis
    using k by (subst await_reply.simps) (auto simp: h b e split: message_type.splits sum.splits)
qed

lemma await_frames:
  assumes "list_all (\<lambda>f. framed f InKeepAlive) kas" "framed f (InMessage m)" "h_command (header m) = c"
    and "ws_in w = concat kas @ f @ rest"
  shows "await_reply c w = (Inr m, w\<lparr>ws_in := rest\<rparr>)"
  using assms(1,4)
proof (induction kas arbitrary: w)
  case Nil
  then show ?case using await_frame [OF assms(2), of w rest c] assms(3) by simp
next
  case (Cons ka kas)
  then show ?case
    using await_frame [of ka InKeepAlive w "concat kas @ f @ rest" c]
      Cons.IH [of "w\<lparr>ws_in := concat kas @ f @ rest\<rparr>"] by simp
qed

lemma hbind_concluded: "hbind (concluded r) f w = (case r of Inl e \<Rightarrow> (Inl e, w) | Inr x \<Rightarrow> f x w)"
  by (cases r) simp_all

lemma hbind_concluded_end: "snd (hbind m (\<lambda>x. concluded (g x)) w) = snd (m w)"
  by (auto simp: hbind_def concluded_def split: prod.splits sum.splits)

lemma send_message_sent:
  "ws_sent (snd (send_message c uid bdy w))
    = ws_sent w @ (case outbound c uid bdy of Inl _ \<Rightarrow> [] | Inr f \<Rightarrow> [f])"
proof (cases "outbound c uid bdy")
  case (Inr f)
  then show ?thesis
    using await_reply_frame [of c "w\<lparr>ws_sent := ws_sent w @ [f], ws_writable := ws_writable w - Suc 0\<rparr>"]
    by (simp add: send_message_def hbind_concluded) (simp add: hbind_def write_all_def Let_def)
qed (simp add: send_message_def)

lemma send_message_Inr:
  assumes "send_message c uid bdy w = (Inr m, w')"
  shows "\<exists>w1. await_reply c w1 = (Inr m, w') \<and> ws_in w1 = ws_in w \<and> ws_end w' = ws_end w"
proof -
  obtain f where f: "outbound c uid bdy = Inr f"
    using assms by (cases "outbound c uid bdy") (simp_all add: send_message_def)
  define w1 where "w1 = w\<lparr>ws_sent := ws_sent w @ [f], ws_writable := ws_writable w - Suc 0\<rparr>"
  have "await_reply c w1 = (Inr m, w')"
    using assms f
    by (simp add: send_message_def hbind_concluded)
      (auto simp: hbind_def write_all_def Let_def w1_def split: if_splits)
  moreover have "ws_end w' = ws_end w"
    using await_reply_frame [of c w1] calculation by (simp add: w1_def)
  ultimately show ?thesis by (auto simp: w1_def)
qed

text \<open>
  What the peer said: the reply read off \<open>bs\<close>, and what is left of the stream behind it.
\<close>

definition silent_stream :: "bytes \<Rightarrow> wire_stream" where
  "silent_stream bs = \<lparr>ws_in = bs, ws_sent = [], ws_writable = 0, ws_end = Silent\<rparr>"

definition heard :: "bytes \<Rightarrow> u8 \<Rightarrow> message \<Rightarrow> bytes \<Rightarrow> bool" where
  "heard bs c m rest \<longleftrightarrow> await_reply c (silent_stream bs) = (Inr m, silent_stream rest)"

lemma await_heard:
  "await_reply c w = (Inr m, w') \<Longrightarrow> heard (ws_in w) c m (ws_in w')"
  unfolding heard_def by (subst await_reply_local) (simp_all add: silent_stream_def)

lemma sent_heard:
  "send_message c uid bdy w = (Inr m, w') \<Longrightarrow> heard (ws_in w) c m (ws_in w')"
  by (drule send_message_Inr) (auto dest: await_heard)

lemma send_setup_sent:
  "\<exists>xs. ws_sent (snd (send_setup uid r w)) = ws_sent w @ xs \<and> length xs \<le> 1"
proof (cases "session_setup_encode_body r")
  case (Inr bdy)
  then have "snd (send_setup uid r w) = snd (send_message CMD_SESSION_SETUP_ANDX uid bdy w)"
    by (simp add: send_setup_def hbind_concluded hbind_concluded_end)
  then show ?thesis by (simp add: send_message_sent split: sum.split)
qed (simp add: send_setup_def)

lemma send_setup_Inr:
  assumes "send_setup uid r w = (Inr m, w')"
  shows "heard (ws_in w) CMD_SESSION_SETUP_ANDX m (ws_in w')"
proof -
  obtain bdy where "send_message CMD_SESSION_SETUP_ANDX uid bdy w = (Inr m, w')"
    using assms by (cases "session_setup_encode_body r")
      (auto simp: send_setup_def hbind_concluded hbind_Inr_iff concluded_def rbind_Inr_iff)
  then show ?thesis by (rule sent_heard)
qed

section \<open>What a server must be\<close>

definition server_fits :: "negotiate_words \<Rightarrow> bool" where
  "server_fits w \<longleftrightarrow>
     list_all (\<lambda>(b, _). ng_capabilities w AND b \<noteq> 0) REQUIRED_CAPABILITIES
     \<and> ng_security_mode w AND SECURITY_USER \<noteq> 0
     \<and> ng_security_mode w AND SECURITY_SIGNATURES_REQUIRED = 0
     \<and> MIN_MAX_BUFFER_SIZE \<le> ng_max_buffer_size w"

lemma negotiate_accepts_iff: "negotiate_accepts w = Inr () \<longleftrightarrow> server_fits w"
  by (auto simp: negotiate_accepts_def server_fits_def REQUIRED_CAPABILITIES_def not_less)

lemma map_sum_Inr_iff: "map_sum f id r = Inr x \<longleftrightarrow> r = Inr x"
  by (cases r) simp_all

lemma negotiate_reply_Inr:
  "negotiate_reply m = Inr r \<longleftrightarrow>
     h_flags2 (header m) AND FLAGS2_NT_STATUS \<noteq> 0 \<and> h_status (header m) = SUCCESS
     \<and> negotiate_response_decode m = Inr r \<and> ng_dialect_index (np_words r) = 0 \<and> server_fits (np_words r)"
  using negotiate_accepts_iff [of "np_words r"]
  by (auto simp: negotiate_reply_def expect_nt_status_def rbind_Inr_iff map_sum_Inr_iff accepted_offered_dialect_def
      Let_def split: if_splits)

lemma negotiate_encodes: "\<exists>bdy. negotiate_request_encode_body single_dialect = Inr bdy"
  by (simp add: negotiate_request_encode_body_def Let_def)

lemma negotiate_sent: "\<exists>xs. ws_sent (snd (negotiate w)) = ws_sent w @ xs \<and> length xs \<le> 1"
proof -
  obtain bdy where b: "negotiate_request_encode_body single_dialect = Inr bdy" using negotiate_encodes by blast
  have "snd (negotiate w) = snd (send_message CMD_NEGOTIATE 0 bdy w)"
    by (simp add: negotiate_def hbind_concluded b hbind_concluded_end)
  then show ?thesis by (simp add: send_message_sent split: sum.split)
qed

lemma send_message_one:
  "send_message c uid bdy w = (Inr m, w') \<Longrightarrow> length (ws_sent w') = Suc (length (ws_sent w))"
  using send_message_sent [of c uid bdy w]
  by (cases "outbound c uid bdy") (simp_all add: send_message_def hbind_concluded)

lemma negotiate_one: "negotiate w = (Inr r, w') \<Longrightarrow> length (ws_sent w') = Suc (length (ws_sent w))"
  by (auto simp: negotiate_def hbind_Inr_iff concluded_def dest: send_message_one)

lemma send_setup_one: "send_setup uid r w = (Inr m, w') \<Longrightarrow> length (ws_sent w') = Suc (length (ws_sent w))"
  by (auto simp: send_setup_def hbind_Inr_iff concluded_def dest: send_message_one)

lemma negotiate_Inr:
  assumes "negotiate w = (Inr r, w')"
  shows "\<exists>m. heard (ws_in w) CMD_NEGOTIATE m (ws_in w') \<and> negotiate_reply m = Inr r"
  using assms
  by (auto simp: negotiate_def hbind_Inr_iff concluded_def map_sum_Inr_iff dest!: sent_heard)

text \<open>
  The exchange after its first leg: nothing more goes out unless the peer asked for more and its
  challenge was read.
\<close>

lemma concluded_state [simp]: "snd (concluded r w) = w"
  by (simp add: concluded_def)

lemma second_leg_state:
  "snd (second_leg pr entropy now req creds m w) =
     (case (read_challenge m, client_values_fresh entropy now) of
        (Inr ch, Some cv) \<Rightarrow>
          snd (send_setup (h_uid (header m)) (req\<lparr>su_security_blob := answer_token pr ch creds cv\<rparr>) w)
      | _ \<Rightarrow> w)"
  by (cases "read_challenge m"; cases "client_values_fresh entropy now")
    (simp_all add: second_leg_def hbind_concluded hbind_concluded_end)

lemma exchange_state:
  "snd (session_setup_exchange pr entropy now r n creds opts w) =
     (case send_setup 0 (setup_request r n opts) w of
        (Inl e, w1) \<Rightarrow> w1
      | (Inr m, w1) \<Rightarrow>
          if h_status (header m) = MORE_PROCESSING_REQUIRED
          then snd (second_leg pr entropy now (setup_request r n opts) creds m w1) else w1)"
proof -
  have "MORE_PROCESSING_REQUIRED \<noteq> SUCCESS" by (simp add: MORE_PROCESSING_REQUIRED_def SUCCESS_def)
  then show ?thesis by (simp add: session_setup_exchange_def hbind_def Let_def split: prod.split sum.split)
qed

lemma exchange_sent:
  "\<exists>xs. ws_sent (snd (session_setup_exchange pr entropy now r n creds opts w))
        = ws_sent (snd (send_setup 0 (setup_request r n opts) w)) @ xs
    \<and> length xs \<le> 1
    \<and> (if xs = [] then True
       else \<exists>m w1 ch. send_setup 0 (setup_request r n opts) w = (Inr m, w1)
              \<and> h_status (header m) = MORE_PROCESSING_REQUIRED \<and> read_challenge m = Inr ch)"
proof (cases "send_setup 0 (setup_request r n opts) w")
  case (Pair r1 w1)
  show ?thesis
  proof (cases "\<exists>m ch cv. r1 = Inr m \<and> h_status (header m) = MORE_PROCESSING_REQUIRED \<and> read_challenge m = Inr ch
        \<and> client_values_fresh entropy now = Some cv")
    case True
    then obtain m ch cv where m: "r1 = Inr m" "h_status (header m) = MORE_PROCESSING_REQUIRED"
      "read_challenge m = Inr ch" "client_values_fresh entropy now = Some cv" by blast
    let ?r = "(setup_request r n opts)\<lparr>su_security_blob := answer_token pr ch creds cv\<rparr>"
    have st: "snd (session_setup_exchange pr entropy now r n creds opts w) = snd (send_setup (h_uid (header m)) ?r w1)"
      by (simp add: exchange_state second_leg_state Pair m)
    obtain xs where xs: "ws_sent (snd (send_setup (h_uid (header m)) ?r w1)) = ws_sent w1 @ xs" "length xs \<le> 1"
      using send_setup_sent by blast
    show ?thesis unfolding st xs(1) Pair snd_conv using xs(2) m by (intro exI [of _ xs]) auto
  next
    case False
    then have "snd (session_setup_exchange pr entropy now r n creds opts w) = w1"
      by (cases r1; cases "read_challenge (projr r1)"; cases "client_values_fresh entropy now")
        (auto simp: exchange_state second_leg_state Pair)
    then show ?thesis by (simp add: Pair)
  qed
qed

lemma run_handshake_state:
  "snd (run_handshake pr entropy now creds opts w) =
     (case negotiate w of
        (Inl e, w1) \<Rightarrow> w1
      | (Inr r, w1) \<Rightarrow> snd (session_setup_exchange pr entropy now r (words_negotiated r) creds opts w1))"
  by (simp add: run_handshake_def hbind_def Let_def concluded_def split: prod.split sum.split)

lemma challenge_flags: "read_challenge m = Inr ch \<Longrightarrow> ch_flags ch AND NEGOTIATE_EXTENDED_SESSIONSECURITY \<noteq> 0"
  by (auto simp: read_challenge_def rbind_Inr_iff protocol_Inr_iff dest: challenge_parse_fields(5))

text \<open>
  C15. No credential reaches a server that has not shown what it is.  At most three messages go out; the
  first two are the same whoever authenticates and whatever the entropy source gives; and a third
  goes out only if the server, in its first reply, took the dialect, offered every required
  capability, user-level security without required signing and a buffer of the floor, and in its
  second asked for more with a challenge that negotiates extended session security.
\<close>

theorem credentials_withheld:
  fixes pr :: primitives and now :: int and opts :: session_options
  assumes "ws_sent w = []"
  defines "sent \<equiv> \<lambda>creds entropy. ws_sent (snd (run_handshake pr entropy now creds opts w))"
  shows "length (sent creds entropy) \<le> 3
    \<and> take 2 (sent creds entropy) = take 2 (sent creds' entropy')
    \<and> (if length (sent creds entropy) \<le> 2 then True
       else \<exists>m1 rest1 m2 rest2 r ch.
              heard (ws_in w) CMD_NEGOTIATE m1 rest1 \<and> heard rest1 CMD_SESSION_SETUP_ANDX m2 rest2
              \<and> negotiate_response_decode m1 = Inr r \<and> ng_dialect_index (np_words r) = 0 \<and> server_fits (np_words r)
              \<and> h_status (header m2) = MORE_PROCESSING_REQUIRED \<and> read_challenge m2 = Inr ch
              \<and> ch_flags ch AND NEGOTIATE_EXTENDED_SESSIONSECURITY \<noteq> 0)"
proof -
  obtain r0 w1 where n: "negotiate w = (r0, w1)" by (cases "negotiate w")
  obtain xs where xs: "ws_sent w1 = xs" "length xs \<le> 1" using negotiate_sent [of w] assms(1) n by auto
  show ?thesis
  proof (cases r0)
    case (Inl e)
    then show ?thesis using xs by (simp add: sent_def run_handshake_state n)
  next
    case (Inr r)
    define neg where "neg = words_negotiated r"
    obtain r1 w2 where f: "send_setup 0 (setup_request r neg opts) w1 = (r1, w2)"
      by (cases "send_setup 0 (setup_request r neg opts) w1")
    obtain ys where ys: "ws_sent w2 = xs @ ys" "length ys \<le> 1"
      using send_setup_sent [of 0 "setup_request r neg opts" w1] f xs(1) by auto
    have two: "length (xs @ ys) \<le> 2" using xs(2) ys(2) by simp
    have third: "\<exists>zs. sent creds entropy = (xs @ ys) @ zs \<and> length zs \<le> 1
        \<and> (if zs = [] then True else \<exists>m w3 ch. send_setup 0 (setup_request r neg opts) w1 = (Inr m, w3)
             \<and> h_status (header m) = MORE_PROCESSING_REQUIRED \<and> read_challenge m = Inr ch)" for creds entropy
      using exchange_sent [of pr entropy now r neg creds opts w1]
      by (simp add: sent_def run_handshake_state n Inr neg_def [symmetric] f ys(1))
    obtain zs where zs: "sent creds entropy = (xs @ ys) @ zs" "length zs \<le> 1"
      "if zs = [] then True else \<exists>m w3 ch. send_setup 0 (setup_request r neg opts) w1 = (Inr m, w3)
             \<and> h_status (header m) = MORE_PROCESSING_REQUIRED \<and> read_challenge m = Inr ch"
      using third by blast
    obtain zs' where zs': "sent creds' entropy' = (xs @ ys) @ zs'" "length zs' \<le> 1"
      "if zs' = [] then True else \<exists>m w3 ch. send_setup 0 (setup_request r neg opts) w1 = (Inr m, w3)
             \<and> h_status (header m) = MORE_PROCESSING_REQUIRED \<and> read_challenge m = Inr ch"
      using third by blast
    have xs1: "length xs = 1" using negotiate_one [OF n [unfolded Inr]] assms(1) xs(1) by simp
    have same: "take 2 ((xs @ ys) @ zs) = xs @ ys"
      if "zs \<noteq> [] \<Longrightarrow> \<exists>m w3. send_setup 0 (setup_request r neg opts) w1 = (Inr m, w3)" for zs
    proof (cases "zs = []")
      case False
      then have "length (ws_sent w2) = Suc (length xs)" using that f send_setup_one xs(1) by fastforce
      then show ?thesis using xs1 ys(1) by simp
    qed (use two in simp)
    have t: "take 2 (sent creds entropy) = xs @ ys" "take 2 (sent creds' entropy') = xs @ ys"
      unfolding zs(1) zs'(1) by (rule same; use zs(3) zs'(3) in \<open>auto split: if_splits\<close>)+
    show ?thesis
    proof (cases "zs = []")
      case True
      then show ?thesis using t two zs(1) by simp
    next
      case False
      then obtain m w3 ch where m: "send_setup 0 (setup_request r neg opts) w1 = (Inr m, w3)"
        "h_status (header m) = MORE_PROCESSING_REQUIRED" "read_challenge m = Inr ch"
        using zs(3) by auto
      obtain m1 where m1: "heard (ws_in w) CMD_NEGOTIATE m1 (ws_in w1)" "negotiate_reply m1 = Inr r"
        using negotiate_Inr [OF n [unfolded Inr]] by blast
      have "heard (ws_in w1) CMD_SESSION_SETUP_ANDX m (ws_in w3)" by (rule send_setup_Inr [OF m(1)])
      moreover have "negotiate_response_decode m1 = Inr r" "ng_dialect_index (np_words r) = 0" "server_fits (np_words r)"
        using m1(2) by (simp_all add: negotiate_reply_Inr)
      ultimately have evidence: "\<exists>m1 rest1 m2 rest2 r ch.
              heard (ws_in w) CMD_NEGOTIATE m1 rest1 \<and> heard rest1 CMD_SESSION_SETUP_ANDX m2 rest2
              \<and> negotiate_response_decode m1 = Inr r \<and> ng_dialect_index (np_words r) = 0 \<and> server_fits (np_words r)
              \<and> h_status (header m2) = MORE_PROCESSING_REQUIRED \<and> read_challenge m2 = Inr ch
              \<and> ch_flags ch AND NEGOTIATE_EXTENDED_SESSIONSECURITY \<noteq> 0"
        using m1(1) m(2,3) challenge_flags [OF m(3)] by blast
      have "length (sent creds entropy) \<le> 3" using two zs(1,2) by simp
      then show ?thesis using t evidence by simp
    qed
  qed
qed

section \<open>The session that comes of it\<close>

lemma run_handshake_Inr:
  assumes "run_handshake pr entropy now creds opts w = (Inr h, w')"
  shows "\<exists>r. server_fits (np_words r) \<and> hk_negotiated h = words_negotiated r
    \<and> si_capabilities (hk_server h) = ng_capabilities (np_words r)
    \<and> si_security_mode (hk_server h) = ng_security_mode (np_words r)
    \<and> si_max_buffer_size (hk_server h) = ng_max_buffer_size (np_words r)
    \<and> (if si_guest (hk_server h) then so_allow_guest opts else True)"
proof -
  obtain r w1 where n: "negotiate w = (Inr r, w1)"
    using assms by (auto simp: run_handshake_def hbind_Inr_iff)
  obtain uid st w2 where e: "session_setup_exchange pr entropy now r (words_negotiated r) creds opts w1 = (Inr (uid, st), w2)"
    using assms n by (auto simp: run_handshake_def hbind_Inr_iff)
  have "server_fits (np_words r)" using negotiate_Inr [OF n] by (auto simp: negotiate_reply_Inr)
  then show ?thesis
    using assms n e by (auto simp: run_handshake_def Let_def concluded_def split: if_splits)
qed

lemma fits_spawn: "server_fits (np_words r) \<Longrightarrow> spawn_accepts (words_negotiated r)"
  by (simp add: server_fits_def spawn_accepts_def words_negotiated_def MIN_BUFFER_SIZE_def MIN_MAX_BUFFER_SIZE_def)

text \<open>
  C17. What a session is: establishing one never panics, and a connection that is handed out has every
  required capability, user-level security, a buffer of at least the floor and so chunks of at least
  3,332 bytes either way, is a guest's only where the caller allowed it, and reports the parameters
  it runs on.
\<close>

theorem session_well_formed:
  "case fst (establish pr entropy now creds opts w) of
     None \<Rightarrow> False
   | Some (Inl _) \<Rightarrow> True
   | Some (Inr s) \<Rightarrow>
       list_all (\<lambda>(b, _). capabilities (cn_negotiated (se_connection s)) AND b \<noteq> 0) REQUIRED_CAPABILITIES
       \<and> si_security_mode (se_server s) AND SECURITY_USER \<noteq> 0
       \<and> si_security_mode (se_server s) AND SECURITY_SIGNATURES_REQUIRED = 0
       \<and> 4356 \<le> unat (max_buffer_size (cn_negotiated (se_connection s)))
       \<and> 3332 \<le> read_chunk_size (se_connection s) \<and> 3332 \<le> write_chunk_size (se_connection s)
       \<and> (if si_guest (se_server s) then so_allow_guest opts else True)
       \<and> si_capabilities (se_server s) = capabilities (cn_negotiated (se_connection s))
       \<and> si_max_buffer_size (se_server s) = max_buffer_size (cn_negotiated (se_connection s))"
proof (cases "run_handshake pr entropy now creds opts w")
  case (Pair res w')
  show ?thesis
  proof (cases res)
    case (Inl e)
    then show ?thesis by (simp add: establish_def Pair)
  next
    case (Inr h)
    obtain r where r: "server_fits (np_words r)" "hk_negotiated h = words_negotiated r"
      "si_capabilities (hk_server h) = ng_capabilities (np_words r)"
      "si_security_mode (hk_server h) = ng_security_mode (np_words r)"
      "si_max_buffer_size (hk_server h) = ng_max_buffer_size (np_words r)"
      "if si_guest (hk_server h) then so_allow_guest opts else True"
      using run_handshake_Inr [OF Pair [unfolded Inr]] by blast
    have sp: "spawn_accepts (words_negotiated r)" by (rule fits_spawn [OF r(1)])
    let ?c = "\<lparr>cn_negotiated = words_negotiated r, cn_downgraded = False\<rparr>"
    have "3332 \<le> chunk_size cap ?c" for cap using chunk_sizes_sound [of ?c cap] sp by simp
    then show ?thesis
      using r(1,3-) buffered_exact [OF sp]
      by (simp add: establish_def Pair Inr r(2) sp [unfolded words_negotiated_def] sp read_chunk_size_def write_chunk_size_def server_fits_def words_negotiated_def)
  qed
qed

section \<open>A handshake with a conforming server\<close>

lemma name_ok_native: "name_ok NATIVE_OS" "name_ok NATIVE_LAN_MAN"
  by (simp_all add: NATIVE_LAN_MAN_def NATIVE_OS_def name_ok_def lit_def scalar_def)

definition uid_header :: "u8 \<Rightarrow> u16 \<Rightarrow> smb_header" where
  "uid_header c uid = (header_request c)\<lparr>h_uid := uid\<rparr>"

lemma wf_uid_header [simp]: "wf_header (uid_header c uid)"
  by (simp add: uid_header_def)

text \<open>The frame of a body that fits one, and the message the peer parses out of it.\<close>

lemma outbound_body:
  assumes "wf_words ws" "length area \<le> 130000"
  shows "\<exists>f. outbound c uid (body ws area) = Inr f \<and> parse (drop NB_HEADER_LEN f) = Inr (built (uid_header c uid) ws area)"
proof -
  let ?m = "write_header (uid_header c uid) @ body ws area"
  have "length ?m \<le> MAX_MESSAGE_LEN"
    using assms by (simp add: length_write_header HEADER_LEN_def MAX_MESSAGE_LEN_def wf_words_def)
  then obtain b1 b2 b3 where "encode_header (length ?m) = Inr [TYPE_SESSION_MESSAGE, b1, b2, b3]"
    by (rule encode_header_Inr)
  then have "frame ?m = Inr ([TYPE_SESSION_MESSAGE, b1, b2, b3] @ ?m)" by (simp add: frame_def)
  then show ?thesis
    using parse_built [of "uid_header c uid" ws area] assms(1)
    by (simp add: outbound_def message_of_def uid_header_def [symmetric] NB_HEADER_LEN_def)
qed

lemma heard_await:
  assumes "heard bs c m rest" "ws_in w = bs"
  shows "await_reply c w = (Inr m, w\<lparr>ws_in := rest\<rparr>)"
  using await_reply_local [OF assms(1) [unfolded heard_def], of w] assms(2) by (simp add: silent_stream_def)

lemma send_message_heard:
  assumes "outbound c uid bdy = Inr f" "heard (ws_in w) c m rest" "0 < ws_writable w"
  shows "send_message c uid bdy w
    = (Inr m, w\<lparr>ws_in := rest, ws_sent := ws_sent w @ [f], ws_writable := ws_writable w - 1\<rparr>)"
  using assms(3) heard_await [OF assms(2), of "w\<lparr>ws_sent := ws_sent w @ [f], ws_writable := ws_writable w - 1\<rparr>"]
  by (simp add: send_message_def hbind_concluded assms(1)) (simp add: hbind_def write_all_def Let_def)

text \<open>One leg: the request that goes out, and what the server reads of it.\<close>

lemma leg_sent:
  assumes "length (su_security_blob req) \<le> 65535" "su_native_os req = NATIVE_OS" "su_native_lan_man req = NATIVE_LAN_MAN"
    and "heard (ws_in w) CMD_SESSION_SETUP_ANDX m rest" "0 < ws_writable w" "h_flags2 (header m) AND FLAGS2_NT_STATUS \<noteq> 0"
  obtains f mm where "send_setup uid req w
      = (Inr m, w\<lparr>ws_in := rest, ws_sent := ws_sent w @ [f], ws_writable := ws_writable w - 1\<rparr>)"
    and "parse (drop NB_HEADER_LEN f) = Inr mm" "h_uid (header mm) = uid" "setup_request_view mm = Inr req"
proof -
  let ?ws = "wr_setup_request_words (setup_words_of req)"
  have "length (setup_area req) \<le> 130000"
    using assms(1-3)
    by (simp add: setup_area_def token_area_def NATIVE_LAN_MAN_def NATIVE_OS_def lit_def utf16_char_def)
  then obtain f where f: "outbound CMD_SESSION_SETUP_ANDX uid (body ?ws (setup_area req)) = Inr f"
    "parse (drop NB_HEADER_LEN f) = Inr (built (uid_header CMD_SESSION_SETUP_ANDX uid) ?ws (setup_area req))"
    using outbound_body [OF setup_request.wf_words_plain] by blast
  have "send_setup uid req w
      = (Inr m, w\<lparr>ws_in := rest, ws_sent := ws_sent w @ [f], ws_writable := ws_writable w - 1\<rparr>)"
    by (simp add: send_setup_def hbind_concluded setup_encoded [OF assms(1)] send_message_heard [OF f(1) assms(4,5)])
      (simp add: concluded_def expect_nt_status_def assms(6))
  moreover have "setup_request_view (built (uid_header CMD_SESSION_SETUP_ANDX uid) ?ws (setup_area req)) = Inr req"
    using assms(1-3) name_ok_native by (intro setup_viewed) simp_all
  moreover have "h_uid (header (built (uid_header CMD_SESSION_SETUP_ANDX uid) ?ws (setup_area req))) = uid"
    by (simp add: uid_header_def)
  ultimately show thesis using f(2) that by blast
qed

definition in_nt_status :: "message \<Rightarrow> bool" where
  "in_nt_status m \<longleftrightarrow> h_flags2 (header m) AND FLAGS2_NT_STATUS \<noteq> 0"

text \<open>
  The three replies of a server that fits and asks for the second leg, as they stand on the stream;
  \<open>raw\<close> is its challenge and \<open>fin\<close> what its last reply decodes to.
\<close>

definition conversation ::
  "bytes \<Rightarrow> message \<Rightarrow> message \<Rightarrow> message \<Rightarrow> negotiate_response \<Rightarrow> bytes \<Rightarrow> session_setup_response \<Rightarrow> bool" where
  "conversation bs m1 m2 m3 r raw fin \<longleftrightarrow>
     (\<exists>b1 b2 b3. heard bs CMD_NEGOTIATE m1 b1 \<and> heard b1 CMD_SESSION_SETUP_ANDX m2 b2
                 \<and> heard b2 CMD_SESSION_SETUP_ANDX m3 b3)
     \<and> in_nt_status m1 \<and> in_nt_status m2 \<and> in_nt_status m3
     \<and> h_status (header m1) = SUCCESS \<and> h_status (header m2) = MORE_PROCESSING_REQUIRED \<and> h_status (header m3) = SUCCESS
     \<and> negotiate_response_decode m1 = Inr r \<and> ng_dialect_index (np_words r) = 0 \<and> server_fits (np_words r)
     \<and> (case session_setup_response_decode m2 of Inl _ \<Rightarrow> False | Inr t \<Rightarrow> response_token (sr_security_blob t) = Inr raw)
     \<and> session_setup_response_decode m3 = Inr fin"

lemma length_negotiate_message: "length negotiate_message = 40"
  by (simp add: negotiate_message_def Let_def NEGOTIATE_LEN_def codec_simps)

lemma first_token_fits: "length (neg_token_init negotiate_message) \<le> 65535"
  by (simp add: neg_token_init_def mech_list_def length_put_tlv_short length_negotiate_message SPNEGO_OID_def
      NTLMSSP_OID_def)

lemma handshake_runs:
  assumes conv: "conversation (ws_in w) m1 m2 m3 r raw fin"
    and ch: "challenge_parse raw = Inr ch" and cv: "client_values_fresh entropy now = Some cv"
    and room: "3 \<le> ws_writable w" and size: "length (answer_token pr ch creds cv) \<le> 65535"
  obtains w' f1 f2 f3 mm where "run_handshake pr entropy now creds opts w =
      (if is_guest fin \<and> \<not> so_allow_guest opts then Inl GuestLogon
       else Inr \<lparr>hk_negotiated = words_negotiated r, hk_uid = h_uid (header m3),
                 hk_server = \<lparr>si_capabilities = ng_capabilities (np_words r), si_security_mode = ng_security_mode (np_words r),
                              si_max_buffer_size = ng_max_buffer_size (np_words r), si_guest = is_guest fin,
                              si_strings = sr_server_strings fin\<rparr>\<rparr>, w')"
    and "ws_sent w' = ws_sent w @ [f1, f2, f3]"
    and "parse (drop NB_HEADER_LEN f3) = Inr mm" "h_uid (header mm) = h_uid (header m2)"
    and "setup_request_view mm = Inr ((setup_request r (words_negotiated r) opts)\<lparr>su_security_blob := answer_token pr ch creds cv\<rparr>)"
proof -
  obtain b1 b2 b3 where h: "heard (ws_in w) CMD_NEGOTIATE m1 b1" "heard b1 CMD_SESSION_SETUP_ANDX m2 b2"
    "heard b2 CMD_SESSION_SETUP_ANDX m3 b3"
    using conv by (auto simp: conversation_def)
  note c = conv [unfolded conversation_def in_nt_status_def]
  let ?n = "words_negotiated r" and ?req = "setup_request r (words_negotiated r) opts"
  obtain f1 where f1: "outbound CMD_NEGOTIATE 0 (body [] (DIALECT_ENTRY # utf8 NT_LM_0_12 @ [0])) = Inr f1"
    using outbound_body [of "[]" "DIALECT_ENTRY # utf8 NT_LM_0_12 @ [0]" CMD_NEGOTIATE 0]
    by (auto simp: wf_words_def NT_LM_0_12_def lit_def utf8_def utf8_char_def)
  define w1 where "w1 = w\<lparr>ws_in := b1, ws_sent := ws_sent w @ [f1], ws_writable := ws_writable w - 1\<rparr>"
  have n1: "negotiate_reply m1 = Inr r" using c by (simp add: negotiate_reply_Inr)
  have neg: "negotiate w = (Inr r, w1)"
    using room send_message_heard [OF f1 h(1)]
    by (simp add: negotiate_def negotiate_request_encode_body_def single_dialect_def Let_def hbind_concluded w1_def)
      (simp add: concluded_def n1)
  have blob1: "length (su_security_blob ?req) \<le> 65535"
    using first_token_fits by (simp add: setup_request_def)
  obtain f2 mm2 where l2: "send_setup 0 ?req w1
      = (Inr m2, w1\<lparr>ws_in := b2, ws_sent := ws_sent w1 @ [f2], ws_writable := ws_writable w1 - 1\<rparr>)"
    using c room h(2)
    by (auto intro: leg_sent [OF blob1, of w1 m2 b2 0] simp: setup_request_def w1_def)
  define w2 where "w2 = w1\<lparr>ws_in := b2, ws_sent := ws_sent w1 @ [f2], ws_writable := ws_writable w1 - 1\<rparr>"
  let ?req2 = "?req\<lparr>su_security_blob := answer_token pr ch creds cv\<rparr>"
  obtain f3 mm where l3: "send_setup (h_uid (header m2)) ?req2 w2
      = (Inr m3, w2\<lparr>ws_in := b3, ws_sent := ws_sent w2 @ [f3], ws_writable := ws_writable w2 - 1\<rparr>)"
    and view: "parse (drop NB_HEADER_LEN f3) = Inr mm" "h_uid (header mm) = h_uid (header m2)" "setup_request_view mm = Inr ?req2"
    using c room h(3) size
    by (auto intro: leg_sent [of ?req2 w2 m3 b3 "h_uid (header m2)"] simp: setup_request_def w1_def w2_def)
  have rc: "read_challenge m2 = Inr ch"
    using c ch by (auto simp: read_challenge_def rbind_Inr_iff map_sum_Inr_iff protocol_Inr_iff split: sum.splits)
  have ne: "MORE_PROCESSING_REQUIRED \<noteq> SUCCESS" by (simp add: MORE_PROCESSING_REQUIRED_def SUCCESS_def)
  define w3 where "w3 = w2\<lparr>ws_in := b3, ws_sent := ws_sent w2 @ [f3], ws_writable := ws_writable w2 - 1\<rparr>"
  have leg2: "second_leg pr entropy now ?req creds m2 w2 = (Inr (h_uid (header m3), fin), w3)"
    using c by (simp add: second_leg_def hbind_concluded rc cv l3 w3_def) (simp add: concluded_def)
  have ex: "session_setup_exchange pr entropy now r ?n creds opts w1 = (Inr (h_uid (header m3), fin), w3)"
    using c ne leg2 by (simp add: session_setup_exchange_def Let_def l2 w2_def)
  show thesis
  proof (rule that)
    show "run_handshake pr entropy now creds opts w =
      (if is_guest fin \<and> \<not> so_allow_guest opts then Inl GuestLogon
       else Inr \<lparr>hk_negotiated = words_negotiated r, hk_uid = h_uid (header m3),
                 hk_server = \<lparr>si_capabilities = ng_capabilities (np_words r), si_security_mode = ng_security_mode (np_words r),
                              si_max_buffer_size = ng_max_buffer_size (np_words r), si_guest = is_guest fin,
                              si_strings = sr_server_strings fin\<rparr>\<rparr>, w3)"
      by (simp add: run_handshake_def neg ex Let_def) (simp add: concluded_def)
    show "ws_sent w3 = ws_sent w @ [f1, f2, f3]" by (simp add: w3_def w2_def w1_def)
  qed (fact view)+
qed


text \<open>What went out verifies: the token is small enough to be declared, so no length of it wrapped.\<close>

lemma answer_read:
  assumes "length (answer_token pr ch creds cv) \<le> 65535"
  shows "response_token (answer_token pr ch creds cv) = Inr (au_message (authenticate pr negotiate_message ch creds cv))"
    "length (au_message (authenticate pr negotiate_message ch creds cv)) < 65536"
proof -
  let ?m = "au_message (authenticate pr negotiate_message ch creds cv)"
  let ?mic = "mech_list_mic pr (authenticate pr negotiate_message ch creds cv) mech_list"
  have t: "answer_token pr ch creds cv = neg_token_resp ?m ?mic" by (simp add: answer_token_def Let_def)
  then show "response_token (answer_token pr ch creds cv) = Inr ?m"
    using own_token_found [of ?m ?mic] assms by simp
  let ?o = "put_tlv TAG_CONTEXT_2 (put_tlv TAG_OCTET_STRING ?m)"
  let ?fields = "?o @ put_tlv TAG_CONTEXT_3 (put_tlv TAG_OCTET_STRING ?mic)"
  have "length ?m \<le> length (put_tlv TAG_OCTET_STRING ?m)" by (rule length_put_tlv_le)
  also have "\<dots> \<le> length ?o" by (rule length_put_tlv_le)
  also have "\<dots> \<le> length ?fields" by simp
  also have "\<dots> \<le> length (put_tlv TAG_SEQUENCE ?fields)" by (rule length_put_tlv_le)
  also have "\<dots> \<le> length (neg_token_resp ?m ?mic)" unfolding neg_token_resp_def by (rule length_put_tlv_le)
  finally show "length ?m < 65536" using assms t by simp
qed

text \<open>
  C16. Against a server that fits and asks for the second leg the handshake comes to its end, whatever
  keep-alives stand between the replies: a guest logon is refused unless it is allowed, and otherwise
  the session has the user id of the last reply; three messages went out, and what the server reads
  of the third under the user id it gave is an answer that verifies with the account's key and
  yields the client's session key.
\<close>

theorem handshake_completes:
  assumes "conversation (ws_in w) m1 m2 m3 r raw fin" "challenge_parse raw = Inr ch"
    and "primitives_ok pr" "length nonce = 8" "length key = 16" "3 \<le> ws_writable w"
    and "cv = \<lparr>cv_client_challenge = nonce, cv_exported_session_key = key, cv_timestamp = filetime_at now\<rparr>"
    and "length (answer_token pr ch creds cv) \<le> 65535"
    and "av_timestamp (ch_target_info ch) = None \<Longrightarrow> \<not> claims_mic (av_iter (ch_target_info ch))"
  shows "\<exists>w' f1 f2 f3 mm req ans.
    run_handshake pr (Some (nonce, key)) now creds opts w =
      (if is_guest fin \<and> \<not> so_allow_guest opts then Inl GuestLogon
       else Inr \<lparr>hk_negotiated = words_negotiated r, hk_uid = h_uid (header m3),
                 hk_server = \<lparr>si_capabilities = ng_capabilities (np_words r), si_security_mode = ng_security_mode (np_words r),
                              si_max_buffer_size = ng_max_buffer_size (np_words r), si_guest = is_guest fin,
                              si_strings = sr_server_strings fin\<rparr>\<rparr>, w')
    \<and> ws_sent w' = ws_sent w @ [f1, f2, f3]
    \<and> parse (drop NB_HEADER_LEN f3) = Inr mm \<and> h_uid (header mm) = h_uid (header m2)
    \<and> setup_request_view mm = Inr req \<and> response_token (su_security_blob req) = Inr ans
    \<and> nt_verify pr (ntowf_v2 pr creds) negotiate_message raw ans
        = Some (ntlm_utf16 (cr_user creds), ntlm_utf16 (cr_domain creds), key, pairs_sent ch)"
proof -
  have fresh: "client_values_fresh (Some (nonce, key)) now = Some cv"
    by (simp add: client_values_fresh_def assms(7))
  have cv: "values_ok cv" using assms(4,5) by (simp add: values_ok_def assms(7) filetime_at_def codec_simps Let_def)
  note tok = answer_read [OF assms(8)]
  note runs = handshake_runs [OF assms(1,2) fresh assms(6,8), where opts = opts]
  have ver: "nt_verify pr (ntowf_v2 pr creds) negotiate_message raw (au_message (authenticate pr negotiate_message ch creds cv))
        = Some (ntlm_utf16 (cr_user creds), ntlm_utf16 (cr_domain creds), key, pairs_sent ch)"
    using answer_verifies [OF assms(3) cv assms(2) tok(2) assms(9)] by (simp add: assms(7))
  show ?thesis
    by (rule runs) (intro exI conjI, assumption+, simp add: tok(1), rule ver)
qed

text \<open>A server of that kind, which sends a keep-alive first.\<close>

lemma framed_built:
  assumes "wf_header h" "wf_words ws" "length area \<le> 130000"
  shows "\<exists>f. framed f (InMessage (built h ws area))"
proof -
  have "length (write_header h @ body ws area) \<le> MAX_MESSAGE_LEN"
    using assms by (simp add: length_write_header HEADER_LEN_def MAX_MESSAGE_LEN_def wf_words_def)
  then obtain b1 b2 b3 where "encode_header (length (write_header h @ body ws area)) = Inr [TYPE_SESSION_MESSAGE, b1, b2, b3]"
    by (rule encode_header_Inr)
  then have "frame (write_header h @ body ws area) = Inr ([TYPE_SESSION_MESSAGE, b1, b2, b3] @ write_header h @ body ws area)"
    by (simp add: frame_def)
  then show ?thesis using frame_framed parse_built [OF assms(1,2)] by blast
qed

lemma heard_frames:
  assumes "list_all (\<lambda>f. framed f InKeepAlive) kas" "framed f (InMessage m)" "h_command (header m) = c"
  shows "heard (concat kas @ f @ rest) c m rest"
  unfolding heard_def
  by (subst await_frames [OF assms, of "silent_stream (concat kas @ f @ rest)" rest]) (simp_all add: silent_stream_def)

definition demo_words :: negotiate_words where
  "demo_words =
     \<lparr>ng_dialect_index = 0, ng_security_mode = 0x03, ng_max_mpx_count = 50, ng_max_number_vcs = 1,
      ng_max_buffer_size = 16644, ng_max_raw_size = 65536, ng_session_key = 0, ng_capabilities = 0x8000C25C,
      ng_system_time = 0, ng_server_time_zone = 0, ng_encryption_key_length = 0\<rparr>"

definition demo_reply :: negotiate_response where
  "demo_reply = \<lparr>np_words = demo_words, np_server_guid = replicate 16 1, np_security_blob = []\<rparr>"

definition demo_setup :: "nt_status \<Rightarrow> bytes \<Rightarrow> message" where
  "demo_setup status blob =
     built ((uid_header CMD_SESSION_SETUP_ANDX 7)\<lparr>h_status := status\<rparr>)
       (wr_setup_response_words \<lparr>ur_andx = ANDX_NONE, ur_action = 0, ur_security_blob_length = of_nat (length blob)\<rparr>)
       (token_area (HEADER_LEN + 1 + 8 + 2) blob [])"

definition served_negotiated :: message where
  "served_negotiated = built (header_request CMD_NEGOTIATE) (wr_negotiate_words demo_words) (replicate 16 1)"

lemma demo_setup_read:
  "length blob < 65536 \<Longrightarrow> session_setup_response_decode (demo_setup status blob)
     = Inr \<lparr>sr_action = 0, sr_security_blob = blob, sr_server_strings = []\<rparr>"
  unfolding demo_setup_def by (rule setup_reply_read) (simp_all add: uid_header_def wf_header_def header_request_def)

lemma demo_fits: "server_fits demo_words"
  by (simp add: server_fits_def demo_words_def REQUIRED_CAPABILITIES_def CAP_EXTENDED_SECURITY_def SECURITY_USER_def
      SECURITY_SIGNATURES_REQUIRED_def MIN_MAX_BUFFER_SIZE_def)

lemma served_negotiated_read: "negotiate_response_decode served_negotiated = Inr demo_reply"
  using negotiate_response_roundtrip [of "header_request CMD_NEGOTIATE" demo_reply]
  by (simp add: demo_reply_def served_negotiated_def negotiate_response_encode_body_def Let_def area_at_def put_def
      delivered_body negotiate_words.wf_words_plain)

lemma demo_conversation:
  "\<exists>bs. conversation bs served_negotiated (demo_setup MORE_PROCESSING_REQUIRED (neg_token_resp demo_challenge []))
      (demo_setup SUCCESS []) demo_reply demo_challenge \<lparr>sr_action = 0, sr_security_blob = [], sr_server_strings = []\<rparr>"
proof -
  let ?m2 = "demo_setup MORE_PROCESSING_REQUIRED (neg_token_resp demo_challenge [])" and ?m3 = "demo_setup SUCCESS []"
  have n: "length (neg_token_resp demo_challenge []) = 90"
    by (simp add: neg_token_resp_def length_put_tlv_short demo_challenge_def codec_simps demo_pairs_def AV_TIMESTAMP_def)
  obtain f1 where f1: "framed f1 (InMessage served_negotiated)"
    unfolding served_negotiated_def using framed_built [of "header_request CMD_NEGOTIATE" "wr_negotiate_words demo_words" "replicate 16 1"]
    by (auto simp: negotiate_words.wf_words_plain)
  have "\<exists>f. framed f (InMessage (demo_setup status blob))" if "length blob < 1000" for status blob
    unfolding demo_setup_def using that
    by (intro framed_built) (simp_all add: uid_header_def wf_header_def header_request_def setup_response.wf_words_plain token_area_def)
  then obtain f2 f3 where f2: "framed f2 (InMessage ?m2)" and f3: "framed f3 (InMessage ?m3)" using n by force
  have ka: "list_all (\<lambda>f. framed f InKeepAlive) [[TYPE_SESSION_KEEP_ALIVE, 0, 0, 0]]"
    by (simp add: framed_def NB_HEADER_LEN_def decode_header_def TYPE_SESSION_KEEP_ALIVE_def TYPE_SESSION_MESSAGE_def)
  have h1: "heard (concat [[TYPE_SESSION_KEEP_ALIVE, 0, 0, 0]] @ f1 @ f2 @ f3) CMD_NEGOTIATE served_negotiated (f2 @ f3)"
    by (rule heard_frames [OF ka f1]) (simp add: served_negotiated_def)
  have h2: "heard (f2 @ f3) CMD_SESSION_SETUP_ANDX ?m2 f3"
    using heard_frames [of "[]", OF _ f2, of CMD_SESSION_SETUP_ANDX f3] by (simp add: demo_setup_def uid_header_def)
  have h3: "heard f3 CMD_SESSION_SETUP_ANDX ?m3 []"
    using heard_frames [of "[]", OF _ f3, of CMD_SESSION_SETUP_ANDX "[]"] by (simp add: demo_setup_def uid_header_def)
  have nt: "FLAGS2_CLIENT AND FLAGS2_NT_STATUS \<noteq> 0"
    by (simp add: FLAGS2_CLIENT_def FLAGS2_NT_STATUS_def FLAGS2_UNICODE_def FLAGS2_EXTENDED_SECURITY_def
        FLAGS2_KNOWS_LONG_NAMES_def)
  have tok: "response_token (neg_token_resp demo_challenge []) = Inr demo_challenge"
    by (rule own_token_found) (simp add: n)
  have flags: "in_nt_status served_negotiated" "in_nt_status (demo_setup status blob)"
    "h_status (header served_negotiated) = SUCCESS" "h_status (header (demo_setup status blob)) = status" for status blob
    by (simp_all add: in_nt_status_def served_negotiated_def demo_setup_def uid_header_def header_request_def nt)
  have "ng_dialect_index (np_words demo_reply) = 0" "server_fits (np_words demo_reply)"
    by (simp_all add: demo_reply_def demo_fits) (simp add: demo_words_def)
  then have "conversation (concat [[TYPE_SESSION_KEEP_ALIVE, 0, 0, 0]] @ f1 @ f2 @ f3) served_negotiated ?m2 ?m3
      demo_reply demo_challenge \<lparr>sr_action = 0, sr_security_blob = [], sr_server_strings = []\<rparr>"
    unfolding conversation_def using h1 h2 h3 n
    by (intro conjI exI) (assumption | simp add: flags served_negotiated_read demo_setup_read tok)+
  then show ?thesis by blast
qed

lemma length_mech_list_mic: "primitives_ok pr \<Longrightarrow> length (mech_list_mic pr au mechs) = 16"
  by (simp add: mech_list_mic_def primitives_ok_def Let_def DIGEST_LEN_def codec_simps)

definition demo_creds :: credentials where "demo_creds = credentials_new (lit ''u'') (lit ''p'')"

lemma demo_token: "length (answer_token demo_primitives demo_parsed demo_creds demo_values) \<le> 65535"
  using neg_token_resp_length [of "au_message (authenticate demo_primitives negotiate_message demo_parsed demo_creds demo_values)"
      "mech_list_mic demo_primitives (authenticate demo_primitives negotiate_message demo_parsed demo_creds demo_values) mech_list"]
    demo_length [of negotiate_message] length_mech_list_mic [OF demo_primitives_ok]
  by (simp add: answer_token_def Let_def demo_creds_def)

definition demo_stream :: "bytes \<Rightarrow> wire_stream" where
  "demo_stream bs = \<lparr>ws_in = bs, ws_sent = [], ws_writable = 3, ws_end = Silent\<rparr>"

definition demo_run :: "bytes \<Rightarrow> (error + handshake) \<times> wire_stream" where
  "demo_run bs =
     run_handshake demo_primitives (Some (replicate 8 0xAA, replicate 16 0x55)) 0 demo_creds session_options_default
       (demo_stream bs)"

lemma demo_fresh: "client_values_fresh (Some (replicate 8 0xAA, replicate 16 0x55)) 0 = Some demo_values"
  by (simp add: client_values_fresh_def demo_values_def)

text \<open>The same conversation with its messages left abstract.\<close>

lemma demo_served:
  obtains bs m1 m2 m3 fin where "conversation bs m1 m2 m3 demo_reply demo_challenge fin" "h_uid (header m3) = 7"
    "\<not> is_guest fin"
proof -
  have "h_uid (header (demo_setup SUCCESS [])) = 7" by (simp add: demo_setup_def uid_header_def)
  moreover have "\<not> is_guest \<lparr>sr_action = 0, sr_security_blob = [], sr_server_strings = []\<rparr>" by (simp add: is_guest_def)
  ultimately show thesis using demo_conversation that by blast
qed

lemma demo_stream_simps:
  "ws_in (demo_stream bs) = bs" "3 \<le> ws_writable (demo_stream bs)" "ws_sent (demo_stream bs) = []"
  by (simp_all add: demo_stream_def)

lemma handshake_three:
  assumes "conversation (ws_in w) m1 m2 m3 r raw fin" "challenge_parse raw = Inr ch"
    "client_values_fresh entropy now = Some cv" "3 \<le> ws_writable w" "length (answer_token pr ch creds cv) \<le> 65535"
  shows "length (ws_sent (snd (run_handshake pr entropy now creds opts w))) = length (ws_sent w) + 3"
  by (rule handshake_runs [OF assms, where opts = opts]) simp

theorem credentials_withheld_witness:
  "\<exists>bs m1 rest1 m2 rest2. length (ws_sent (snd (demo_run bs))) = 3
     \<and> heard bs CMD_NEGOTIATE m1 rest1 \<and> heard rest1 CMD_SESSION_SETUP_ANDX m2 rest2
     \<and> h_status (header m2) = MORE_PROCESSING_REQUIRED"
proof (rule demo_served)
  fix bs m1 m2 m3 fin
  assume conv: "conversation bs m1 m2 m3 demo_reply demo_challenge fin"
  have conv': "conversation (ws_in (demo_stream bs)) m1 m2 m3 demo_reply demo_challenge fin"
    using conv by (simp only: demo_stream_simps)
  have n: "length (ws_sent (snd (demo_run bs))) = 3"
    unfolding demo_run_def
    by (subst handshake_three [OF conv' demo_parse demo_fresh demo_stream_simps(2) demo_token])
      (simp add: demo_stream_simps)
  have "\<not> length (ws_sent (snd (demo_run bs))) \<le> 2" using n by simp
  note evidence = credentials_withheld [OF demo_stream_simps(3) [of bs], where pr = demo_primitives and now = 0
      and opts = session_options_default and creds = demo_creds
      and entropy = "Some (replicate 8 0xAA, replicate 16 0x55)" and creds' = demo_creds and entropy' = None,
      THEN conjunct2, THEN conjunct2, folded demo_run_def, unfolded demo_stream_simps if_not_P [OF this]]
  then show ?thesis using n by blast
qed

theorem handshake_completes_witness:
  "\<exists>bs h w'. demo_run bs = (Inr h, w') \<and> hk_uid h = 7 \<and> length (ws_sent w') = 3"
proof (rule demo_served)
  fix bs m1 m2 m3 fin
  assume conv: "conversation bs m1 m2 m3 demo_reply demo_challenge fin" and uid: "h_uid (header m3) = 7"
    and guest: "\<not> is_guest fin"
  have conv': "conversation (ws_in (demo_stream bs)) m1 m2 m3 demo_reply demo_challenge fin"
    using conv by (simp only: demo_stream_simps)
  have t: "av_timestamp (ch_target_info demo_parsed) = None \<Longrightarrow> \<not> claims_mic (av_iter (ch_target_info demo_parsed))"
    by (simp add: demo_timestamp)
  have n: "length (replicate 8 (0xAA :: u8)) = 8" "length (replicate 16 (0x55 :: u8)) = 16" by simp_all
  have pick: "\<not> (is_guest fin \<and> \<not> so_allow_guest session_options_default)" using guest by simp
  note done' = handshake_completes [OF conv' demo_parse demo_primitives_ok n
        demo_stream_simps(2) demo_values_def demo_token t, where opts = session_options_default,
        folded demo_run_def, unfolded demo_stream_simps if_not_P [OF pick]]
  then obtain h w' f1 f2 f3 where "demo_run bs = (Inr h, w')" "hk_uid h = h_uid (header m3)" "ws_sent w' = [] @ [f1, f2, f3]"
    by (metis handshake.select_convs(2))
  moreover from this(3) have "length (ws_sent w') = 3" by simp
  ultimately have "demo_run bs = (Inr h, w') \<and> hk_uid h = 7 \<and> length (ws_sent w') = 3" using uid by simp
  then show ?thesis by blast
qed

end
