(* ===== verification/TreeMsgs.thy ===== *)
theory TreeMsgs
  imports Message
begin

text \<open>
  \<open>TREE_CONNECT_ANDX\<close> and \<open>TREE_DISCONNECT\<close> (\<open>wire/tree.rs\<close>).  The declared
  one-byte password of a request is what puts the path on a word boundary; the file system name of a
  reply stands behind an ASCII service and at most one pad byte.
\<close>

definition TREE_REQUEST_WORDS :: u8 where "TREE_REQUEST_WORDS = 4"
definition SERVICE_DISK :: rstr where "SERVICE_DISK = lit ''A:''"
definition SERVICE_IPC :: rstr where "SERVICE_IPC = lit ''IPC''"
definition SERVICE_ANY :: rstr where "SERVICE_ANY = lit ''?????''"

section \<open>Word blocks\<close>

record tree_request_words =
  tw_andx :: andx
  tw_flags :: u16
  tw_password_length :: u16

definition wr_tree_request_words :: "tree_request_words \<Rightarrow> bytes" where
  "wr_tree_request_words w = write_andx (tw_andx w) @ le16 (tw_flags w) @ le16 (tw_password_length w)"

definition rd_tree_request_words :: "bytes \<Rightarrow> (tree_request_words \<times> bytes) option" where
  "rd_tree_request_words bs = do {
     (a, bs) \<leftarrow> rd_andx bs;
     (flags, bs) \<leftarrow> rd16 bs;
     (password, bs) \<leftarrow> rd16 bs;
     Some (\<lparr>tw_andx = a, tw_flags = flags, tw_password_length = password\<rparr>, bs)
   }"

interpretation tree_request: word_layout wr_tree_request_words rd_tree_request_words 4
  by unfold_locales (simp_all add: wr_tree_request_words_def rd_tree_request_words_def codec_simps)

record tree_response_words =
  ty_andx :: andx
  ty_optional_support :: u16

definition wr_tree_response_words :: "tree_response_words \<Rightarrow> bytes" where
  "wr_tree_response_words w = write_andx (ty_andx w) @ le16 (ty_optional_support w)"

definition rd_tree_response_words :: "bytes \<Rightarrow> (tree_response_words \<times> bytes) option" where
  "rd_tree_response_words bs = do {
     (a, bs) \<leftarrow> rd_andx bs;
     (support, bs) \<leftarrow> rd16 bs;
     Some (\<lparr>ty_andx = a, ty_optional_support = support\<rparr>, bs)
   }"

interpretation tree_response: word_layout wr_tree_response_words rd_tree_response_words 3
  by unfold_locales (simp_all add: wr_tree_response_words_def rd_tree_response_words_def codec_simps)

section \<open>Strings\<close>

definition find_utf16_terminator :: "bytes \<Rightarrow> wire_error + nat" where
  "find_utf16_terminator bs =
     (case nul_unit (le_units bs) of
        None \<Rightarrow> Inl (Truncated ''UTF-16 string terminator'' (length bs) (length bs))
      | Some units \<Rightarrow> Inr (units * 2))"

text \<open>\<open>position(|b| b == 0)\<close>.\<close>

definition nul_byte :: "bytes \<Rightarrow> nat option" where
  "nul_byte bs = (let n = length (takeWhile (\<lambda>b. b \<noteq> 0) bs) in if n < length bs then Some n else None)"

definition ascii_z :: "string \<Rightarrow> bytes \<Rightarrow> wire_error + rstr" where
  "ascii_z field bs =
     rbind (ok_or (Truncated field (length bs) (length bs)) (nul_byte bs)) (\<lambda>fin.
     Inr (from_utf8_lossy (take fin bs)))"

section \<open>TREE_CONNECT_ANDX\<close>

record tree_connect_request =
  tc_flags :: u16
  tc_password :: bytes
  tc_path :: rstr
  tc_service :: rstr

definition tree_connect_request_new :: "rstr \<Rightarrow> rstr \<Rightarrow> tree_connect_request" where
  "tree_connect_request_new path service =
     \<lparr>tc_flags = 0, tc_password = [0], tc_path = path, tc_service = service\<rparr>"

definition tree_connect_request_encode_body :: "tree_connect_request \<Rightarrow> wire_error + bytes" where
  "tree_connect_request_encode_body r =
     (let area = snd (put (tc_password r) (for_word_count (unat TREE_REQUEST_WORDS))) in
      rbind (require_word_aligned ''Path'' (area_offset area)) (\<lambda>_.
      let area = snd (put [0] (snd (put (utf8 (tc_service r)) (snd (put (utf16z (tc_path r)) area)))));
          ws = \<lparr>tw_andx = ANDX_NONE, tw_flags = tc_flags r, tw_password_length = of_nat (length (tc_password r))\<rparr>
      in Inr (body (wr_tree_request_words ws) (area_bytes area))))"

text \<open>\<open>split_at_checked(n)\<close>.\<close>

definition tree_connect_request_decode :: "message \<Rightarrow> wire_error + tree_connect_request" where
  "tree_connect_request_decode m =
     rbind (expect_words m CMD_TREE_CONNECT_ANDX [TREE_REQUEST_WORDS] ''4'') (\<lambda>_.
     rbind (read_words rd_tree_request_words (words m)) (\<lambda>w.
     rbind (byte_area_of m) (\<lambda>area.
     let n = unat (tw_password_length w) in
     if length area < n then Inl (Truncated ''Password'' n (length area))
     else
       (let rest = drop n area in
        rbind (find_utf16_terminator rest) (\<lambda>fin.
        rbind (from_utf16 ''Path'' 0 (take fin rest)) (\<lambda>path.
        rbind (ascii_z ''Service'' (drop (fin + 2) rest)) (\<lambda>service.
        Inr \<lparr>tc_flags = tw_flags w, tc_password = take n area, tc_path = path, tc_service = service\<rparr>)))))))"

record tree_connect_response =
  ts_andx :: andx
  ts_optional_support :: u16
  ts_service :: rstr
  ts_native_file_system :: rstr

definition tree_connect_response_decode :: "message \<Rightarrow> wire_error + tree_connect_response" where
  "tree_connect_response_decode m =
     rbind (expect_words m CMD_TREE_CONNECT_ANDX [3, 7] ''3 or 7'') (\<lambda>_.
     rbind (read_words rd_tree_response_words (words m)) (\<lambda>w.
     rbind (refuse_chaining (ty_andx w)) (\<lambda>_.
     rbind (byte_area_of m) (\<lambda>area.
     rbind (ok_or (Truncated ''Service'' (length area) (length area)) (nul_byte area)) (\<lambda>service_end.
     rbind (ascii_z ''Service'' area) (\<lambda>service.
     let rest = drop (service_end + 1) area;
         name_at = byte_area_offset m + service_end + 1;
         rest = (if name_at mod 2 \<noteq> 0 \<and> rest \<noteq> [] then drop 1 rest else rest) in
     rbind (find_utf16_terminator rest) (\<lambda>name_end.
     rbind (from_utf16 ''NativeFileSystem'' 0 (take name_end rest)) (\<lambda>name.
     Inr \<lparr>ts_andx = ty_andx w, ts_optional_support = ty_optional_support w, ts_service = service,
          ts_native_file_system = name\<rparr>))))))))"

definition tree_connect_response_encode_body :: "tree_connect_response \<Rightarrow> wire_error + bytes" where
  "tree_connect_response_encode_body r =
     (let area = snd (put [0] (snd (put (utf8 (ts_service r)) (for_word_count 3))));
          area = snd (put (utf16z (ts_native_file_system r)) (align_to 2 area));
          ws = \<lparr>ty_andx = ts_andx r, ty_optional_support = ts_optional_support r\<rparr>
      in Inr (body (wr_tree_response_words ws) (area_bytes area)))"

section \<open>TREE_DISCONNECT\<close>

definition tree_disconnect_encode_body :: "wire_error + bytes" where
  "tree_disconnect_encode_body = Inr (body [] [])"

definition tree_disconnect_decode :: "message \<Rightarrow> wire_error + unit" where
  "tree_disconnect_decode m = rbind (expect_words m CMD_TREE_DISCONNECT [0] ''0'') (\<lambda>_. Inr ())"

section \<open>Round trips\<close>

lemma find_utf16_terminator_name:
  "name_ok text \<Longrightarrow> find_utf16_terminator (utf16z text @ post) = Inr (2 * length (encode_utf16 text))"
  by (simp add: find_utf16_terminator_def utf16z_def le_units_append nul_unit_append encode_nonzero u16_le_def)

lemma take_utf16z [simp]:
  "take (2 * length (encode_utf16 text)) (utf16z text) = units_le (encode_utf16 text)"
  by (simp add: utf16z_def)

lemma takeWhile_nul_z: "list_all (\<lambda>b. b \<noteq> 0) xs \<Longrightarrow> takeWhile (\<lambda>b. b \<noteq> 0) (xs @ 0 # post) = (xs :: bytes)"
  by (induction xs) simp_all

text \<open>A string an ASCII field can carry.\<close>

definition ascii_ok :: "rstr \<Rightarrow> bool" where
  "ascii_ok cs \<longleftrightarrow> list_all (\<lambda>c. 0 < c \<and> c < 0x80) cs"

lemma ascii_bytes_nonzero: "ascii_ok cs \<Longrightarrow> list_all (\<lambda>b. b \<noteq> 0) (map of_nat cs :: bytes)"
proof (induction cs)
  case (Cons c cs)
  then have "unat (of_nat c :: u8) = c" by (simp add: ascii_ok_def unat_of_nat)
  then have "(of_nat c :: u8) \<noteq> 0" using Cons.prems by (auto simp: ascii_ok_def)
  then show ?case using Cons by (simp add: ascii_ok_def)
qed simp

lemma utf8_ascii_ok: "ascii_ok cs \<Longrightarrow> utf8 cs = map of_nat cs"
  by (rule utf8_ascii) (simp add: ascii_ok_def list_all_iff)

lemma nul_byte_ascii: "ascii_ok cs \<Longrightarrow> nul_byte (utf8 cs @ 0 # post) = Some (length cs)"
  using takeWhile_nul_z [OF ascii_bytes_nonzero, of cs post] by (simp add: nul_byte_def utf8_ascii_ok)

lemma ascii_z_ascii: "ascii_ok cs \<Longrightarrow> ascii_z field (utf8 cs @ 0 # post) = Inr cs"
  using from_utf8_lossy_ascii [of cs]
  by (simp only: ascii_z_def nul_byte_ascii ok_or_simps rbind_simps)
     (simp add: utf8_ascii_ok ascii_ok_def list_all_iff)

text \<open>
  A tree connect survives the wire with any password that aligns the path, and a reply is read back
  whatever the parity of its service.
\<close>

lemma tree_request_roundtrip:
  assumes "wf_header h" "h_command h = CMD_TREE_CONNECT_ANDX" "name_ok (tc_path r)" "ascii_ok (tc_service r)"
    and "odd (length (tc_password r))"
    and "length (tc_password r) + length (utf16z (tc_path r)) + length (tc_service r) < 65000"
  shows "delivered h (tree_connect_request_encode_body r) tree_connect_request_decode = Inr r"
proof -
  let ?ws = "\<lparr>tw_andx = ANDX_NONE, tw_flags = tc_flags r, tw_password_length = of_nat (length (tc_password r))\<rparr>"
  let ?area = "tc_password r @ utf16z (tc_path r) @ utf8 (tc_service r) @ [0]"
  have enc: "tree_connect_request_encode_body r = Inr (body (wr_tree_request_words ?ws) ?area)"
    using assms(5)
    by (simp add: tree_connect_request_encode_body_def Let_def TREE_REQUEST_WORDS_def HEADER_LEN_def
        require_word_aligned_def NAME_ALIGNMENT_def mod2_eq_if)
  have small: "length ?area < 65536" using assms(4,6) by (simp add: utf8_ascii_ok)
  have n: "unat (of_nat (length (tc_password r)) :: u16) = length (tc_password r)"
    using assms(6) by (simp add: unat_of_nat)
  have path: "from_utf16 ''Path'' 0 (units_le (encode_utf16 (tc_path r))) = Inr (tc_path r)"
    using assms(3) by (simp add: from_utf16_utf16 name_ok_def)
  have "drop (2 * length (encode_utf16 (tc_path r)) + 2) (utf16z (tc_path r) @ utf8 (tc_service r) @ [0])
      = utf8 (tc_service r) @ [0]"
    by simp
  then show ?thesis
    using assms(1,2) small n path
    by (simp add: enc delivered_body tree_request.wf_words_plain tree_connect_request_decode_def
        TREE_REQUEST_WORDS_def tree_request.expect_words_built tree_request.read_words_plain
        byte_area_built find_utf16_terminator_name [OF assms(3)] ascii_z_ascii [OF assms(4)] Let_def)
qed

lemma tree_response_roundtrip:
  assumes "wf_header h" "h_command h = CMD_TREE_CONNECT_ANDX" "ax_command (ts_andx r) = NO_FURTHER_COMMAND"
    and "name_ok (ts_native_file_system r)" "ascii_ok (ts_service r)"
    and "length (utf16z (ts_native_file_system r)) + length (ts_service r) < 65000"
  shows "delivered h (tree_connect_response_encode_body r) tree_connect_response_decode = Inr r"
proof -
  let ?ws = "\<lparr>ty_andx = ts_andx r, ty_optional_support = ts_optional_support r\<rparr>"
  let ?pad = "if even (length (ts_service r)) then [] else [0]"
  let ?name = "utf16z (ts_native_file_system r)"
  let ?area = "utf8 (ts_service r) @ 0 # ?pad @ ?name"
  have len: "length (utf8 (ts_service r)) = length (ts_service r)" using assms(5) by (simp add: utf8_ascii_ok)
  have enc: "tree_connect_response_encode_body r = Inr (body (wr_tree_response_words ?ws) ?area)"
    by (simp add: tree_connect_response_encode_body_def Let_def HEADER_LEN_def align_to_2 len)
  have small: "length ?area < 65536" using assms(6) len by simp
  have rest: "(if (HEADER_LEN + 1 + 6 + 2 + length (ts_service r) + 1) mod 2 \<noteq> 0 \<and> ?pad @ ?name \<noteq> []
      then drop 1 (?pad @ ?name) else ?pad @ ?name) = ?name"
    by (simp add: HEADER_LEN_def mod2_eq_if)
  have name: "from_utf16 ''NativeFileSystem'' 0 (units_le (encode_utf16 (ts_native_file_system r)))
      = Inr (ts_native_file_system r)"
    using assms(4) by (simp add: from_utf16_utf16 name_ok_def)
  have fin: "find_utf16_terminator ?name = Inr (2 * length (encode_utf16 (ts_native_file_system r)))"
    using find_utf16_terminator_name [OF assms(4), of "[]"] by simp
  have off: "byte_area_offset (built h (wr_tree_response_words ?ws) ?area) = HEADER_LEN + 1 + 6 + 2"
    by (simp add: tree_response.wf_words_plain tree_response.length_wr)
  have d: "drop (length (ts_service r) + 1) ?area = ?pad @ ?name" using len by simp
  have cmd: "expect_words (built h (wr_tree_response_words ?ws) ?area) CMD_TREE_CONNECT_ANDX [3, 7] d = Inr ()" for d
    using assms(2) by (simp add: expect_words_def tree_response.length_wr)
  have "tree_connect_response_decode (built h (wr_tree_response_words ?ws) ?area) = Inr r"
    unfolding tree_connect_response_decode_def cmd rbind_simps
      words_built [OF assms(1) tree_response.wf_words_plain] tree_response.read_words_plain
      byte_area_built [OF assms(1) tree_response.wf_words_plain small]
      nul_byte_ascii [OF assms(5)] ascii_z_ascii [OF assms(5)] ok_or_simps off d Let_def rest fin
    using assms(3) name by (simp add: refuse_chaining_def utf16z_def)
  then show ?thesis unfolding enc by (simp only: delivered_body [OF assms(1) tree_response.wf_words_plain])
qed

end
