(* ===== verification/Info.thy ===== *)
theory Info
  imports Message
begin

text \<open>
  The \<open>TRANS2\<close> information blocks (\<open>wire/info.rs\<close>): the parameter blocks of the
  queries and sets, and the levels a stat, a set and a volume query carry.  A zero field of a basic
  block means ``do not change''.  Times are kept as their 64 bits.
\<close>

definition SUBCOMMAND_QUERY_FS_INFORMATION :: u16 where "SUBCOMMAND_QUERY_FS_INFORMATION = 0x0003"
definition SUBCOMMAND_QUERY_PATH_INFORMATION :: u16 where "SUBCOMMAND_QUERY_PATH_INFORMATION = 0x0005"
definition SUBCOMMAND_SET_PATH_INFORMATION :: u16 where "SUBCOMMAND_SET_PATH_INFORMATION = 0x0006"
definition SUBCOMMAND_SET_FILE_INFORMATION :: u16 where "SUBCOMMAND_SET_FILE_INFORMATION = 0x0008"
definition QUERY_BASIC_INFO :: u16 where "QUERY_BASIC_INFO = 0x0101"
definition QUERY_STANDARD_INFO :: u16 where "QUERY_STANDARD_INFO = 0x0102"
definition SET_BASIC_INFO :: u16 where "SET_BASIC_INFO = 0x0101"
definition SET_END_OF_FILE_INFORMATION :: u16 where "SET_END_OF_FILE_INFORMATION = 0x0104"
definition FS_SIZE_INFO :: u16 where "FS_SIZE_INFO = 0x0103"
definition FS_ALLOCATION :: u16 where "FS_ALLOCATION = 0x0001"
definition ATTRIBUTE_DIRECTORY :: u32 where "ATTRIBUTE_DIRECTORY = 0x00000010"
definition ATTRIBUTE_NORMAL :: u32 where "ATTRIBUTE_NORMAL = 0x00000080"

section \<open>Parameter blocks\<close>

definition query_path_parameters :: "u16 \<Rightarrow> rstr \<Rightarrow> bytes" where
  "query_path_parameters level path = le16 level @ le32 0 @ utf16z path"

definition set_path_parameters :: "u16 \<Rightarrow> rstr \<Rightarrow> bytes" where
  "set_path_parameters level path = query_path_parameters level path"

definition set_file_parameters :: "u16 \<Rightarrow> u16 \<Rightarrow> bytes" where
  "set_file_parameters fid level = le16 fid @ le16 level @ le16 0"

definition query_fs_parameters :: "u16 \<Rightarrow> bytes" where
  "query_fs_parameters level = le16 level"

section \<open>Layouts\<close>

record basic_info_words =
  bw_creation_time :: u64
  bw_last_access_time :: u64
  bw_last_write_time :: u64
  bw_change_time :: u64
  bw_attributes :: u32
  bw_reserved :: u32

definition wr_basic_info_words :: "basic_info_words \<Rightarrow> bytes" where
  "wr_basic_info_words w =
     le64 (bw_creation_time w) @ le64 (bw_last_access_time w) @ le64 (bw_last_write_time w)
     @ le64 (bw_change_time w) @ le32 (bw_attributes w) @ le32 (bw_reserved w)"

definition rd_basic_info_words :: "bytes \<Rightarrow> (basic_info_words \<times> bytes) option" where
  "rd_basic_info_words bs = do {
     (created, bs) \<leftarrow> rd64 bs;
     (accessed, bs) \<leftarrow> rd64 bs;
     (written, bs) \<leftarrow> rd64 bs;
     (changed, bs) \<leftarrow> rd64 bs;
     (attributes, bs) \<leftarrow> rd32 bs;
     (reserved, bs) \<leftarrow> rd32 bs;
     Some (\<lparr>bw_creation_time = created, bw_last_access_time = accessed, bw_last_write_time = written,
            bw_change_time = changed, bw_attributes = attributes, bw_reserved = reserved\<rparr>, bs)
   }"

interpretation basic_info_words: word_layout wr_basic_info_words rd_basic_info_words 20
  by unfold_locales (simp_all add: wr_basic_info_words_def rd_basic_info_words_def codec_simps)

record standard_info_words =
  iw_allocation_size :: u64
  iw_end_of_file :: u64
  iw_number_of_links :: u32
  iw_delete_pending :: u8
  iw_directory :: u8

definition wr_standard_info_words :: "standard_info_words \<Rightarrow> bytes" where
  "wr_standard_info_words w =
     le64 (iw_allocation_size w) @ le64 (iw_end_of_file w) @ le32 (iw_number_of_links w)
     @ le8 (iw_delete_pending w) @ le8 (iw_directory w)"

definition rd_standard_info_words :: "bytes \<Rightarrow> (standard_info_words \<times> bytes) option" where
  "rd_standard_info_words bs = do {
     (allocation, bs) \<leftarrow> rd64 bs;
     (end_of_file, bs) \<leftarrow> rd64 bs;
     (links, bs) \<leftarrow> rd32 bs;
     (pending, bs) \<leftarrow> rd8 bs;
     (directory, bs) \<leftarrow> rd8 bs;
     Some (\<lparr>iw_allocation_size = allocation, iw_end_of_file = end_of_file, iw_number_of_links = links,
            iw_delete_pending = pending, iw_directory = directory\<rparr>, bs)
   }"

interpretation standard_info_words: word_layout wr_standard_info_words rd_standard_info_words 11
  by unfold_locales (simp_all add: wr_standard_info_words_def rd_standard_info_words_def codec_simps)

record size_info_words =
  zw_total_allocation_units :: u64
  zw_total_free_allocation_units :: u64
  zw_sectors_per_allocation_unit :: u32
  zw_bytes_per_sector :: u32

definition wr_size_info_words :: "size_info_words \<Rightarrow> bytes" where
  "wr_size_info_words w =
     le64 (zw_total_allocation_units w) @ le64 (zw_total_free_allocation_units w)
     @ le32 (zw_sectors_per_allocation_unit w) @ le32 (zw_bytes_per_sector w)"

definition rd_size_info_words :: "bytes \<Rightarrow> (size_info_words \<times> bytes) option" where
  "rd_size_info_words bs = do {
     (units, bs) \<leftarrow> rd64 bs;
     (free, bs) \<leftarrow> rd64 bs;
     (sectors, bs) \<leftarrow> rd32 bs;
     (sector, bs) \<leftarrow> rd32 bs;
     Some (\<lparr>zw_total_allocation_units = units, zw_total_free_allocation_units = free,
            zw_sectors_per_allocation_unit = sectors, zw_bytes_per_sector = sector\<rparr>, bs)
   }"

interpretation size_info_words: word_layout wr_size_info_words rd_size_info_words 12
  by unfold_locales (simp_all add: wr_size_info_words_def rd_size_info_words_def codec_simps)

record allocation_words =
  aw_file_system_id :: u32
  aw_sectors_per_allocation_unit :: u32
  aw_total_allocation_units :: u32
  aw_free_allocation_units :: u32
  aw_bytes_per_sector :: u16

definition wr_allocation_words :: "allocation_words \<Rightarrow> bytes" where
  "wr_allocation_words w =
     le32 (aw_file_system_id w) @ le32 (aw_sectors_per_allocation_unit w) @ le32 (aw_total_allocation_units w)
     @ le32 (aw_free_allocation_units w) @ le16 (aw_bytes_per_sector w)"

definition rd_allocation_words :: "bytes \<Rightarrow> (allocation_words \<times> bytes) option" where
  "rd_allocation_words bs = do {
     (fs_id, bs) \<leftarrow> rd32 bs;
     (sectors, bs) \<leftarrow> rd32 bs;
     (units, bs) \<leftarrow> rd32 bs;
     (free, bs) \<leftarrow> rd32 bs;
     (sector, bs) \<leftarrow> rd16 bs;
     Some (\<lparr>aw_file_system_id = fs_id, aw_sectors_per_allocation_unit = sectors,
            aw_total_allocation_units = units, aw_free_allocation_units = free,
            aw_bytes_per_sector = sector\<rparr>, bs)
   }"

interpretation allocation_words: word_layout wr_allocation_words rd_allocation_words 9
  by unfold_locales (simp_all add: wr_allocation_words_def rd_allocation_words_def codec_simps)

section \<open>Times and attributes\<close>

record basic_info =
  bi_creation_time :: "u64 option"
  bi_last_access_time :: "u64 option"
  bi_last_write_time :: "u64 option"
  bi_change_time :: "u64 option"
  bi_attributes :: "u32 option"

definition basic_info_default :: basic_info where
  "basic_info_default = \<lparr>bi_creation_time = None, bi_last_access_time = None, bi_last_write_time = None,
     bi_change_time = None, bi_attributes = None\<rparr>"

definition unwrap_or :: "'a option \<Rightarrow> 'a \<Rightarrow> 'a" where
  "unwrap_or m d = (case m of None \<Rightarrow> d | Some x \<Rightarrow> x)"

lemma unwrap_or_simps [simp]: "unwrap_or None d = d" "unwrap_or (Some x) d = x"
  by (simp_all add: unwrap_or_def)

definition basic_info_encode :: "basic_info \<Rightarrow> wire_error + bytes" where
  "basic_info_encode b =
     Inr (wr_basic_info_words
       \<lparr>bw_creation_time = unwrap_or (bi_creation_time b) 0,
        bw_last_access_time = unwrap_or (bi_last_access_time b) 0,
        bw_last_write_time = unwrap_or (bi_last_write_time b) 0,
        bw_change_time = unwrap_or (bi_change_time b) 0,
        bw_attributes = unwrap_or (bi_attributes b) 0, bw_reserved = 0\<rparr>)"

text \<open>The first 36 bytes, padded with the reserved word a reply need not carry.\<close>

definition basic_info_decode :: "bytes \<Rightarrow> wire_error + basic_info" where
  "basic_info_decode data =
     rbind (ok_or (Truncated ''SMB_QUERY_FILE_BASIC_INFO'' 36 (length data)) (slice_at data 0 36)) (\<lambda>block.
     rbind (read_words rd_basic_info_words (block @ replicate 4 0)) (\<lambda>w.
     Inr \<lparr>bi_creation_time = Some (bw_creation_time w), bi_last_access_time = Some (bw_last_access_time w),
          bi_last_write_time = Some (bw_last_write_time w), bi_change_time = Some (bw_change_time w),
          bi_attributes = Some (bw_attributes w)\<rparr>))"

record standard_info =
  si_allocation_size :: u64
  si_end_of_file :: u64
  si_number_of_links :: u32
  si_delete_pending :: bool
  si_directory :: bool

definition standard_info_decode :: "bytes \<Rightarrow> wire_error + standard_info" where
  "standard_info_decode data =
     rbind (ok_or (Truncated ''SMB_QUERY_FILE_STANDARD_INFO'' 22 (length data)) (slice_at data 0 22)) (\<lambda>block.
     rbind (read_words rd_standard_info_words block) (\<lambda>w.
     Inr \<lparr>si_allocation_size = iw_allocation_size w, si_end_of_file = iw_end_of_file w,
          si_number_of_links = iw_number_of_links w, si_delete_pending = (iw_delete_pending w \<noteq> 0),
          si_directory = (iw_directory w \<noteq> 0)\<rparr>))"

section \<open>Volumes\<close>

record fs_size =
  fz_total_units :: u64
  fz_free_units :: u64
  fz_sectors_per_unit :: u32
  fz_bytes_per_sector :: u32

definition decode_size_info :: "bytes \<Rightarrow> wire_error + fs_size" where
  "decode_size_info data =
     rbind (ok_or (Truncated ''SMB_QUERY_FS_SIZE_INFO'' 24 (length data)) (slice_at data 0 24)) (\<lambda>block.
     rbind (read_words rd_size_info_words block) (\<lambda>w.
     Inr \<lparr>fz_total_units = zw_total_allocation_units w, fz_free_units = zw_total_free_allocation_units w,
          fz_sectors_per_unit = zw_sectors_per_allocation_unit w, fz_bytes_per_sector = zw_bytes_per_sector w\<rparr>))"

definition decode_allocation :: "bytes \<Rightarrow> wire_error + fs_size" where
  "decode_allocation data =
     rbind (ok_or (Truncated ''SMB_INFO_ALLOCATION'' 18 (length data)) (slice_at data 0 18)) (\<lambda>block.
     rbind (read_words rd_allocation_words block) (\<lambda>w.
     Inr \<lparr>fz_total_units = ucast (aw_total_allocation_units w), fz_free_units = ucast (aw_free_allocation_units w),
          fz_sectors_per_unit = aw_sectors_per_allocation_unit w,
          fz_bytes_per_sector = ucast (aw_bytes_per_sector w)\<rparr>))"

definition saturating_mul :: "u64 \<Rightarrow> u64 \<Rightarrow> u64" where
  "saturating_mul a b = (if unat a * unat b < 2 ^ 64 then a * b else - 1)"

definition fs_bytes :: "fs_size \<Rightarrow> u64 \<Rightarrow> u64" where
  "fs_bytes s units =
     saturating_mul (saturating_mul units (ucast (fz_sectors_per_unit s))) (ucast (fz_bytes_per_sector s))"

section \<open>What the blocks carry\<close>

lemma unat_saturating_mul: "unat (saturating_mul a b) = min (unat a * unat b) (2 ^ 64 - 1)"
proof (cases "unat a * unat b < 2 ^ 64")
  case True
  then show ?thesis by (simp add: saturating_mul_def unat_word_ariths)
next
  case False
  then show ?thesis by (simp add: saturating_mul_def unsigned_minus_1_eq_mask mask_eq_exp_minus_1)
qed

text \<open>
  A volume's size is the true product of its three counts, clamped to 64 bits only where it does
  not fit; it never wraps.
\<close>

theorem fs_bytes_exact:
  "unat (fs_bytes s units) =
     min (unat units * unat (fz_sectors_per_unit s) * unat (fz_bytes_per_sector s)) (2 ^ 64 - 1)"
proof -
  have up: "unat (ucast (w :: u32) :: u64) = unat w" for w
    using unat_u32 [of w] by (simp add: unsigned_ucast_eq take_bit_nat_eq_self)
  have clamp: "min (min a m * b) m = min (a * b) m" for a b m :: nat
  proof (cases "a \<le> m \<or> b = 0")
    case False
    then have "m \<le> m * b" "m * b \<le> a * b" "min a m = m" by auto
    then show ?thesis by (simp only: min_absorb2 order_trans [of m "m * b" "a * b"])
  qed auto
  show ?thesis by (simp only: fs_bytes_def unat_saturating_mul up clamp)
qed

text \<open>
  A set block leaves alone exactly what the caller did not name, and what a level carries is read back
  whether or not the reserved word comes with it.
\<close>

lemma basic_info_roundtrip:
  "rbind (basic_info_encode b) basic_info_decode =
     Inr \<lparr>bi_creation_time = Some (unwrap_or (bi_creation_time b) 0),
          bi_last_access_time = Some (unwrap_or (bi_last_access_time b) 0),
          bi_last_write_time = Some (unwrap_or (bi_last_write_time b) 0),
          bi_change_time = Some (unwrap_or (bi_change_time b) 0),
          bi_attributes = Some (unwrap_or (bi_attributes b) 0)\<rparr>"
proof -
  let ?w = "\<lparr>bw_creation_time = unwrap_or (bi_creation_time b) 0,
        bw_last_access_time = unwrap_or (bi_last_access_time b) 0,
        bw_last_write_time = unwrap_or (bi_last_write_time b) 0,
        bw_change_time = unwrap_or (bi_change_time b) 0,
        bw_attributes = unwrap_or (bi_attributes b) 0, bw_reserved = 0\<rparr>"
  have "take 36 (wr_basic_info_words ?w) @ replicate 4 0 = wr_basic_info_words ?w"
    by (simp add: wr_basic_info_words_def le32_def le16_def numeral_eq_Suc)
  then show ?thesis
    by (simp add: basic_info_encode_def basic_info_decode_def slice_at_def basic_info_words.length_wr
        basic_info_words.read_words_plain)
qed

lemma standard_info_read:
  "standard_info_decode (wr_standard_info_words w @ rest) =
     Inr \<lparr>si_allocation_size = iw_allocation_size w, si_end_of_file = iw_end_of_file w,
          si_number_of_links = iw_number_of_links w, si_delete_pending = (iw_delete_pending w \<noteq> 0),
          si_directory = (iw_directory w \<noteq> 0)\<rparr>"
  by (simp add: standard_info_decode_def slice_at_def standard_info_words.length_wr
      standard_info_words.read_words_plain)

lemma size_info_read:
  "decode_size_info (wr_size_info_words w @ rest) =
     Inr \<lparr>fz_total_units = zw_total_allocation_units w, fz_free_units = zw_total_free_allocation_units w,
          fz_sectors_per_unit = zw_sectors_per_allocation_unit w, fz_bytes_per_sector = zw_bytes_per_sector w\<rparr>"
  by (simp add: decode_size_info_def slice_at_def size_info_words.length_wr size_info_words.read_words_plain)

lemma allocation_read:
  "decode_allocation (wr_allocation_words w @ rest) =
     Inr \<lparr>fz_total_units = ucast (aw_total_allocation_units w), fz_free_units = ucast (aw_free_allocation_units w),
          fz_sectors_per_unit = aw_sectors_per_allocation_unit w,
          fz_bytes_per_sector = ucast (aw_bytes_per_sector w)\<rparr>"
  by (simp add: decode_allocation_def slice_at_def allocation_words.length_wr allocation_words.read_words_plain)

end
