(* ===== verification/Find.thy ===== *)
theory Find
  imports Message
begin

text \<open>
  Directory searches (\<open>wire/find.rs\<close>): the parameter blocks of \<open>FIND_FIRST2\<close> and
  \<open>FIND_NEXT2\<close>, what a reply says of its page, the walk over the entry chain, and
  \<open>FIND_CLOSE2\<close>.  Times are kept as their 64 bits.
\<close>

definition SUBCOMMAND_FIND_FIRST2 :: u16 where "SUBCOMMAND_FIND_FIRST2 = 0x0001"
definition SUBCOMMAND_FIND_NEXT2 :: u16 where "SUBCOMMAND_FIND_NEXT2 = 0x0002"
definition INFO_LEVEL_BOTH_DIRECTORY_INFO :: u16 where "INFO_LEVEL_BOTH_DIRECTORY_INFO = 0x0104"
definition SEARCH_ATTRIBUTES :: u16 where "SEARCH_ATTRIBUTES = 0x0016"
definition FLAG_CLOSE_AFTER_REQUEST :: u16 where "FLAG_CLOSE_AFTER_REQUEST = 0x0001"
definition FLAG_CLOSE_AT_EOS :: u16 where "FLAG_CLOSE_AT_EOS = 0x0002"
definition FLAG_RETURN_RESUME_KEYS :: u16 where "FLAG_RETURN_RESUME_KEYS = 0x0004"
definition FLAG_CONTINUE_FROM_LAST :: u16 where "FLAG_CONTINUE_FROM_LAST = 0x0008"
definition MIN_ENTRY_LEN :: nat where "MIN_ENTRY_LEN = 94"

section \<open>Requests\<close>

record find_first2_words =
  ff_search_attributes :: u16
  ff_search_count :: u16
  ff_flags :: u16
  ff_information_level :: u16
  ff_search_storage_type :: u32

definition wr_find_first2_words :: "find_first2_words \<Rightarrow> bytes" where
  "wr_find_first2_words w =
     le16 (ff_search_attributes w) @ le16 (ff_search_count w) @ le16 (ff_flags w)
     @ le16 (ff_information_level w) @ le32 (ff_search_storage_type w)"

definition rd_find_first2_words :: "bytes \<Rightarrow> (find_first2_words \<times> bytes) option" where
  "rd_find_first2_words bs = do {
     (attributes, bs) \<leftarrow> rd16 bs;
     (count, bs) \<leftarrow> rd16 bs;
     (flags, bs) \<leftarrow> rd16 bs;
     (level, bs) \<leftarrow> rd16 bs;
     (storage, bs) \<leftarrow> rd32 bs;
     Some (\<lparr>ff_search_attributes = attributes, ff_search_count = count, ff_flags = flags,
            ff_information_level = level, ff_search_storage_type = storage\<rparr>, bs)
   }"

interpretation find_first2: word_layout wr_find_first2_words rd_find_first2_words 6
  by unfold_locales (simp_all add: wr_find_first2_words_def rd_find_first2_words_def codec_simps)

record find_next2_words =
  fn_sid :: u16
  fn_search_count :: u16
  fn_information_level :: u16
  fn_resume_key :: u32
  fn_flags :: u16

definition wr_find_next2_words :: "find_next2_words \<Rightarrow> bytes" where
  "wr_find_next2_words w =
     le16 (fn_sid w) @ le16 (fn_search_count w) @ le16 (fn_information_level w)
     @ le32 (fn_resume_key w) @ le16 (fn_flags w)"

definition rd_find_next2_words :: "bytes \<Rightarrow> (find_next2_words \<times> bytes) option" where
  "rd_find_next2_words bs = do {
     (sid, bs) \<leftarrow> rd16 bs;
     (count, bs) \<leftarrow> rd16 bs;
     (level, bs) \<leftarrow> rd16 bs;
     (key, bs) \<leftarrow> rd32 bs;
     (flags, bs) \<leftarrow> rd16 bs;
     Some (\<lparr>fn_sid = sid, fn_search_count = count, fn_information_level = level,
            fn_resume_key = key, fn_flags = flags\<rparr>, bs)
   }"

interpretation find_next2: word_layout wr_find_next2_words rd_find_next2_words 6
  by unfold_locales (simp_all add: wr_find_next2_words_def rd_find_next2_words_def codec_simps)

record find_first2_params =
  fp_search_attributes :: u16
  fp_search_count :: u16
  fp_flags :: u16
  fp_information_level :: u16
  fp_pattern :: rstr

definition trim_terminator :: "bytes \<Rightarrow> bytes" where
  "trim_terminator bs =
     (if 2 \<le> length bs \<and> drop (length bs - 2) bs = [0, 0] then take (length bs - 2) bs else bs)"

definition find_first2_params_encode :: "find_first2_params \<Rightarrow> wire_error + bytes" where
  "find_first2_params_encode p =
     Inr (wr_find_first2_words
            \<lparr>ff_search_attributes = fp_search_attributes p, ff_search_count = fp_search_count p,
             ff_flags = fp_flags p, ff_information_level = fp_information_level p, ff_search_storage_type = 0\<rparr>
          @ utf16z (fp_pattern p))"

definition find_first2_params_decode :: "bytes \<Rightarrow> wire_error + find_first2_params" where
  "find_first2_params_decode ps =
     (if length ps < 12 then Inl (Truncated ''FIND_FIRST2 parameters'' 12 (length ps))
      else
        rbind (read_words rd_find_first2_words (take 12 ps)) (\<lambda>w.
        rbind (from_utf16 ''FileName'' 0 (trim_terminator (drop 12 ps))) (\<lambda>pattern.
        Inr \<lparr>fp_search_attributes = ff_search_attributes w, fp_search_count = ff_search_count w,
             fp_flags = ff_flags w, fp_information_level = ff_information_level w, fp_pattern = pattern\<rparr>)))"

record find_next2_params =
  fx_sid :: u16
  fx_search_count :: u16
  fx_information_level :: u16
  fx_resume_key :: u32
  fx_flags :: u16
  fx_pattern :: rstr

definition find_next2_params_encode :: "find_next2_params \<Rightarrow> wire_error + bytes" where
  "find_next2_params_encode p =
     Inr (wr_find_next2_words
            \<lparr>fn_sid = fx_sid p, fn_search_count = fx_search_count p,
             fn_information_level = fx_information_level p, fn_resume_key = fx_resume_key p,
             fn_flags = fx_flags p\<rparr>
          @ utf16z (fx_pattern p))"

definition find_next2_params_decode :: "bytes \<Rightarrow> wire_error + find_next2_params" where
  "find_next2_params_decode ps =
     (if length ps < 12 then Inl (Truncated ''FIND_NEXT2 parameters'' 12 (length ps))
      else
        rbind (read_words rd_find_next2_words (take 12 ps)) (\<lambda>w.
        rbind (from_utf16 ''FileName'' 0 (trim_terminator (drop 12 ps))) (\<lambda>pattern.
        Inr \<lparr>fx_sid = fn_sid w, fx_search_count = fn_search_count w,
             fx_information_level = fn_information_level w, fx_resume_key = fn_resume_key w,
             fx_flags = fn_flags w, fx_pattern = pattern\<rparr>)))"

section \<open>Replies\<close>

definition rd_find_first2_reply :: "bytes \<Rightarrow> ((u16 \<times> u16 \<times> u16 \<times> u16 \<times> u16) \<times> bytes) option" where
  "rd_find_first2_reply bs = do {
     (sid, bs) \<leftarrow> rd16 bs;
     (count, bs) \<leftarrow> rd16 bs;
     (eos, bs) \<leftarrow> rd16 bs;
     (ea, bs) \<leftarrow> rd16 bs;
     (last_name, bs) \<leftarrow> rd16 bs;
     Some ((sid, count, eos, ea, last_name), bs)
   }"

definition rd_find_next2_reply :: "bytes \<Rightarrow> ((u16 \<times> u16 \<times> u16 \<times> u16) \<times> bytes) option" where
  "rd_find_next2_reply bs = do {
     (count, bs) \<leftarrow> rd16 bs;
     (eos, bs) \<leftarrow> rd16 bs;
     (ea, bs) \<leftarrow> rd16 bs;
     (last_name, bs) \<leftarrow> rd16 bs;
     Some ((count, eos, ea, last_name), bs)
   }"

record find_reply =
  fr_sid :: "u16 option"
  fr_search_count :: u16
  fr_end_of_search :: u16
  fr_ea_error_offset :: u16
  fr_last_name_offset :: u16

definition find_reply_decode_first :: "bytes \<Rightarrow> wire_error + find_reply" where
  "find_reply_decode_first ps =
     rbind (read_words rd_find_first2_reply ps) (\<lambda>(sid, count, eos, ea, last_name).
     Inr \<lparr>fr_sid = Some sid, fr_search_count = count, fr_end_of_search = eos, fr_ea_error_offset = ea,
          fr_last_name_offset = last_name\<rparr>)"

definition find_reply_decode_next :: "bytes \<Rightarrow> wire_error + find_reply" where
  "find_reply_decode_next ps =
     rbind (read_words rd_find_next2_reply ps) (\<lambda>(count, eos, ea, last_name).
     Inr \<lparr>fr_sid = None, fr_search_count = count, fr_end_of_search = eos, fr_ea_error_offset = ea,
          fr_last_name_offset = last_name\<rparr>)"

section \<open>The entry chain\<close>

record entry_words =
  ew_next_entry_offset :: u32
  ew_file_index :: u32
  ew_creation_time :: u64
  ew_last_access_time :: u64
  ew_last_write_time :: u64
  ew_change_time :: u64
  ew_end_of_file :: u64
  ew_allocation_size :: u64
  ew_ext_file_attributes :: u32
  ew_file_name_length :: u32
  ew_ea_size :: u32
  ew_short_name_length :: u8
  ew_reserved :: u8
  ew_short_name :: bytes

definition wr_entry_words :: "entry_words \<Rightarrow> bytes" where
  "wr_entry_words w =
     le32 (ew_next_entry_offset w) @ le32 (ew_file_index w) @ le64 (ew_creation_time w)
     @ le64 (ew_last_access_time w) @ le64 (ew_last_write_time w) @ le64 (ew_change_time w)
     @ le64 (ew_end_of_file w) @ le64 (ew_allocation_size w) @ le32 (ew_ext_file_attributes w)
     @ le32 (ew_file_name_length w) @ le32 (ew_ea_size w) @ le8 (ew_short_name_length w)
     @ le8 (ew_reserved w) @ ew_short_name w"

definition rd_entry_words :: "bytes \<Rightarrow> (entry_words \<times> bytes) option" where
  "rd_entry_words bs = do {
     (after, bs) \<leftarrow> rd32 bs;
     (index, bs) \<leftarrow> rd32 bs;
     (created, bs) \<leftarrow> rd64 bs;
     (accessed, bs) \<leftarrow> rd64 bs;
     (written, bs) \<leftarrow> rd64 bs;
     (changed, bs) \<leftarrow> rd64 bs;
     (end_of_file, bs) \<leftarrow> rd64 bs;
     (allocation, bs) \<leftarrow> rd64 bs;
     (attributes, bs) \<leftarrow> rd32 bs;
     (name_length, bs) \<leftarrow> rd32 bs;
     (ea, bs) \<leftarrow> rd32 bs;
     (short_length, bs) \<leftarrow> rd8 bs;
     (reserved, bs) \<leftarrow> rd8 bs;
     (short_name, bs) \<leftarrow> rd_bytes 24 bs;
     Some (\<lparr>ew_next_entry_offset = after, ew_file_index = index, ew_creation_time = created,
            ew_last_access_time = accessed, ew_last_write_time = written, ew_change_time = changed,
            ew_end_of_file = end_of_file, ew_allocation_size = allocation,
            ew_ext_file_attributes = attributes, ew_file_name_length = name_length, ew_ea_size = ea,
            ew_short_name_length = short_length, ew_reserved = reserved, ew_short_name = short_name\<rparr>, bs)
   }"

record directory_entry =
  de_file_index :: u32
  de_creation_time :: u64
  de_last_access_time :: u64
  de_last_write_time :: u64
  de_change_time :: u64
  de_end_of_file :: u64
  de_allocation_size :: u64
  de_ext_file_attributes :: u32
  de_ea_size :: u32
  de_short_name :: rstr
  de_file_name :: rstr

text \<open>One turn of the walk: the entry at \<open>offset\<close>, the \<open>position\<close>th, and its next offset.\<close>

definition read_entry :: "bytes \<Rightarrow> nat \<Rightarrow> nat \<Rightarrow> wire_error + directory_entry \<times> nat" where
  "read_entry data offset position =
     (let entry = drop offset data in
      if length entry < MIN_ENTRY_LEN then Inl (Truncated ''directory entry'' MIN_ENTRY_LEN (length entry))
      else
        rbind (read_words rd_entry_words (take MIN_ENTRY_LEN entry)) (\<lambda>w.
        let name_length = unat (ew_file_name_length w); name_end = MIN_ENTRY_LEN + name_length in
        rbind (ok_or (Truncated ''directory entry FileName'' name_end (length entry))
                 (slice_at entry MIN_ENTRY_LEN name_length)) (\<lambda>raw_name.
        let short_length = min (unat (ew_short_name_length w)) (length (ew_short_name w)) in
        rbind (from_utf16 ''ShortName'' position (take short_length (ew_short_name w))) (\<lambda>short_name.
        rbind (from_utf16 ''FileName'' position raw_name) (\<lambda>file_name.
        Inr (\<lparr>de_file_index = ew_file_index w, de_creation_time = ew_creation_time w,
              de_last_access_time = ew_last_access_time w, de_last_write_time = ew_last_write_time w,
              de_change_time = ew_change_time w, de_end_of_file = ew_end_of_file w,
              de_allocation_size = ew_allocation_size w, de_ext_file_attributes = ew_ext_file_attributes w,
              de_ea_size = ew_ea_size w, de_short_name = short_name, de_file_name = file_name\<rparr>,
             unat (ew_next_entry_offset w)))))))"

function walk_from :: "bytes \<Rightarrow> nat \<Rightarrow> directory_entry list \<Rightarrow> wire_error + directory_entry list" where
  "walk_from data offset entries =
     (if offset < length data then
        (case read_entry data offset (length entries) of
           Inl e \<Rightarrow> Inl e
         | Inr (entry, after) \<Rightarrow>
             if after = 0 then Inr (entries @ [entry])
             else if after < MIN_ENTRY_LEN then Inl (EntryOffsetTooSmall offset after MIN_ENTRY_LEN)
             else walk_from data (offset + after) (entries @ [entry]))
      else Inr entries)"
  by pat_completeness auto
termination
  by (relation "measure (\<lambda>(data, offset, _). length data - offset)") (auto simp: MIN_ENTRY_LEN_def)

declare walk_from.simps [simp del]

definition walk_entries :: "bytes \<Rightarrow> u16 \<Rightarrow> wire_error + directory_entry list" where
  "walk_entries data search_count =
     rbind (walk_from data 0 []) (\<lambda>entries.
     if length entries \<noteq> unat search_count then Inl (EntryCountMismatch (length entries) search_count)
     else Inr entries)"

section \<open>FIND_CLOSE2\<close>

definition find_close2_encode_body :: "u16 \<Rightarrow> wire_error + bytes" where
  "find_close2_encode_body sid = Inr (body (le16 sid) [])"

definition find_close2_decode :: "message \<Rightarrow> wire_error + u16" where
  "find_close2_decode m =
     rbind (expect_words m CMD_FIND_CLOSE2 [1] ''1'') (\<lambda>_.
     Inr (u16_le (words m ! 0) (words m ! 1)))"

definition find_close2_response_decode :: "message \<Rightarrow> wire_error + unit" where
  "find_close2_response_decode m = rbind (expect_words m CMD_FIND_CLOSE2 [0] ''0'') (\<lambda>_. Inr ())"

definition find_close2_response_encode_body :: "wire_error + bytes" where
  "find_close2_response_encode_body = Inr (body [] [])"

section \<open>Round trips of the small blocks\<close>

lemma trim_terminator_utf16z [simp]: "trim_terminator (utf16z text) = units_le (encode_utf16 text)"
  by (simp add: trim_terminator_def utf16z_def)

lemma find_first2_roundtrip:
  "valid_str (fp_pattern p) \<Longrightarrow> rbind (find_first2_params_encode p) find_first2_params_decode = Inr p"
  by (simp add: find_first2_params_encode_def find_first2_params_decode_def find_first2.length_wr
      find_first2.read_words_plain from_utf16_utf16)

lemma find_next2_roundtrip:
  "valid_str (fx_pattern p) \<Longrightarrow> rbind (find_next2_params_encode p) find_next2_params_decode = Inr p"
  by (simp add: find_next2_params_encode_def find_next2_params_decode_def find_next2.length_wr
      find_next2.read_words_plain from_utf16_utf16)

lemma find_close2_roundtrip:
  assumes "wf_header h" "h_command h = CMD_FIND_CLOSE2"
  shows "delivered h (find_close2_encode_body sid) find_close2_decode = Inr sid"
  using assms
  by (simp add: find_close2_encode_body_def delivered_body wf_words_def find_close2_decode_def
      expect_words_def le16_def u16_le_le16)

section \<open>Walking a chain\<close>

text \<open>
  What a server lays out: each entry followed by padding of its own choice, its offset covering both.
  The chain ends as Windows ends it (a zero offset, and whatever trails) or as Samba does (the last
  offset pointing just past the data).
\<close>

record laid_entry =
  la_entry :: directory_entry
  la_short :: bytes
    \<comment> \<open>the 24 bytes of the short name field\<close>
  la_short_length :: u8
  la_pad :: bytes

definition laid_size :: "laid_entry \<Rightarrow> nat" where
  "laid_size l = MIN_ENTRY_LEN + 2 * length (encode_utf16 (de_file_name (la_entry l))) + length (la_pad l)"

definition lay :: "nat \<Rightarrow> laid_entry \<Rightarrow> bytes" where
  "lay after l =
     (let e = la_entry l in
      wr_entry_words
        \<lparr>ew_next_entry_offset = of_nat after, ew_file_index = de_file_index e,
         ew_creation_time = de_creation_time e, ew_last_access_time = de_last_access_time e,
         ew_last_write_time = de_last_write_time e, ew_change_time = de_change_time e,
         ew_end_of_file = de_end_of_file e, ew_allocation_size = de_allocation_size e,
         ew_ext_file_attributes = de_ext_file_attributes e,
         ew_file_name_length = of_nat (2 * length (encode_utf16 (de_file_name e))), ew_ea_size = de_ea_size e,
         ew_short_name_length = la_short_length l, ew_reserved = 0, ew_short_name = la_short l\<rparr>
      @ units_le (encode_utf16 (de_file_name e)) @ la_pad l)"

fun chain :: "bool \<Rightarrow> laid_entry list \<Rightarrow> bytes" where
  "chain zero [] = []"
| "chain zero [l] = lay (if zero then 0 else laid_size l) l"
| "chain zero (l # ls) = lay (laid_size l) l @ chain zero ls"

definition laid_ok :: "laid_entry \<Rightarrow> bool" where
  "laid_ok l \<longleftrightarrow>
     valid_str (de_file_name (la_entry l)) \<and> laid_size l < 2 ^ 32 \<and> length (la_short l) = 24 \<and>
     from_utf16 ''ShortName'' 0 (take (min (unat (la_short_length l)) 24) (la_short l)) = Inr (de_short_name (la_entry l))"

lemma rd_wr_entry_words:
  "length (ew_short_name w) = 24 \<Longrightarrow> rd_entry_words (wr_entry_words w @ rest) = Some (w, rest)"
  by (simp add: wr_entry_words_def rd_entry_words_def codec_simps)

lemma length_wr_entry_words: "length (ew_short_name w) = 24 \<Longrightarrow> length (wr_entry_words w) = MIN_ENTRY_LEN"
  by (simp add: wr_entry_words_def MIN_ENTRY_LEN_def codec_simps)

lemma from_utf16_position: "from_utf16 field p bs = Inr t \<Longrightarrow> from_utf16 field q bs = Inr t"
  by (auto simp: from_utf16_def ok_or_Inr_iff split: if_splits)

lemma length_lay: "laid_ok l \<Longrightarrow> length (lay after l) = laid_size l"
  by (simp add: lay_def Let_def length_wr_entry_words laid_size_def laid_ok_def)

lemma laid_size_pos: "MIN_ENTRY_LEN \<le> laid_size l"
  by (simp add: laid_size_def)

lemma read_entry_lay:
  assumes "laid_ok l" "after < 2 ^ 32"
  shows "read_entry (pre @ lay after l @ post) (length pre) position = Inr (la_entry l, after)"
proof -
  let ?units = "units_le (encode_utf16 (de_file_name (la_entry l)))"
  define w where "w = \<lparr>ew_next_entry_offset = of_nat after, ew_file_index = de_file_index (la_entry l),
         ew_creation_time = de_creation_time (la_entry l), ew_last_access_time = de_last_access_time (la_entry l),
         ew_last_write_time = de_last_write_time (la_entry l), ew_change_time = de_change_time (la_entry l),
         ew_end_of_file = de_end_of_file (la_entry l), ew_allocation_size = de_allocation_size (la_entry l),
         ew_ext_file_attributes = de_ext_file_attributes (la_entry l),
         ew_file_name_length = of_nat (2 * length (encode_utf16 (de_file_name (la_entry l)))),
         ew_ea_size = de_ea_size (la_entry l), ew_short_name_length = la_short_length l, ew_reserved = 0,
         ew_short_name = la_short l\<rparr>"
  have lay: "lay after l = wr_entry_words w @ ?units @ la_pad l"
    by (simp only: lay_def w_def Let_def)
  have w: "ew_short_name w = la_short l" "ew_short_name_length w = la_short_length l"
      "ew_file_name_length w = of_nat (length ?units)" "ew_next_entry_offset w = of_nat after"
    by (simp_all add: w_def)
  have entry: "la_entry l = \<lparr>de_file_index = ew_file_index w, de_creation_time = ew_creation_time w,
              de_last_access_time = ew_last_access_time w, de_last_write_time = ew_last_write_time w,
              de_change_time = ew_change_time w, de_end_of_file = ew_end_of_file w,
              de_allocation_size = ew_allocation_size w, de_ext_file_attributes = ew_ext_file_attributes w,
              de_ea_size = ew_ea_size w, de_short_name = de_short_name (la_entry l),
              de_file_name = de_file_name (la_entry l)\<rparr>"
    by (simp add: w_def)
  have short: "length (ew_short_name w) = 24" using assms(1) by (simp add: w laid_ok_def)
  have nm: "unat (ew_file_name_length w) = length ?units"
  proof -
    have "length ?units < 2 ^ LENGTH(32)" using assms(1) by (simp add: laid_ok_def laid_size_def)
    then show ?thesis unfolding w(3) unat_of_nat by (rule mod_less)
  qed
  have nx: "unat (ew_next_entry_offset w) = after" using assms(2) by (simp add: w unat_of_nat)
  have raw: "slice_at (wr_entry_words w @ ?units @ la_pad l @ post) MIN_ENTRY_LEN (length ?units) = Some ?units"
    by (rule slice_at_append) (simp_all add: length_wr_entry_words short)
  have sn: "from_utf16 ''ShortName'' position (take (min (unat (ew_short_name_length w)) 24) (ew_short_name w))
      = Inr (de_short_name (la_entry l))"
    using assms(1) from_utf16_position unfolding laid_ok_def w by blast
  have fn: "from_utf16 ''FileName'' position ?units = Inr (de_file_name (la_entry l))"
    using assms(1) by (simp add: from_utf16_utf16 laid_ok_def)
  have rd: "read_words rd_entry_words (take MIN_ENTRY_LEN (wr_entry_words w @ ?units @ la_pad l @ post)) = Inr w"
    using rd_wr_entry_words [OF short, of "[]"] by (simp add: length_wr_entry_words [OF short] read_words_def)
  have d: "drop (length pre) (pre @ lay after l @ post) = wr_entry_words w @ ?units @ la_pad l @ post"
    by (simp add: lay)
  have "\<not> length (wr_entry_words w @ ?units @ la_pad l @ post) < MIN_ENTRY_LEN"
    by (simp add: length_wr_entry_words [OF short])
  then show ?thesis
    unfolding read_entry_def d Let_def
    by (simp only: if_False rd rbind_simps nm raw ok_or_simps short sn fn nx) (simp add: entry [symmetric])
qed

lemma walk_chain:
  "list_all laid_ok ls \<Longrightarrow>
   walk_from (pre @ chain zero ls) (length pre) acc = Inr (acc @ map la_entry ls)"
proof (induction zero ls arbitrary: pre acc rule: chain.induct)
  case (1 zero)
  then show ?case by (subst walk_from.simps) simp
next
  case (2 zero l)
  let ?after = "if zero then 0 else laid_size l"
  have ok: "laid_ok l" and after: "?after < 2 ^ 32" using "2.prems" by (auto simp: laid_ok_def)
  have "walk_from (pre @ lay ?after l) (length pre + laid_size l) (acc @ [la_entry l]) = Inr (acc @ [la_entry l])"
    by (subst walk_from.simps) (simp add: length_lay [OF ok])
  moreover have "0 < laid_size l" "\<not> laid_size l < MIN_ENTRY_LEN"
    using laid_size_pos [of l] by (simp_all add: MIN_ENTRY_LEN_def)
  ultimately show ?case
    using read_entry_lay [OF ok after, of pre "[]"]
    by (subst walk_from.simps, cases zero) (simp_all add: length_lay [OF ok])
next
  case (3 zero l l' ls)
  let ?rest = "chain zero (l' # ls)"
  have ok: "laid_ok l" and after: "laid_size l < 2 ^ 32" using "3.prems" by (auto simp: laid_ok_def)
  have "walk_from ((pre @ lay (laid_size l) l) @ ?rest) (length (pre @ lay (laid_size l) l)) (acc @ [la_entry l])
      = Inr ((acc @ [la_entry l]) @ map la_entry (l' # ls))"
    by (rule "3.IH") (use "3.prems" in simp)
  moreover have "0 < laid_size l" "\<not> laid_size l < MIN_ENTRY_LEN"
    using laid_size_pos [of l] by (simp_all add: MIN_ENTRY_LEN_def)
  ultimately show ?case
    using read_entry_lay [OF ok after, of pre ?rest]
    by (subst walk_from.simps) (simp add: length_lay [OF ok])
qed

text \<open>
  C26. A page is read exactly: whatever padding follows each entry, and whichever of the two ways the
  chain ends, the walk returns every entry in order; and a page whose chain and count disagree is
  refused rather than returned short.
\<close>

theorem walk_exact:
  assumes "list_all laid_ok ls"
  shows "walk_entries (chain zero ls) n =
    (if length ls = unat n then Inr (map la_entry ls) else Inl (EntryCountMismatch (length ls) n))"
  using walk_chain [OF assms, of "[]" zero "[]"] by (simp add: walk_entries_def)

definition demo_laid :: "string \<Rightarrow> nat \<Rightarrow> laid_entry" where
  "demo_laid name pad =
     \<lparr>la_entry = \<lparr>de_file_index = 0, de_creation_time = 1, de_last_access_time = 2, de_last_write_time = 3,
                  de_change_time = 4, de_end_of_file = 11, de_allocation_size = 4096,
                  de_ext_file_attributes = 0x20, de_ea_size = 0, de_short_name = [], de_file_name = lit name\<rparr>,
      la_short = replicate 24 0, la_short_length = 0, la_pad = replicate pad 0\<rparr>"

lemma demo_laid_ok: "length name < 1000 \<Longrightarrow> pad < 1000 \<Longrightarrow> laid_ok (demo_laid name pad)"
proof -
  have "length (encode_utf16 (lit name)) \<le> 2 * length name" for name
    by (induction name) (simp_all add: lit_def utf16_char_def)
  from this [of name] show "length name < 1000 \<Longrightarrow> pad < 1000 \<Longrightarrow> ?thesis"
    by (simp add: laid_ok_def demo_laid_def laid_size_def MIN_ENTRY_LEN_def from_utf16_def)
qed

theorem walk_exact_witness:
  "walk_entries (chain True [demo_laid ''.'' 4, demo_laid ''subdir'' 6]) 2
     = Inr (map la_entry [demo_laid ''.'' 4, demo_laid ''subdir'' 6])"
  by (subst walk_exact) (simp_all add: demo_laid_ok)

lemma read_entry_room: "read_entry data offset position = Inr x \<Longrightarrow> offset + MIN_ENTRY_LEN \<le> length data"
  by (auto simp: read_entry_def Let_def MIN_ENTRY_LEN_def split: if_splits)

lemma walk_from_bounded:
  "walk_from data offset acc = Inr es \<Longrightarrow>
     length acc \<le> length es \<and> MIN_ENTRY_LEN * (length es - length acc) \<le> length data - offset"
proof (induction data offset acc rule: walk_from.induct)
  case (1 data offset acc)
  show ?case
  proof (cases "offset < length data")
    case False
    then show ?thesis using "1.prems" by (subst (asm) walk_from.simps) simp
  next
    case True
    obtain e after where r: "read_entry data offset (length acc) = Inr (e, after)"
      using "1.prems" True by (subst (asm) walk_from.simps) (auto split: sum.splits)
    note room = read_entry_room [OF r]
    show ?thesis
    proof (cases "after = 0")
      case True
      then have "es = acc @ [e]" using "1.prems" \<open>offset < length data\<close> r by (subst (asm) walk_from.simps) simp
      then show ?thesis using room by simp
    next
      case False
      then have "\<not> after < MIN_ENTRY_LEN" "walk_from data (offset + after) (acc @ [e]) = Inr es"
        using "1.prems" True r by (auto simp: walk_from.simps [of data offset] split: if_splits)
      then have "length (acc @ [e]) \<le> length es"
          "MIN_ENTRY_LEN * (length es - length (acc @ [e])) \<le> length data - (offset + after)"
        using "1.IH" [OF True r refl False] by blast+
      then show ?thesis using room \<open>\<not> after < MIN_ENTRY_LEN\<close> by (auto simp: diff_mult_distrib2)
    qed
  qed
qed

text \<open>
  A server cannot make the client hold more entries than it sent bytes for: every entry a page
  yields took its fixed part of the page, and the walk ends on every page.
\<close>

theorem walk_bounded:
  assumes "walk_entries data n = Inr es"
  shows "length es = unat n \<and> MIN_ENTRY_LEN * length es \<le> length data"
  using assms walk_from_bounded [of data 0 "[]" es]
  by (auto simp: walk_entries_def rbind_Inr_iff split: if_splits)

theorem walk_bounded_witness: "MIN_ENTRY_LEN * 1 \<le> length (chain False [demo_laid ''a'' 0])"
proof -
  have "walk_entries (chain False [demo_laid ''a'' 0]) 1 = Inr [la_entry (demo_laid ''a'' 0)]"
    using walk_chain [of "[demo_laid ''a'' 0]" "[]" False "[]"] by (simp add: walk_entries_def demo_laid_ok)
  from walk_bounded [OF this] show ?thesis by simp
qed

end
