(* ===== verification/Verbs.thy ===== *)
theory Verbs
  imports Pipe Unc TreeMsgs Info Find "HOL-Library.Signed_Division"
begin

text \<open>
  A tree connection and its verbs (\<open>tree.rs\<close>).  As for the pipe, the connection is a parameter:
  what it answers each request with, and a state of its own.  A verb is a function of the tree and that
  state; \<open>obind\<close> is \<open>?\<close> behind an \<open>await\<close>.  The whole-file verbs take the transfer of
  their bytes as a parameter: it is the pipelined loop of the transfer theory.
\<close>

unbundle bit_operations_syntax

definition DELETE_ACCESS :: u32 where "DELETE_ACCESS = 0x00010000"
definition FILE_READ_DATA :: u32 where "FILE_READ_DATA = 0x00000001"
definition FILE_WRITE_DATA :: u32 where "FILE_WRITE_DATA = 0x00000002"
definition FILE_APPEND_DATA :: u32 where "FILE_APPEND_DATA = 0x00000004"
definition FILE_READ_ATTRIBUTES :: u32 where "FILE_READ_ATTRIBUTES = 0x00000080"
definition FILE_WRITE_ATTRIBUTES :: u32 where "FILE_WRITE_ATTRIBUTES = 0x00000100"
definition DISPOSITION_OPEN :: u32 where "DISPOSITION_OPEN = 1"
definition DISPOSITION_CREATE :: u32 where "DISPOSITION_CREATE = 2"
definition DISPOSITION_OPEN_IF :: u32 where "DISPOSITION_OPEN_IF = 3"
definition DISPOSITION_OVERWRITE :: u32 where "DISPOSITION_OVERWRITE = 4"
definition DISPOSITION_OVERWRITE_IF :: u32 where "DISPOSITION_OVERWRITE_IF = 5"
definition FILE_DIRECTORY_FILE :: u32 where "FILE_DIRECTORY_FILE = 0x00000001"
definition FILE_NON_DIRECTORY_FILE :: u32 where "FILE_NON_DIRECTORY_FILE = 0x00000040"
definition FILE_DELETE_ON_CLOSE :: u32 where "FILE_DELETE_ON_CLOSE = 0x00001000"
definition SEC_IMPERSONATE :: u32 where "SEC_IMPERSONATE = 2"
definition SHARE_ALL :: u32 where "SHARE_ALL = 0x00000007"
definition CLOSE_LEAVES_THE_TIME_ALONE :: u32 where "CLOSE_LEAVES_THE_TIME_ALONE = 0"
definition FILETIME_EPOCH_TICKS :: int where "FILETIME_EPOCH_TICKS = 116444736000000000"
definition DEFAULT_READ_AHEAD :: nat where "DEFAULT_READ_AHEAD = 4"

section \<open>The tree\<close>

record tree_inner =
  te_served :: served
  te_tid :: u16
  te_uid :: u16
  te_read_ahead :: nat
  te_released :: bool
  te_disconnected :: bool

type_synonym ('s, 'a) verb = "tree_inner \<times> 's \<Rightarrow> (error + 'a) \<times> tree_inner \<times> 's"

definition obind :: "('s, 'a) verb \<Rightarrow> ('a \<Rightarrow> ('s, 'b) verb) \<Rightarrow> ('s, 'b) verb" where
  "obind m f w = (case m w of (Inl e, w) \<Rightarrow> (Inl e, w) | (Inr x, w) \<Rightarrow> f x w)"

text \<open>A result computed without the wire.\<close>

definition pure :: "error + 'a \<Rightarrow> ('s, 'a) verb" where
  "pure r w = (r, w)"

lemma obind_simps [simp]:
  "m w = (Inl e, w') \<Longrightarrow> obind m f w = (Inl e, w')"
  "m w = (Inr x, w') \<Longrightarrow> obind m f w = f x w'"
  "obind (pure (Inl e)) f w = (Inl e, w)"
  "obind (pure (Inr x)) f w = f x w"
  by (simp_all add: obind_def pure_def)

lemma obind_Inr_iff: "obind m f w = (Inr y, w') \<longleftrightarrow> (\<exists>x w1. m w = (Inr x, w1) \<and> f x w1 = (Inr y, w'))"
  by (auto simp: obind_def split: prod.splits sum.splits)

text \<open>The one place a tree-scoped disconnect is recorded.\<close>

definition tree_refused :: "nt_status \<Rightarrow> ('s, 'a) verb" where
  "tree_refused status w =
     (case w of (t, s) \<Rightarrow>
        (Inl (refused status), if status = NETWORK_NAME_DELETED then t\<lparr>te_disconnected := True\<rparr> else t, s))"

definition tree_request :: "'s link \<Rightarrow> u8 \<Rightarrow> wire_error + bytes \<Rightarrow> ('s, reply) verb" where
  "tree_request link command encoded w =
     (case w of (t, s) \<Rightarrow>
        (let (r, s) = send link command (te_tid t) (te_uid t) encoded s in (r, t, s)))"

definition checked :: "'s link \<Rightarrow> u8 \<Rightarrow> wire_error + bytes \<Rightarrow> ('s, reply) verb" where
  "checked link command encoded =
     obind (tree_request link command encoded) (\<lambda>reply.
     if reply_status reply \<noteq> SUCCESS then tree_refused (reply_status reply) else pure (Inr reply))"

definition tree_transaction :: "'s link \<Rightarrow> trans_request \<Rightarrow> string \<Rightarrow> ('s, reply) verb" where
  "tree_transaction link r what w =
     (case w of (t, s) \<Rightarrow>
        (case check_limits r (max_buffer_size (negotiated_of (te_served t))) of
           Inl e \<Rightarrow> (Inl (too_large e what), t, s)
         | Inr _ \<Rightarrow>
             (case trans_request_encode_body r of
                Inl e \<Rightarrow> (Inl (from_wire e), t, s)
              | Inr b \<Rightarrow>
                  (let (m, s) = link s (request_transaction (tr_command r) (te_tid t) (te_uid t) b
                                          (tr_max_parameter_count r) (tr_max_data_count r)) in
                   (map_sum from_connection id m, t, s)))))"

definition transaction_data :: "reply \<Rightarrow> bytes" where
  "transaction_data reply = (case rp_transaction reply of None \<Rightarrow> [] | Some bd \<Rightarrow> bd_data bd)"

text \<open>Connecting: no tree yet, so the state is the connection's alone.\<close>

definition tree_attach :: "served \<Rightarrow> u16 \<Rightarrow> u16 \<Rightarrow> tree_inner" where
  "tree_attach n uid tid =
     \<lparr>te_served = n, te_tid = tid, te_uid = uid, te_read_ahead = DEFAULT_READ_AHEAD, te_released = False,
      te_disconnected = False\<rparr>"

definition tree_connect ::
  "'s link \<Rightarrow> served \<Rightarrow> u16 \<Rightarrow> rstr \<Rightarrow> rstr \<Rightarrow> 's \<Rightarrow> (error + tree_inner) \<times> 's" where
  "tree_connect link n uid share_path service s =
     (let (reply, s) = send link CMD_TREE_CONNECT_ANDX 0xFFFF uid
                         (tree_connect_request_encode_body (tree_connect_request_new share_path service)) s in
      (rbind reply (\<lambda>reply.
       if reply_status reply \<noteq> SUCCESS then Inl (refused (reply_status reply))
       else map_sum from_wire (\<lambda>_. tree_attach n uid (reply_tid reply))
              (tree_connect_response_decode (rp_message reply))), s))"

definition set_read_ahead :: "nat \<Rightarrow> tree_inner \<Rightarrow> tree_inner" where
  "set_read_ahead chunks t = t\<lparr>te_read_ahead := max chunks 1\<rparr>"

text \<open>\<open>close\<close>; \<open>shared\<close> says another owner still has the tree.\<close>

definition tree_close :: "'s link \<Rightarrow> bool \<Rightarrow> ('s, unit) verb" where
  "tree_close link shared w =
     (case w of (t, s) \<Rightarrow>
        if shared then (Inr (), t, s)
        else
          obind (tree_request link CMD_TREE_DISCONNECT tree_disconnect_encode_body) (\<lambda>reply.
            if reply_status reply \<noteq> SUCCESS then tree_refused (reply_status reply) else pure (Inr ()))
            (t\<lparr>te_released := True\<rparr>, s))"

text \<open>What dropping the last owner queues.\<close>

definition tree_drop :: "tree_inner \<Rightarrow> request option" where
  "tree_drop t =
     (if te_released t then None
      else Some (request_new CMD_TREE_DISCONNECT (te_tid t) (te_uid t)
        (case tree_disconnect_encode_body of Inl _ \<Rightarrow> [] | Inr b \<Rightarrow> b)))"

section \<open>Opening\<close>

record open_options =
  oo_read :: bool
  oo_write :: bool
  oo_append :: bool
  oo_truncate :: bool
  oo_create :: bool
  oo_create_new :: bool
  oo_share :: u32

definition open_options_new :: open_options where
  "open_options_new = \<lparr>oo_read = False, oo_write = False, oo_append = False, oo_truncate = False,
     oo_create = False, oo_create_new = False, oo_share = SHARE_ALL\<rparr>"

definition desired_access :: "open_options \<Rightarrow> u32" where
  "desired_access o' =
     (let access = 0;
          access = (if oo_read o' then access OR (FILE_READ_DATA OR FILE_READ_ATTRIBUTES) else access);
          access = (if oo_write o' \<or> oo_append o' then access OR (FILE_WRITE_DATA OR FILE_WRITE_ATTRIBUTES) else access);
          access = (if oo_append o' then access OR FILE_APPEND_DATA else access)
      in if access = 0 then FILE_READ_DATA OR FILE_READ_ATTRIBUTES else access)"

definition create_disposition :: "open_options \<Rightarrow> u32" where
  "create_disposition o' =
     (if oo_create_new o' then DISPOSITION_CREATE
      else if oo_create o' then (if oo_truncate o' then DISPOSITION_OVERWRITE_IF else DISPOSITION_OPEN_IF)
      else if oo_truncate o' then DISPOSITION_OVERWRITE else DISPOSITION_OPEN)"

definition open_request :: "open_options \<Rightarrow> rstr \<Rightarrow> nt_create_request" where
  "open_request o' path =
     \<lparr>cq_flags = 0, cq_root_directory_fid = 0, cq_desired_access = desired_access o', cq_allocation_size = 0,
      cq_ext_file_attributes = ATTRIBUTE_NORMAL, cq_share_access = oo_share o',
      cq_create_disposition = create_disposition o', cq_create_options = FILE_NON_DIRECTORY_FILE,
      cq_impersonation_level = SEC_IMPERSONATE, cq_security_flags = 0, cq_name = path\<rparr>"

definition create_andx :: "'s link \<Rightarrow> nt_create_request \<Rightarrow> ('s, nt_create_response) verb" where
  "create_andx link r =
     obind (checked link CMD_NT_CREATE_ANDX (nt_create_request_encode_body r)) (\<lambda>reply.
     pure (map_sum from_wire id (nt_create_response_decode (rp_message reply))))"

definition close_handle :: "'s link \<Rightarrow> u16 \<Rightarrow> ('s, unit) verb" where
  "close_handle link fid =
     obind (checked link CMD_CLOSE
       (close_request_encode_body \<lparr>cl_fid = fid, cl_last_time_modified = CLOSE_LEAVES_THE_TIME_ALONE\<rparr>)) (\<lambda>_.
     pure (Inr ()))"

text \<open>An open file; \<open>fh_len\<close> is a hint.\<close>

record file_handle =
  fh_fid :: u16
  fh_len :: u64
  fh_append_at :: "u64 option"
  fh_closed :: bool

definition file_new :: "u16 \<Rightarrow> u64 \<Rightarrow> bool \<Rightarrow> file_handle" where
  "file_new fid len appending =
     \<lparr>fh_fid = fid, fh_len = len, fh_append_at = (if appending then Some len else None), fh_closed = False\<rparr>"

definition start_of_writes :: "file_handle \<Rightarrow> u64" where
  "start_of_writes f = unwrap_or (fh_append_at f) 0"

definition grew_to :: "u64 \<Rightarrow> file_handle \<Rightarrow> file_handle" where
  "grew_to fin f = f\<lparr>fh_len := max (fh_len f) fin\<rparr>"

definition open_with :: "'s link \<Rightarrow> rstr \<Rightarrow> open_options \<Rightarrow> ('s, file_handle) verb" where
  "open_with link path o' =
     obind (pure (share_path_new path)) (\<lambda>path.
     obind (create_andx link (open_request o' path)) (\<lambda>opened.
     pure (Inr (file_new (cr_fid opened) (cr_end_of_file opened) (oo_append o')))))"

definition open_file :: "'s link \<Rightarrow> rstr \<Rightarrow> ('s, file_handle) verb" where
  "open_file link path = open_with link path (open_options_new\<lparr>oo_read := True\<rparr>)"

definition create_file :: "'s link \<Rightarrow> rstr \<Rightarrow> ('s, file_handle) verb" where
  "create_file link path =
     open_with link path (open_options_new\<lparr>oo_write := True, oo_create := True, oo_truncate := True\<rparr>)"

section \<open>Times and metadata\<close>

text \<open>
  A time is its nanoseconds since the Unix epoch.  Which of them the \<open>time\<close> crate can represent is
  the parameter \<open>representable\<close>.  Rust's division truncates toward zero.
\<close>

definition to_filetime :: "int \<Rightarrow> u64" where
  "to_filetime nanos =
     (let ticks = nanos sdiv 100 + FILETIME_EPOCH_TICKS in word_of_int (max (- (2 ^ 63)) (min (2 ^ 63 - 1) ticks)))"

definition from_filetime :: "(int \<Rightarrow> bool) \<Rightarrow> u64 \<Rightarrow> int option" where
  "from_filetime representable ticks =
     (if ticks = 0 then None
      else
        let nanos = (sint ticks - FILETIME_EPOCH_TICKS) * 100 in
        if representable nanos then Some nanos else None)"

record metadata =
  md_creation_time :: u64
  md_last_access_time :: u64
  md_last_write_time :: u64
  md_change_time :: u64
  md_len :: u64
  md_allocation_size :: u64
  md_attributes :: u32

definition metadata_is_dir :: "metadata \<Rightarrow> bool" where
  "metadata_is_dir m \<longleftrightarrow> md_attributes m AND ATTRIBUTE_DIRECTORY \<noteq> 0"

definition metadata_from_parts :: "basic_info \<Rightarrow> u64 \<Rightarrow> u64 \<Rightarrow> u32 \<Rightarrow> metadata" where
  "metadata_from_parts basic len allocation attributes =
     \<lparr>md_creation_time = unwrap_or (bi_creation_time basic) 0,
      md_last_access_time = unwrap_or (bi_last_access_time basic) 0,
      md_last_write_time = unwrap_or (bi_last_write_time basic) 0,
      md_change_time = unwrap_or (bi_change_time basic) 0, md_len = len, md_allocation_size = allocation,
      md_attributes = attributes\<rparr>"

section \<open>What the options mean\<close>

text \<open>
  What each disposition does to a path that holds \<open>existing\<close> ([MS-SMB] 2.2.4.9.1), \<open>None\<close> being a
  refusal, and what \<open>std::fs::OpenOptions\<close> promises.
\<close>

definition disposition_effect :: "u32 \<Rightarrow> bytes option \<Rightarrow> bytes option" where
  "disposition_effect d existing =
     (if d = DISPOSITION_OPEN then existing
      else if d = DISPOSITION_CREATE then (if existing = None then Some [] else None)
      else if d = DISPOSITION_OPEN_IF then Some (unwrap_or existing [])
      else if d = DISPOSITION_OVERWRITE then map_option (\<lambda>_. []) existing
      else if d = DISPOSITION_OVERWRITE_IF then Some []
      else None)"

definition std_open :: "open_options \<Rightarrow> bytes option \<Rightarrow> bytes option" where
  "std_open o' existing =
     (if oo_create_new o' then (case existing of None \<Rightarrow> Some [] | Some _ \<Rightarrow> None)
      else
        (case existing of
           None \<Rightarrow> if oo_create o' then Some [] else None
         | Some contents \<Rightarrow> Some (if oo_truncate o' then [] else contents)))"

lemmas disposition_defs = DISPOSITION_OPEN_def DISPOSITION_CREATE_def DISPOSITION_OPEN_IF_def
  DISPOSITION_OVERWRITE_def DISPOSITION_OVERWRITE_IF_def


text \<open>A tick is 100 ns; between 1601 and the end of the range, what a server reports is what is sent back.\<close>

lemma filetime_roundtrip:
  assumes "from_filetime representable ticks = Some nanos"
  shows "to_filetime nanos = ticks"
proof -
  have "nanos = (sint ticks - FILETIME_EPOCH_TICKS) * 100"
    using assms by (simp add: from_filetime_def Let_def split: if_splits)
  moreover have "(x * 100) sdiv 100 = x" for x :: int
    by (simp add: signed_divide_int_def sgn_mult abs_mult mult_sgn_abs)
  ultimately have "nanos sdiv 100 + FILETIME_EPOCH_TICKS = sint ticks"
    by (simp only:)
  moreover have "- (2 ^ 63) \<le> sint ticks" "sint ticks \<le> 2 ^ 63 - 1"
    using sint_greater_eq [of ticks] sint_less [of ticks] by simp_all
  ultimately show ?thesis by (simp add: to_filetime_def Let_def)
qed

text \<open>1601-01-01 itself encodes as the zero that tells the server to leave the field alone.\<close>

lemma epoch_is_no_change: "to_filetime (- (FILETIME_EPOCH_TICKS * 100)) = 0"
  by (simp add: to_filetime_def FILETIME_EPOCH_TICKS_def signed_divide_int_def)

end
