(* ===== verification/Listing.thy ===== *)
theory Listing
  imports Verbs
begin

text \<open>
  The lazily paged listing (\<open>resource/listing.rs\<close>): FIND_FIRST2 on the way in, FIND_NEXT2 whenever
  a page runs out, and FIND_CLOSE2 for a search the server has not closed itself.  What a dropped
  listing enqueues goes through a second parameter, \<open>queue\<close>.  A server may answer page after page of
  nothing but dot entries, so \<open>next_entry\<close> is a \<open>partial_function\<close>.
\<close>

unbundle bit_operations_syntax

definition BATCH :: u16 where "BATCH = 100"
definition FIRST_FLAGS :: u16 where "FIRST_FLAGS = FLAG_CLOSE_AT_EOS"
definition NEXT_FLAGS :: u16 where "NEXT_FLAGS = FLAG_CLOSE_AT_EOS OR FLAG_CONTINUE_FROM_LAST"

record dir_entry =
  dn_name :: rstr
  dn_metadata :: metadata

definition entry_is_dir :: "dir_entry \<Rightarrow> bool" where
  "entry_is_dir e = metadata_is_dir (dn_metadata e)"

record read_dir =
  rl_pattern :: rstr
  rl_sid :: "u16 option"
  rl_finished :: bool
  rl_closed :: bool
  rl_page :: "dir_entry list"

type_synonym 's queue = "'s \<Rightarrow> request \<Rightarrow> 's"
type_synonym 's world = "read_dir \<times> tree_inner \<times> 's"

section \<open>One round\<close>

definition is_dot :: "rstr \<Rightarrow> bool" where
  "is_dot name \<longleftrightarrow> name = [DOT] \<or> name = [DOT, DOT]"

definition to_dir_entry :: "directory_entry \<Rightarrow> dir_entry" where
  "to_dir_entry e =
     \<lparr>dn_name = de_file_name e,
      dn_metadata = metadata_from_parts
        \<lparr>bi_creation_time = Some (de_creation_time e), bi_last_access_time = Some (de_last_access_time e),
         bi_last_write_time = Some (de_last_write_time e), bi_change_time = Some (de_change_time e),
         bi_attributes = Some (de_ext_file_attributes e)\<rparr>
        (de_end_of_file e) (de_allocation_size e) (de_ext_file_attributes e)\<rparr>"

definition kept_entries :: "directory_entry list \<Rightarrow> dir_entry list" where
  "kept_entries es = map to_dir_entry (filter (\<lambda>e. \<not> is_dot (de_file_name e)) es)"

definition page_decode :: "bool \<Rightarrow> bytes \<Rightarrow> wire_error + find_reply" where
  "page_decode first ps = (if first then find_reply_decode_first ps else find_reply_decode_next ps)"

definition page_in :: "'s link \<Rightarrow> trans_request \<Rightarrow> string \<Rightarrow> bool \<Rightarrow> 's world \<Rightarrow> (error + unit) \<times> 's world" where
  "page_in link r what first w =
     (case w of (d, w) \<Rightarrow>
      case tree_transaction link r what w of
        (Inl e, w) \<Rightarrow> (Inl e, d, w)
      | (Inr reply, w) \<Rightarrow>
          if reply_status reply = NO_MORE_FILES then (Inr (), d\<lparr>rl_finished := True\<rparr>, w)
          else if reply_status reply \<noteq> SUCCESS then
            (case tree_refused (reply_status reply) w of (m, w) \<Rightarrow> (m, d, w))
          else
            (case rp_transaction reply of
               None \<Rightarrow> (Inl (from_wire (NoResponseBody CMD_TRANSACTION2 (reply_status reply))), d, w)
             | Some bd \<Rightarrow>
                 (case page_decode first (bd_parameters bd) of
                    Inl e \<Rightarrow> (Inl (from_wire e), d, w)
                  | Inr found \<Rightarrow>
                      let d = (if first then d\<lparr>rl_sid := fr_sid found\<rparr> else d) in
                      (case walk_entries (bd_data bd) (fr_search_count found) of
                         Inl e \<Rightarrow> (Inl (from_wire e), d, w)
                       | Inr entries \<Rightarrow>
                           let d = d\<lparr>rl_page := rl_page d @ kept_entries entries\<rparr> in
                           if fr_end_of_search found \<noteq> 0 then (Inr (), d\<lparr>rl_finished := True\<rparr>, w)
                           else if entries = [] then (Inl (Protocol (PListing (rl_pattern d))), d, w)
                           else (Inr (), d, w)))))"

section \<open>The listing\<close>

text \<open>\<open>Drop\<close>.\<close>

definition listing_drop :: "'s queue \<Rightarrow> 's world \<Rightarrow> tree_inner \<times> 's" where
  "listing_drop queue w =
     (case w of (d, t, s) \<Rightarrow>
        if rl_closed d \<or> rl_finished d then (t, s)
        else
          (case rl_sid d of
             None \<Rightarrow> (t, s)
           | Some sid \<Rightarrow>
               (case find_close2_encode_body sid of
                  Inr b \<Rightarrow> (t, queue s (request_new CMD_FIND_CLOSE2 (te_tid t) (te_uid t) b))
                | Inl _ \<Rightarrow> (t, s))))"

definition listing_new :: "rstr \<Rightarrow> read_dir" where
  "listing_new pattern =
     \<lparr>rl_pattern = pattern, rl_sid = None, rl_finished = False, rl_closed = False, rl_page = []\<rparr>"

text \<open>A listing whose first page fails is dropped by the \<open>?\<close> that reports it.\<close>

definition listing_start :: "'s link \<Rightarrow> 's queue \<Rightarrow> rstr \<Rightarrow> ('s, read_dir) verb" where
  "listing_start link queue pattern w =
     (case find_first2_params_encode
             \<lparr>fp_search_attributes = SEARCH_ATTRIBUTES, fp_search_count = BATCH, fp_flags = FIRST_FLAGS,
              fp_information_level = INFO_LEVEL_BOTH_DIRECTORY_INFO, fp_pattern = pattern\<rparr> of
        Inl e \<Rightarrow> (Inl (from_wire e), listing_drop queue (listing_new pattern, w))
      | Inr ps \<Rightarrow>
          (case page_in link (trans2_request SUBCOMMAND_FIND_FIRST2 ps []) ''TRANS2_FIND_FIRST2'' True
                  (listing_new pattern, w) of
             (Inl e, w) \<Rightarrow> (Inl e, listing_drop queue w)
           | (Inr _, d, w) \<Rightarrow> (Inr d, w)))"

partial_function (option) next_entry ::
  "'s link \<Rightarrow> 's world \<Rightarrow> ((error + dir_entry option) \<times> 's world) option" where
  "next_entry link w =
     (case w of (d, w) \<Rightarrow>
      case rl_page d of
        e # es \<Rightarrow> Some (Inr (Some e), d\<lparr>rl_page := es\<rparr>, w)
      | [] \<Rightarrow>
          if rl_finished d \<or> rl_closed d then Some (Inr None, d, w)
          else
            (case rl_sid d of
               None \<Rightarrow> Some (Inr None, d, w)
             | Some sid \<Rightarrow>
                 (case find_next2_params_encode
                         \<lparr>fx_sid = sid, fx_search_count = BATCH,
                          fx_information_level = INFO_LEVEL_BOTH_DIRECTORY_INFO, fx_resume_key = 0,
                          fx_flags = NEXT_FLAGS, fx_pattern = rl_pattern d\<rparr> of
                    Inl e \<Rightarrow> Some (Inl (from_wire e), d, w)
                  | Inr ps \<Rightarrow>
                      (case page_in link (trans2_request SUBCOMMAND_FIND_NEXT2 ps []) ''TRANS2_FIND_NEXT2''
                              False (d, w) of
                         (Inl e, w) \<Rightarrow> Some (Inl e, w)
                       | (Inr _, w) \<Rightarrow> next_entry link w))))"

text \<open>\<open>close\<close> takes the listing, and \<open>closed\<close> keeps its \<open>Drop\<close> from sending anything.\<close>

definition listing_close :: "'s link \<Rightarrow> read_dir \<Rightarrow> ('s, unit) verb" where
  "listing_close link d =
     (case rl_sid d of
        None \<Rightarrow> pure (Inr ())
      | Some sid \<Rightarrow>
          if rl_finished d then pure (Inr ())
          else obind (checked link CMD_FIND_CLOSE2 (find_close2_encode_body sid)) (\<lambda>_. pure (Inr ())))"

text \<open>\<open>while let Some(entry) = listing.next_entry().await?\<close>.\<close>

partial_function (option) drain_listing ::
  "'s link \<Rightarrow> dir_entry list \<Rightarrow> 's world \<Rightarrow> ((error + dir_entry list) \<times> 's world) option" where
  "drain_listing link entries w =
     Option.bind (next_entry link w) (\<lambda>(m, w).
       case m of
         Inl e \<Rightarrow> Some (Inl e, w)
       | Inr None \<Rightarrow> Some (Inr entries, w)
       | Inr (Some entry) \<Rightarrow> drain_listing link (entries @ [entry]) w)"


section \<open>No search is leaked\<close>

text \<open>
  What the server holds, read off the wire: whether the first page was asked for, and the search its
  replies left open.  The first page opens a search unless it says it is the end; a later page closes
  it by saying so, \<open>NO_MORE_FILES\<close> closes it, and so does FIND_CLOSE2 naming it.
\<close>

type_synonym search = "bool \<times> u16 option"

definition search_after :: "reply \<Rightarrow> search \<Rightarrow> u16 option" where
  "search_after reply o' =
     (if reply_status reply = NO_MORE_FILES then None
      else if reply_status reply \<noteq> SUCCESS then snd o'
      else
        (case rp_transaction reply of
           None \<Rightarrow> snd o'
         | Some bd \<Rightarrow>
             (case page_decode (\<not> fst o') (bd_parameters bd) of
                Inl _ \<Rightarrow> snd o'
              | Inr found \<Rightarrow>
                  if fr_end_of_search found \<noteq> 0 then None
                  else if fst o' then snd o' else fr_sid found)))"

definition observe :: "request \<Rightarrow> conn_error + reply \<Rightarrow> search \<Rightarrow> search" where
  "observe r m o' =
     (if rq_command r = CMD_FIND_CLOSE2 then
        (fst o', case snd o' of None \<Rightarrow> None
                 | Some sid \<Rightarrow> if find_close2_encode_body sid = Inr (rq_body r) then None else Some sid)
      else if rq_command r = CMD_TRANSACTION2 then
        (True, case m of Inl _ \<Rightarrow> snd o' | Inr reply \<Rightarrow> search_after reply o')
      else o')"

definition watch :: "'s link \<Rightarrow> ('s \<times> search) link" where
  "watch link w r = (case w of (s, o') \<Rightarrow> let (m, s) = link s r in (m, s, observe r m o'))"

definition watch_queue :: "'s queue \<Rightarrow> ('s \<times> search) queue" where
  "watch_queue queue w r = (case w of (s, o') \<Rightarrow> (queue s r, observe r (Inl Timeout) o'))"

text \<open>Any number of \<open>next_entry\<close> calls.\<close>

inductive listing_run :: "'s link \<Rightarrow> 's world \<Rightarrow> 's world \<Rightarrow> bool" for link where
  Still: "listing_run link w w"
| Next: "listing_run link w w' \<Longrightarrow> next_entry link w' = Some (m, w'') \<Longrightarrow> listing_run link w w''"

definition tracked :: "('s \<times> search) world \<Rightarrow> bool" where
  "tracked w =
     (case w of (d, t, s, started, open') \<Rightarrow>
        started \<and> \<not> rl_closed d \<and> (open' \<noteq> None \<longrightarrow> open' = rl_sid d \<and> \<not> rl_finished d))"

lemma trans2_command [simp]: "tr_command (trans2_request c ps ds) = CMD_TRANSACTION2"
  by (simp add: trans2_request_def)

lemma watched_transaction:
  assumes "tree_transaction (watch link) r what (t, s, o') = (m, t', s', o'')"
    and "tr_command r = CMD_TRANSACTION2"
  shows "case m of Inl _ \<Rightarrow> o'' = o' \<or> o'' = (True, snd o') | Inr reply \<Rightarrow> o'' = (True, search_after reply o')"
  using assms
  by (auto simp: tree_transaction_def watch_def observe_def request_transaction_def command_defs Let_def
      split: sum.splits prod.splits)

lemma page_in_tracked:
  assumes "page_in (watch link) r what first (d, t, s, o') = (m, w')"
    and "tr_command r = CMD_TRANSACTION2"
    and "if first then o' = (False, None) \<and> \<not> rl_closed d \<and> \<not> rl_finished d else tracked (d, t, s, o')"
  shows "if first \<and> isl m then snd (snd (snd (snd w'))) = None \<or> tracked w' else tracked w'"
proof -
  obtain m1 t1 s1 o1 where tt: "tree_transaction (watch link) r what (t, s, o') = (m1, t1, s1, o1)"
    by (metis prod.exhaust)
  note o1 = watched_transaction [OF tt assms(2)]
  show ?thesis
  proof (cases m1)
    case (Inl e)
    then show ?thesis
      using assms(1,3) o1 tt by (auto simp: page_in_def tracked_def split: if_splits)
  next
    case (Inr reply)
    then show ?thesis
      using assms(1,3) o1 tt
      by (auto simp: page_in_def tracked_def search_after_def tree_refused_def Let_def
          split: if_splits option.splits sum.splits)
  qed
qed


lemma next_entry_tracked:
  assumes "next_entry (watch link) w = Some (m, w')" and "tracked w"
  shows "tracked w'"
proof -
  have "watch link = watch link \<longrightarrow> tracked w \<longrightarrow> tracked (snd (m, w'))"
  proof (rule next_entry.raw_induct
      [where P = "\<lambda>l w y. l = watch link \<longrightarrow> tracked w \<longrightarrow> tracked (snd y)", OF _ assms(1)], goal_cases)
    case (1 self l w y)
    obtain d t s o' where w: "w = (d, t, s, o')" by (metis prod.exhaust)
    show ?case
    proof (intro impI)
      assume l: "l = watch link" and tr: "tracked w"
      show "tracked (snd y)"
      proof (cases "rl_page d \<noteq> [] \<or> rl_finished d \<or> rl_closed d \<or> rl_sid d = None")
        case True
        then show ?thesis using 1(2) tr
          by (auto simp: w tracked_def split: list.splits if_splits option.splits)
      next
        case False
        then obtain sid where sid: "rl_sid d = Some sid" "rl_page d = []" "\<not> rl_finished d" "\<not> rl_closed d"
          by auto
        define ps where "ps = wr_find_next2_words
          \<lparr>fn_sid = sid, fn_search_count = BATCH, fn_information_level = INFO_LEVEL_BOTH_DIRECTORY_INFO,
           fn_resume_key = 0, fn_flags = NEXT_FLAGS\<rparr> @ utf16z (rl_pattern d)"
        obtain m1 w1 where p: "page_in (watch link) (trans2_request SUBCOMMAND_FIND_NEXT2 ps [])
            ''TRANS2_FIND_NEXT2'' False (d, t, s, o') = (m1, w1)"
          by (metis prod.exhaust)
        have tr1: "tracked w1" using page_in_tracked [OF p] tr by (simp add: w)
        show ?thesis
          using 1(2) 1(1) sid p tr1 l
          by (cases m1) (auto simp: w find_next2_params_encode_def ps_def)
      qed
    qed
  qed
  then show ?thesis using assms(2) by simp
qed

lemma listing_run_tracked: "listing_run (watch link) w w' \<Longrightarrow> tracked w \<Longrightarrow> tracked w'"
  by (induction rule: listing_run.induct) (auto intro: next_entry_tracked)

lemma drop_tracked: "tracked w \<or> snd (snd (snd (snd w))) = None \<Longrightarrow> snd (snd (snd (listing_drop (watch_queue q) w))) = None"
  by (auto simp: listing_drop_def tracked_def watch_queue_def observe_def request_new_def
      find_close2_encode_body_def split: prod.splits option.splits)

lemma checked_close2_observed:
  "open' = None \<or> open' = Some sid \<Longrightarrow>
   snd (snd (snd (snd (checked (watch link) CMD_FIND_CLOSE2 (find_close2_encode_body sid) (t, s, b, open'))))) = None"
  by (auto simp: checked_def tree_request_def obind_def send_def watch_def observe_def request_new_def
      find_close2_encode_body_def tree_refused_def pure_def Let_def split: prod.splits sum.splits option.splits)

lemma close_tracked:
  assumes "tracked (d, w)"
  shows "snd (snd (snd (snd (listing_close (watch link) d w)))) = None"
proof -
  obtain t s b open' where w: "w = (t, s, b, open')" by (metis prod.exhaust)
  have pure_step: "snd (obind m (\<lambda>_. pure (Inr ())) w) = snd (m w)" for m :: "('b \<times> search, reply) verb" and w
    by (auto simp: obind_def pure_def split: prod.splits sum.splits)
  show ?thesis
    using assms checked_close2_observed [of open' _ link t s b]
    by (auto simp: listing_close_def tracked_def w pure_step pure_def split: option.splits)
qed



section \<open>A listing reads the whole directory\<close>

lemma served_floor: "4356 \<le> unat (max_buffer_size (negotiated_of n))"
  using negotiated_of [of n] by (simp add: spawn_accepts_def MIN_BUFFER_SIZE_def word_le_nat_alt)

text \<open>A request of moderate length is sent as one message.\<close>

lemma trans2_sent:
  assumes "length ps \<le> 3000"
  shows "\<exists>b. tree_transaction link (trans2_request c ps []) what (t, s) =
    (let (m, s) = link s (request_transaction CMD_TRANSACTION2 (te_tid t) (te_uid t) b
                            MIN_MAX_PARAMETER_COUNT MAX_DATA_COUNT)
     in (map_sum from_connection id m, t, s))"
proof -
  let ?r = "trans2_request c ps []"
  have wf: "wf_trans_request ?r" by (simp add: wf_trans_request_def trans2_request_def)
  have "data_at ?r \<le> 3100"
    using assms by (simp add: data_at_def name_part_def gap_part_def tail_part_def trans2_request_def)
  moreover have "tr_max_parameter_count ?r = MIN_MAX_PARAMETER_COUNT" "tr_max_data_count ?r = MAX_DATA_COUNT"
      "tr_data ?r = []"
    by (simp_all add: trans2_request_def)
  ultimately have "check_limits ?r (max_buffer_size (negotiated_of (te_served t))) = Inr ()"
    using served_floor [of "te_served t"]
    by (subst check_limits_iff [OF wf]) (simp add: MIN_MAX_PARAMETER_COUNT_def MAX_DATA_COUNT_def MAX_RETURN_SUM_def)
  moreover have "tr_max_parameter_count ?r = MIN_MAX_PARAMETER_COUNT" "tr_max_data_count ?r = MAX_DATA_COUNT"
    by (simp_all add: trans2_request_def)
  ultimately show ?thesis
    using trans_request_encode_body_eq [OF wf] by (auto simp: tree_transaction_def)
qed

definition find_answer :: "nt_status \<Rightarrow> bytes \<Rightarrow> bytes \<Rightarrow> reply" where
  "find_answer status ps ds =
     \<lparr>rp_message = \<lparr>header = (header_request CMD_TRANSACTION2)\<lparr>h_status := status\<rparr>, m_bytes = [],
                    word_count = 0, byte_count = 0\<rparr>,
      rp_transaction = Some \<lparr>bd_setup = [], bd_parameters = ps, bd_data = ds\<rparr>\<rparr>"

definition page_params :: "bool \<Rightarrow> u16 \<Rightarrow> nat \<Rightarrow> bool \<Rightarrow> bytes" where
  "page_params first sid n eos =
     (if first then le16 sid else []) @ le16 (of_nat n) @ le16 (if eos then 1 else 0) @ le16 0 @ le16 0"

text \<open>
  A server with these pages left, and the requests it has seen: \<open>eos\<close> says whether it marks the last
  page or answers the next request \<open>NO_MORE_FILES\<close>.
\<close>

definition directory_server :: "u16 \<Rightarrow> bool \<Rightarrow> bool \<Rightarrow> (laid_entry list list \<times> request list) link" where
  "directory_server sid zero eos w r =
     (case w of (pages, seen) \<Rightarrow>
        (case pages of
           [] \<Rightarrow> (Inr (find_answer NO_MORE_FILES [] []), [], seen @ [r])
         | p # rest \<Rightarrow>
             (Inr (find_answer SUCCESS (page_params (seen = []) sid (length p) (eos \<and> rest = [])) (chain zero p)),
              rest, seen @ [r])))"

lemma page_decode_params:
  "page_decode first (page_params first sid n eos) =
     Inr \<lparr>fr_sid = (if first then Some sid else None), fr_search_count = of_nat n,
          fr_end_of_search = (if eos then 1 else 0), fr_ea_error_offset = 0, fr_last_name_offset = 0\<rparr>"
  using rd16_le16 [of 0 "[]"]
  by (cases first)
     (simp_all add: page_decode_def page_params_def find_reply_decode_first_def find_reply_decode_next_def
       rd_find_first2_reply_def rd_find_next2_reply_def read_words_def codec_simps)

lemma find_answer_simps [simp]:
  "reply_status (find_answer status ps ds) = status"
  "rp_transaction (find_answer status ps ds) = Some \<lparr>bd_setup = [], bd_parameters = ps, bd_data = ds\<rparr>"
  by (simp_all add: find_answer_def reply_status_def)

lemma page_in_served:
  assumes "length ps \<le> 3000" and "\<And>p. p \<in> set pages \<Longrightarrow> p \<noteq> [] \<and> length p < 65536 \<and> list_all laid_ok p"
    and "first = (seen = [])" and "\<not> rl_finished d"
  shows "\<exists>r. rq_command r = CMD_TRANSACTION2 \<and>
    page_in (directory_server sid zero eos) (trans2_request c ps []) what first (d, t, pages, seen) =
      (Inr (),
       (case pages of
          [] \<Rightarrow> d\<lparr>rl_finished := True\<rparr>
        | p # rest \<Rightarrow>
            d\<lparr>rl_sid := if first then Some sid else rl_sid d, rl_page := rl_page d @ kept_entries (map la_entry p),
              rl_finished := eos \<and> rest = []\<rparr>),
       t, tl pages, seen @ [r])"
proof -
  obtain b where b: "tree_transaction (directory_server sid zero eos) (trans2_request c ps []) what (t, pages, seen) =
      (let (m, s) = directory_server sid zero eos (pages, seen)
                      (request_transaction CMD_TRANSACTION2 (te_tid t) (te_uid t) b
                            MIN_MAX_PARAMETER_COUNT MAX_DATA_COUNT)
       in (map_sum from_connection id m, t, s))"
    using trans2_sent [OF assms(1), of "directory_server sid zero eos" c what t "(pages, seen)"] by auto
  have nm: "SUCCESS \<noteq> NO_MORE_FILES" by (simp add: SUCCESS_def NO_MORE_FILES_def)
  have unfinished: "rl_finished_update (\<lambda>_. False) (rl_page_update g d) = rl_page_update g d"
      "rl_finished_update (\<lambda>_. False) (rl_page_update g (rl_sid_update h d)) = rl_page_update g (rl_sid_update h d)"
      for g h
    using assms(4) by (cases d, simp)+
  show ?thesis
  proof (cases pages)
    case Nil
    then show ?thesis
      by (intro exI [of _ "request_transaction CMD_TRANSACTION2 (te_tid t) (te_uid t) b
                            MIN_MAX_PARAMETER_COUNT MAX_DATA_COUNT"])
         (simp add: page_in_def b [unfolded Nil] Nil directory_server_def request_transaction_def)
  next
    case (Cons p rest)
    then have p: "p \<noteq> []" "length p < 65536" "list_all laid_ok p" using assms(2) by auto
    have u: "unat (of_nat (length p) :: u16) = length p" using p(2) by (simp add: unat_of_nat_u16)
    have "walk_entries (chain zero p) (of_nat (length p)) = Inr (map la_entry p)"
      using walk_chain [OF p(3), of "[]" zero "[]"] by (simp add: walk_entries_def u)
    then show ?thesis
      using p(1)
      by (intro exI [of _ "request_transaction CMD_TRANSACTION2 (te_tid t) (te_uid t) b
                            MIN_MAX_PARAMETER_COUNT MAX_DATA_COUNT"])
         (simp add: page_in_def b [unfolded Cons] directory_server_def request_transaction_def Cons nm page_decode_params
           assms(3,4) Let_def unfinished)
  qed
qed


lemma next_page:
  assumes "rl_page d = []" "\<not> rl_finished d" "\<not> rl_closed d" "rl_sid d = Some sid"
    and "find_next2_params_encode
           \<lparr>fx_sid = sid, fx_search_count = BATCH, fx_information_level = INFO_LEVEL_BOTH_DIRECTORY_INFO,
            fx_resume_key = 0, fx_flags = NEXT_FLAGS, fx_pattern = rl_pattern d\<rparr> = Inr ps"
    and "page_in link (trans2_request SUBCOMMAND_FIND_NEXT2 ps []) ''TRANS2_FIND_NEXT2'' False (d, w) = (Inr (), w')"
  shows "drain_listing link acc (d, w) = drain_listing link acc w'"
proof -
  have "next_entry link (d, w) = next_entry link w'"
    using assms by (subst next_entry.simps) simp
  then show ?thesis by (simp add: drain_listing.simps)
qed

lemma drain_page:
  "drain_listing link acc (d\<lparr>rl_page := es\<rparr>, w) = drain_listing link (acc @ es) (d\<lparr>rl_page := []\<rparr>, w)"
proof (induction es arbitrary: acc)
  case Nil
  then show ?case by simp
next
  case (Cons e es)
  have "drain_listing link acc (d\<lparr>rl_page := e # es\<rparr>, w) = drain_listing link (acc @ [e]) (d\<lparr>rl_page := es\<rparr>, w)"
    by (subst drain_listing.simps) (simp add: next_entry.simps)
  then show ?case using Cons by simp
qed

lemma drain_finished:
  assumes "rl_finished d"
  shows "drain_listing link acc (d, w) = Some (Inr (acc @ rl_page d), d\<lparr>rl_page := []\<rparr>, w)"
proof -
  have "drain_listing link acc (d, w) = drain_listing link acc (d\<lparr>rl_page := rl_page d\<rparr>, w)" by simp
  also have "\<dots> = drain_listing link (acc @ rl_page d) (d\<lparr>rl_page := []\<rparr>, w)" by (rule drain_page)
  also have "\<dots> = Some (Inr (acc @ rl_page d), d\<lparr>rl_page := []\<rparr>, w)"
    using assms by (simp add: drain_listing.simps next_entry.simps)
  finally show ?thesis .
qed

definition listed :: "laid_entry list list \<Rightarrow> dir_entry list" where
  "listed pages = concat (map (\<lambda>p. kept_entries (map la_entry p)) pages)"

lemma drain_served:
  assumes "\<And>p. p \<in> set pages \<Longrightarrow> p \<noteq> [] \<and> length p < 65536 \<and> list_all laid_ok p"
    and "\<not> rl_finished d" "\<not> rl_closed d" "rl_sid d = Some sid'" "seen \<noteq> []"
    and "length (encode_utf16 (rl_pattern d)) \<le> 1000" and "eos \<Longrightarrow> pages \<noteq> []"
  shows "\<exists>d' more. drain_listing (directory_server sid zero eos) acc (d, t, pages, seen)
      = Some (Inr (acc @ rl_page d @ listed pages), d', t, [], seen @ more)
    \<and> rl_finished d' \<and> length more = length pages + (if eos then 0 else 1)
    \<and> list_all (\<lambda>r. rq_command r = CMD_TRANSACTION2) more"
  using assms
proof (induction pages arbitrary: d acc seen)
  note ps_len = find_next2.length_wr
  let ?link = "directory_server sid zero eos"
  let ?ps = "\<lambda>d. wr_find_next2_words
      \<lparr>fn_sid = sid', fn_search_count = BATCH, fn_information_level = INFO_LEVEL_BOTH_DIRECTORY_INFO,
       fn_resume_key = 0, fn_flags = NEXT_FLAGS\<rparr> @ utf16z (rl_pattern d)"
  have len: "length (?ps d) \<le> 3000" if "length (encode_utf16 (rl_pattern d)) \<le> 1000" for d
    using that by (simp add: ps_len utf16z_def)
  have step: "\<exists>r. rq_command r = CMD_TRANSACTION2 \<and>
      drain_listing ?link acc (d, t, pages, seen) =
      drain_listing ?link (acc @ rl_page d)
        (case pages of [] \<Rightarrow> d\<lparr>rl_page := [], rl_finished := True\<rparr>
         | p # rest \<Rightarrow> d\<lparr>rl_page := kept_entries (map la_entry p), rl_finished := eos \<and> rest = []\<rparr>,
         t, tl pages, seen @ [r])"
    if "\<And>p. p \<in> set pages \<Longrightarrow> p \<noteq> [] \<and> length p < 65536 \<and> list_all laid_ok p"
      "\<not> rl_finished d" "\<not> rl_closed d" "rl_sid d = Some sid'" "seen \<noteq> []"
      "length (encode_utf16 (rl_pattern d)) \<le> 1000" for pages d acc seen
  proof -
    let ?d = "d\<lparr>rl_page := []\<rparr>"
    let ?after = "case pages of [] \<Rightarrow> ?d\<lparr>rl_finished := True\<rparr>
           | p # rest \<Rightarrow> ?d\<lparr>rl_sid := if False then Some sid else rl_sid ?d,
                          rl_page := rl_page ?d @ kept_entries (map la_entry p), rl_finished := eos \<and> rest = []\<rparr>"
    have "\<exists>r. rq_command r = CMD_TRANSACTION2 \<and>
        page_in ?link (trans2_request SUBCOMMAND_FIND_NEXT2 (?ps ?d) []) ''TRANS2_FIND_NEXT2'' False (?d, t, pages, seen) =
         (Inr (), ?after, t, tl pages, seen @ [r])"
      by (rule page_in_served) (use len [of ?d] that in auto)
    then obtain r where r: "rq_command r = CMD_TRANSACTION2"
        "page_in ?link (trans2_request SUBCOMMAND_FIND_NEXT2 (?ps ?d) []) ''TRANS2_FIND_NEXT2'' False (?d, t, pages, seen) =
         (Inr (), ?after, t, tl pages, seen @ [r])"
      by blast
    have "drain_listing ?link acc (d, t, pages, seen) = drain_listing ?link (acc @ rl_page d) (?d, t, pages, seen)"
      using drain_page [of ?link acc "rl_page d" d] by simp
    also have "\<dots> = drain_listing ?link (acc @ rl_page d) (?after, t, tl pages, seen @ [r])"
      by (rule next_page) (use that r in \<open>simp_all add: find_next2_params_encode_def\<close>)
    finally show ?thesis using r(1) by (intro exI [of _ r]) (simp split: list.splits)
  qed
  {
    case Nil
    obtain r where r: "rq_command r = CMD_TRANSACTION2"
        "drain_listing ?link acc (d, t, [], seen) =
         drain_listing ?link (acc @ rl_page d) (d\<lparr>rl_page := [], rl_finished := True\<rparr>, t, [], seen @ [r])"
      using step [of "[]" d seen acc] Nil by auto
    show ?case
      using Nil r
      by (intro exI [of _ "d\<lparr>rl_page := [], rl_finished := True\<rparr>"] exI [of _ "[r]"])
         (auto simp: drain_finished listed_def)
  next
    case (Cons p rest)
    let ?d = "d\<lparr>rl_page := kept_entries (map la_entry p), rl_finished := eos \<and> rest = []\<rparr>"
    obtain r where r: "rq_command r = CMD_TRANSACTION2"
        "drain_listing ?link acc (d, t, p # rest, seen) =
         drain_listing ?link (acc @ rl_page d) (?d, t, rest, seen @ [r])"
      using step [of "p # rest" d seen acc] Cons.prems by auto
    show ?case
    proof (cases "eos \<and> rest = []")
      case True
      then show ?thesis
        using r by (intro exI [of _ "?d\<lparr>rl_page := []\<rparr>"] exI [of _ "[r]"]) (simp add: drain_finished listed_def)
    next
      case False
      then obtain d' more where ih:
          "drain_listing ?link (acc @ rl_page d) (?d, t, rest, seen @ [r])
             = Some (Inr ((acc @ rl_page d) @ rl_page ?d @ listed rest), d', t, [], (seen @ [r]) @ more)"
          "rl_finished d'" "length more = length rest + (if eos then 0 else 1)"
          "list_all (\<lambda>r. rq_command r = CMD_TRANSACTION2) more"
        using Cons.IH [of ?d "seen @ [r]" "acc @ rl_page d"] Cons.prems by auto
      then show ?thesis
        using r by (intro exI [of _ d'] exI [of _ "r # more"]) (simp add: listed_def)
    qed
  }
qed



definition demo_tree :: tree_inner where
  "demo_tree = tree_attach (Served \<lparr>max_mpx_count = 1, max_buffer_size = MIN_BUFFER_SIZE, capabilities = 0\<rparr>) 1 1"


text \<open>A first page of no entries that does not end the search: the search it opened is closed.\<close>

definition stuck_server :: "unit link" where
  "stuck_server s r = (Inr (find_answer SUCCESS (page_params True 7 0 False) []), s)"

lemma stuck_start:
  "\<exists>t' s'. listing_start (watch stuck_server) (watch_queue (\<lambda>s r. s)) [] (demo_tree, (), False, None)
     = (Inl (Protocol (PListing [])), t', s', True, None)"
proof -
  define ps where "ps = wr_find_first2_words
    \<lparr>ff_search_attributes = SEARCH_ATTRIBUTES, ff_search_count = BATCH, ff_flags = FIRST_FLAGS,
     ff_information_level = INFO_LEVEL_BOTH_DIRECTORY_INFO, ff_search_storage_type = 0\<rparr> @ utf16z []"
  have "length ps \<le> 3000" by (simp add: ps_def find_first2.length_wr utf16z_def)
  then obtain b where b: "tree_transaction (watch stuck_server) (trans2_request SUBCOMMAND_FIND_FIRST2 ps [])
      ''TRANS2_FIND_FIRST2'' (demo_tree, (), False, None) =
      (let (m, s) = watch stuck_server ((), False, None)
                      (request_transaction CMD_TRANSACTION2 (te_tid demo_tree) (te_uid demo_tree) b
                         MIN_MAX_PARAMETER_COUNT MAX_DATA_COUNT)
       in (map_sum from_connection id m, demo_tree, s))"
    using trans2_sent [of ps "watch stuck_server" SUBCOMMAND_FIND_FIRST2 "''TRANS2_FIND_FIRST2''" demo_tree "((), False, None)"]
    by auto
  have nm: "SUCCESS \<noteq> NO_MORE_FILES" by (simp add: SUCCESS_def NO_MORE_FILES_def)
  have "walk_entries [] 0 = Inr []" by (simp add: walk_entries_def walk_from.simps)
  then have p: "page_in (watch stuck_server) (trans2_request SUBCOMMAND_FIND_FIRST2 ps []) ''TRANS2_FIND_FIRST2'' True
      (listing_new [], demo_tree, (), False, None) =
      (Inl (Protocol (PListing [])), (listing_new [])\<lparr>rl_sid := Some 7\<rparr>, demo_tree, (), True, Some 7)"
    by (simp add: page_in_def b watch_def stuck_server_def observe_def request_transaction_def command_defs
        search_after_def nm page_decode_params kept_entries_def listing_new_def)
  show ?thesis
    unfolding listing_start_def find_first2_params_encode_def
    by (simp only: find_first2_params.select_convs sum.case p [unfolded ps_def] prod.case)
       (simp add: listing_drop_def listing_new_def watch_queue_def observe_def request_new_def
         find_close2_encode_body_def)
qed


section \<open>A server that never lets a listing end\<close>

text \<open>
  The no-progress guard counts the entries a page carried before the dot entries are dropped, so a
  server that answers every FIND_NEXT2 with a lone dot entry keeps a single \<open>next_entry\<close> asking.
\<close>

definition dot_server :: "unit link" where
  "dot_server s r = (Inr (find_answer SUCCESS (page_params False 0 1 False) (chain True [demo_laid ''.'' 0])), s)"

lemma dots_never_end:
  assumes "rl_page d = []" "\<not> rl_finished d" "\<not> rl_closed d" "rl_sid d = Some sid"
    and "length (encode_utf16 (rl_pattern d)) \<le> 1000"
  shows "next_entry dot_server (d, t, ()) = None"
proof (rule ccontr)
  assume "next_entry dot_server (d, t, ()) \<noteq> None"
  then obtain y where y: "next_entry dot_server (d, t, ()) = Some y" by blast
  have nm: "SUCCESS \<noteq> NO_MORE_FILES" by (simp add: SUCCESS_def NO_MORE_FILES_def)
  have walk: "walk_entries (chain True [demo_laid ''.'' 0]) 1 = Inr [la_entry (demo_laid ''.'' 0)]"
    using walk_chain [of "[demo_laid ''.'' 0]" "[]" True "[]"] by (simp add: walk_entries_def demo_laid_ok)
  have kept_entries: "kept_entries [la_entry (demo_laid ''.'' 0)] = []"
    by (simp add: kept_entries_def demo_laid_def is_dot_def lit_def DOT_def)
  have "dot_server = dot_server \<longrightarrow> (d, t, ()) = (d, t, ()) \<longrightarrow> False"
  proof (rule next_entry.raw_induct
      [where P = "\<lambda>l w y. l = dot_server \<longrightarrow> w = (d, t, ()) \<longrightarrow> False", OF _ y], goal_cases)
    case (1 self l w y)
    define ps where "ps = wr_find_next2_words
      \<lparr>fn_sid = sid, fn_search_count = BATCH, fn_information_level = INFO_LEVEL_BOTH_DIRECTORY_INFO,
       fn_resume_key = 0, fn_flags = NEXT_FLAGS\<rparr> @ utf16z (rl_pattern d)"
    have "length ps \<le> 3000" using assms(5) by (simp add: ps_def find_next2.length_wr utf16z_def)
    then obtain b where b: "tree_transaction dot_server (trans2_request SUBCOMMAND_FIND_NEXT2 ps [])
        ''TRANS2_FIND_NEXT2'' (t, ()) =
        (let (m, s) = dot_server () (request_transaction CMD_TRANSACTION2 (te_tid t) (te_uid t) b
                                       MIN_MAX_PARAMETER_COUNT MAX_DATA_COUNT)
         in (map_sum from_connection id m, t, s))"
      using trans2_sent [of ps dot_server SUBCOMMAND_FIND_NEXT2 "''TRANS2_FIND_NEXT2''" t "()"] by auto
    have p: "page_in dot_server (trans2_request SUBCOMMAND_FIND_NEXT2 ps []) ''TRANS2_FIND_NEXT2'' False (d, t, ())
        = (Inr (), d, t, ())"
      by (simp add: page_in_def b dot_server_def nm page_decode_params walk [simplified] kept_entries assms(1))
    show ?case
    proof (intro impI)
      assume "l = dot_server" "w = (d, t, ())"
      with 1(2) assms p have "self dot_server (d, t, ()) = Some y"
        by (simp add: find_next2_params_encode_def ps_def)
      then show False using 1(1) by blast
    qed
  qed
  then show False by simp
qed

end
