(* ===== verification/TreeOps.thy ===== *)
theory TreeOps
  imports Listing
begin

text \<open>
  The verbs of a tree (\<open>tree.rs\<close>) and what an open file asks for beside its reads and writes
  (\<open>resource/file.rs\<close>).  \<open>os\<close> is the kind an operating system error carries; the bytes of a
  whole-file read or write move through a parameter, the pipelined loops having a theory of their own.
\<close>

unbundle bit_operations_syntax

section \<open>Files and directories\<close>

definition create_dir_request :: "rstr \<Rightarrow> nt_create_request" where
  "create_dir_request path =
     \<lparr>cq_flags = 0, cq_root_directory_fid = 0, cq_desired_access = FILE_WRITE_ATTRIBUTES,
      cq_allocation_size = 0, cq_ext_file_attributes = ATTRIBUTE_NORMAL, cq_share_access = SHARE_ALL,
      cq_create_disposition = DISPOSITION_CREATE, cq_create_options = FILE_DIRECTORY_FILE,
      cq_impersonation_level = SEC_IMPERSONATE, cq_security_flags = 0, cq_name = path\<rparr>"

definition create_dir :: "'s link \<Rightarrow> rstr \<Rightarrow> ('s, unit) verb" where
  "create_dir link path =
     obind (pure (share_path_new path)) (\<lambda>path.
     obind (create_andx link (create_dir_request path)) (\<lambda>opened.
     close_handle link (cr_fid opened)))"

definition delete_request :: "u32 \<Rightarrow> rstr \<Rightarrow> nt_create_request" where
  "delete_request kind path =
     \<lparr>cq_flags = 0, cq_root_directory_fid = 0, cq_desired_access = DELETE_ACCESS,
      cq_allocation_size = 0, cq_ext_file_attributes = ATTRIBUTE_NORMAL, cq_share_access = SHARE_ALL,
      cq_create_disposition = DISPOSITION_OPEN, cq_create_options = kind OR FILE_DELETE_ON_CLOSE,
      cq_impersonation_level = SEC_IMPERSONATE, cq_security_flags = 0, cq_name = path\<rparr>"

definition delete_path :: "'s link \<Rightarrow> rstr \<Rightarrow> u32 \<Rightarrow> ('s, unit) verb" where
  "delete_path link path kind =
     obind (pure (share_path_new path)) (\<lambda>path.
     obind (create_andx link (delete_request kind path)) (\<lambda>opened.
     close_handle link (cr_fid opened)))"

definition remove_file :: "'s link \<Rightarrow> rstr \<Rightarrow> ('s, unit) verb" where
  "remove_file link path = delete_path link path FILE_NON_DIRECTORY_FILE"

definition with_leading_backslash :: "rstr \<Rightarrow> rstr" where
  "with_leading_backslash path = (if path \<noteq> [] \<and> hd path = BACKSLASH then path else BACKSLASH # path)"

definition rename_path :: "'s link \<Rightarrow> rstr \<Rightarrow> rstr \<Rightarrow> ('s, unit) verb" where
  "rename_path link from' to' =
     obind (pure (share_path_new from')) (\<lambda>from'.
     obind (pure (share_path_new to')) (\<lambda>to'.
     obind (checked link CMD_RENAME (rename_request_encode_body
       \<lparr>rn_search_attributes = SEARCH_ATTRIBUTES, rn_old_name = with_leading_backslash from',
        rn_new_name = with_leading_backslash to'\<rparr>)) (\<lambda>_.
     pure (Inr ()))))"

definition start_read_dir :: "'s link \<Rightarrow> 's queue \<Rightarrow> rstr \<Rightarrow> ('s, read_dir) verb" where
  "start_read_dir link queue path =
     obind (pure (share_path_new path)) (\<lambda>path. listing_start link queue (search_pattern path))"

section \<open>Metadata\<close>

text \<open>What every information verb does with its reply.\<close>

definition info_transaction :: "'s link \<Rightarrow> trans_request \<Rightarrow> string \<Rightarrow> ('s, reply) verb" where
  "info_transaction link r what =
     obind (tree_transaction link r what) (\<lambda>reply.
     if reply_status reply \<noteq> SUCCESS then tree_refused (reply_status reply) else pure (Inr reply))"

definition query_path :: "'s link \<Rightarrow> rstr \<Rightarrow> u16 \<Rightarrow> ('s, bytes) verb" where
  "query_path link path level =
     obind (info_transaction link
              (trans2_request SUBCOMMAND_QUERY_PATH_INFORMATION (query_path_parameters level path) [])
              ''TRANS2_QUERY_PATH_INFORMATION'') (\<lambda>reply.
     pure (Inr (transaction_data reply)))"

definition metadata_of :: "'s link \<Rightarrow> rstr \<Rightarrow> ('s, metadata) verb" where
  "metadata_of link path =
     obind (pure (share_path_new path)) (\<lambda>path.
     obind (query_path link path QUERY_BASIC_INFO) (\<lambda>basic.
     obind (pure (map_sum from_wire id (basic_info_decode basic))) (\<lambda>basic.
     obind (query_path link path QUERY_STANDARD_INFO) (\<lambda>standard.
     obind (pure (map_sum from_wire id (standard_info_decode standard))) (\<lambda>standard.
     pure (Inr
       \<lparr>md_creation_time = unwrap_or (bi_creation_time basic) 0,
        md_last_access_time = unwrap_or (bi_last_access_time basic) 0,
        md_last_write_time = unwrap_or (bi_last_write_time basic) 0,
        md_change_time = unwrap_or (bi_change_time basic) 0, md_len = si_end_of_file standard,
        md_allocation_size = si_allocation_size standard,
        md_attributes = unwrap_or (bi_attributes basic) 0\<rparr>))))))"

definition path_exists :: "(string \<Rightarrow> io_kind) \<Rightarrow> 's link \<Rightarrow> rstr \<Rightarrow> ('s, bool) verb" where
  "path_exists os link path w =
     (case metadata_of link path w of
        (Inr _, w) \<Rightarrow> (Inr True, w)
      | (Inl e, w) \<Rightarrow> if error_kind os e = KNotFound then (Inr False, w) else (Inl e, w))"

definition remove_dir :: "(string \<Rightarrow> io_kind) \<Rightarrow> 's link \<Rightarrow> rstr \<Rightarrow> ('s, unit) verb" where
  "remove_dir os link path =
     obind (delete_path link path FILE_DIRECTORY_FILE) (\<lambda>_ w.
     case metadata_of link path w of
       (Inl e, w) \<Rightarrow> if error_kind os e = KNotFound then (Inr (), w) else (Inl e, w)
     | (Inr _, w) \<Rightarrow> (Inl (StatusError DIRECTORY_NOT_EMPTY), w))"

definition set_path :: "'s link \<Rightarrow> rstr \<Rightarrow> basic_info \<Rightarrow> ('s, unit) verb" where
  "set_path link path block' =
     obind (pure (share_path_new path)) (\<lambda>path.
     obind (pure (map_sum from_wire id (basic_info_encode block'))) (\<lambda>encoded.
     obind (info_transaction link
              (trans2_request SUBCOMMAND_SET_PATH_INFORMATION (set_path_parameters SET_BASIC_INFO path) encoded)
              ''TRANS2_SET_PATH_INFORMATION'') (\<lambda>_.
     pure (Inr ()))))"

definition set_times ::
  "'s link \<Rightarrow> rstr \<Rightarrow> int option \<Rightarrow> int option \<Rightarrow> int option \<Rightarrow> int option \<Rightarrow> ('s, unit) verb" where
  "set_times link path creation last_access last_write change =
     set_path link path
       \<lparr>bi_creation_time = map_option to_filetime creation, bi_last_access_time = map_option to_filetime last_access,
        bi_last_write_time = map_option to_filetime last_write, bi_change_time = map_option to_filetime change,
        bi_attributes = None\<rparr>"

definition set_attributes :: "'s link \<Rightarrow> rstr \<Rightarrow> u32 \<Rightarrow> ('s, unit) verb" where
  "set_attributes link path attributes =
     (let attributes = (if attributes = 0 then ATTRIBUTE_NORMAL else attributes) in
      set_path link path (basic_info_default\<lparr>bi_attributes := Some attributes\<rparr>))"

section \<open>The volume\<close>

datatype fs_info_level = LevelSize | LevelAllocation

record fs_statistics =
  fs_total_bytes :: u64
  fs_available_bytes :: u64
  fs_level :: fs_info_level

definition query_fs :: "'s link \<Rightarrow> u16 \<Rightarrow> ('s, bytes) verb" where
  "query_fs link level =
     obind (info_transaction link (trans2_request SUBCOMMAND_QUERY_FS_INFORMATION (query_fs_parameters level) [])
              ''TRANS2_QUERY_FS_INFORMATION'') (\<lambda>reply.
     pure (Inr (transaction_data reply)))"

definition volume :: "fs_size \<Rightarrow> fs_info_level \<Rightarrow> fs_statistics" where
  "volume z level =
     \<lparr>fs_total_bytes = fs_bytes z (fz_total_units z), fs_available_bytes = fs_bytes z (fz_free_units z),
      fs_level = level\<rparr>"

definition statistics :: "'s link \<Rightarrow> ('s, fs_statistics) verb" where
  "statistics link w =
     (case query_fs link FS_SIZE_INFO w of
        (Inr data, w) \<Rightarrow> (map_sum from_wire (\<lambda>z. volume z LevelSize) (decode_size_info data), w)
      | (Inl first, w) \<Rightarrow>
          (case query_fs link FS_ALLOCATION w of
             (Inr data, w) \<Rightarrow> (map_sum from_wire (\<lambda>z. volume z LevelAllocation) (decode_allocation data), w)
           | (Inl second, w) \<Rightarrow> (Inl (BothAttemptsFailed ''volume statistics'' first second), w)))"

section \<open>The open file\<close>

definition file_set_len :: "'s link \<Rightarrow> file_handle \<Rightarrow> u64 \<Rightarrow> ('s, file_handle) verb" where
  "file_set_len link f len =
     obind (info_transaction link
              (trans2_request SUBCOMMAND_SET_FILE_INFORMATION
                 (set_file_parameters (fh_fid f) SET_END_OF_FILE_INFORMATION) (le64 len))
              ''TRANS2_SET_FILE_INFORMATION'') (\<lambda>_.
     pure (Inr (f\<lparr>fh_len := len\<rparr>)))"

text \<open>\<open>close\<close> takes the file, so its \<open>Drop\<close> finds it closed.\<close>

definition file_close :: "'s link \<Rightarrow> file_handle \<Rightarrow> ('s, unit) verb" where
  "file_close link f = close_handle link (fh_fid f)"

definition file_drop :: "'s queue \<Rightarrow> file_handle \<Rightarrow> tree_inner \<times> 's \<Rightarrow> tree_inner \<times> 's" where
  "file_drop queue f w =
     (case w of (t, s) \<Rightarrow>
        if fh_closed f then (t, s)
        else
          (case close_request_encode_body \<lparr>cl_fid = fh_fid f, cl_last_time_modified = CLOSE_LEAVES_THE_TIME_ALONE\<rparr> of
             Inr b \<Rightarrow> (t, queue s (request_new CMD_CLOSE (te_tid t) (te_uid t) b))
           | Inl _ \<Rightarrow> (t, s)))"

text \<open>\<open>read\<close> and \<open>write\<close>: the close happens whatever the transfer did, and the transfer's error wins.\<close>

definition closing :: "'s link \<Rightarrow> file_handle \<Rightarrow> ('s, 'a) verb \<Rightarrow> ('s, 'a) verb" where
  "closing link f transfer w =
     (case transfer w of (moved, w) \<Rightarrow>
      case file_close link f w of (closed, w) \<Rightarrow>
        (rbind moved (\<lambda>x. rbind closed (\<lambda>_. Inr x)), w))"

definition read_file :: "'s link \<Rightarrow> (file_handle \<Rightarrow> ('s, bytes) verb) \<Rightarrow> rstr \<Rightarrow> ('s, bytes) verb" where
  "read_file link read_to_end path =
     obind (open_file link path) (\<lambda>f. closing link f (read_to_end f))"

definition write_file ::
  "'s link \<Rightarrow> (file_handle \<Rightarrow> bytes \<Rightarrow> u64 \<Rightarrow> ('s, unit) verb) \<Rightarrow> rstr \<Rightarrow> bytes \<Rightarrow> ('s, unit) verb" where
  "write_file link write_all_at path contents =
     obind (create_file link path) (\<lambda>f. closing link f (write_all_at f contents 0))"

section \<open>The recursive delete\<close>

text \<open>A verb that may not return: the server's tree is as deep, and its listings as long, as it says.\<close>

type_synonym ('s, 'a) walk = "tree_inner \<times> 's \<Rightarrow> ((error + 'a) \<times> tree_inner \<times> 's) option"

definition level_entries :: "'s link \<Rightarrow> 's queue \<Rightarrow> rstr \<Rightarrow> ('s, dir_entry list) walk" where
  "level_entries link queue path w =
     (case start_read_dir link queue path w of
        (Inl e, w) \<Rightarrow> Some (Inl e, w)
      | (Inr d, w) \<Rightarrow>
          Option.bind (drain_listing link [] (d, w)) (\<lambda>(m, d, w).
            case m of
              Inl e \<Rightarrow> Some (Inl e, listing_drop queue (d, w))
            | Inr entries \<Rightarrow>
                (case listing_close link d w of
                   (Inl e, w) \<Rightarrow> Some (Inl e, w)
                 | (Inr _, w) \<Rightarrow> Some (Inr entries, w))))"

text \<open>
  \<open>remove_level\<close> and the loop inside it, as one recursion: \<open>None\<close> is the level's start, \<open>Some\<close> the
  entries left on it.
\<close>

partial_function (option) remove_from ::
  "(string \<Rightarrow> io_kind) \<Rightarrow> 's link \<Rightarrow> 's queue \<Rightarrow> rstr \<Rightarrow> dir_entry list option \<Rightarrow> ('s, unit) walk" where
  "remove_from os link queue path left w =
     (case left of
        None \<Rightarrow>
          Option.bind (level_entries link queue path w) (\<lambda>(m, w).
            case m of
              Inl e \<Rightarrow> Some (Inl e, w)
            | Inr entries \<Rightarrow> remove_from os link queue path (Some entries) w)
      | Some [] \<Rightarrow> Some (remove_dir os link path w)
      | Some (e # es) \<Rightarrow>
          Option.bind
            (if entry_is_dir e then remove_from os link queue (path_join path (dn_name e)) None w
             else Some (remove_file link (path_join path (dn_name e)) w)) (\<lambda>(m, w).
            case m of
              Inl err \<Rightarrow> Some (Inl err, w)
            | Inr _ \<Rightarrow> remove_from os link queue path (Some es) w))"

definition remove_dir_all :: "(string \<Rightarrow> io_kind) \<Rightarrow> 's link \<Rightarrow> 's queue \<Rightarrow> rstr \<Rightarrow> ('s, unit) walk" where
  "remove_dir_all os link queue path w =
     (case share_path_new path of
        Inl e \<Rightarrow> Some (Inl e, w)
      | Inr path \<Rightarrow> remove_from os link queue path None w)"

section \<open>Nothing is deleted silently wrong\<close>

definition gone :: "(string \<Rightarrow> io_kind) \<Rightarrow> 's link \<Rightarrow> rstr \<Rightarrow> tree_inner \<times> 's \<Rightarrow> bool" where
  "gone os link path w' \<longleftrightarrow> (\<exists>w e. metadata_of link path w = (Inl e, w') \<and> error_kind os e = KNotFound)"

lemma remove_dir_Inr:
  assumes "remove_dir os link path w = (Inr (), w')"
  shows "gone os link path w'"
proof -
  obtain w1 where w1: "(case metadata_of link path w1 of
       (Inl e, w) \<Rightarrow> if error_kind os e = KNotFound then (Inr (), w) else (Inl e, w)
     | (Inr _, w) \<Rightarrow> (Inl (StatusError DIRECTORY_NOT_EMPTY), w)) = (Inr (), w')"
    using assms by (auto simp: remove_dir_def obind_Inr_iff)
  obtain m w2 where m: "metadata_of link path w1 = (m, w2)" by (metis prod.exhaust)
  show ?thesis
  proof (cases m)
    case (Inl e)
    then have "metadata_of link path w1 = (Inl e, w') \<and> error_kind os e = KNotFound"
      using w1 m by (simp split: if_splits)
    then show ?thesis unfolding gone_def by blast
  next
    case (Inr _)
    then show ?thesis using w1 m by simp
  qed
qed

lemma remove_from_Inr:
  assumes "remove_from os link queue path left w = Some (m, w')" and "\<not> isl m"
  shows "gone os link path w'"
proof -
  have "\<not> isl (fst (m, w')) \<longrightarrow> gone os link path (snd (m, w'))"
  proof (rule remove_from.raw_induct
      [where P = "\<lambda>os link queue path left w y. \<not> isl (fst y) \<longrightarrow> gone os link path (snd y)", OF _ assms(1)],
      goal_cases)
    case (1 self os link queue path left w y)
    note unfolded = 1(2) and ih = 1(1)
    show ?case
    proof (cases left)
      case None
      obtain m1 w1 where l: "level_entries link queue path w = Some (m1, w1)"
        using unfolded None by (cases "level_entries link queue path w") auto
      show ?thesis
        using unfolded None l ih by (cases m1) auto
    next
      case (Some es)
      show ?thesis
      proof (cases es)
        case Nil
        have "remove_dir os link path w = y" using unfolded Some Nil by simp
        then show ?thesis using remove_dir_Inr [of os link path w "snd y"] by (cases y; cases "fst y") auto
      next
        case (Cons e rest)
        let ?first = "if entry_is_dir e then self os link queue (path_join path (dn_name e)) None w
             else Some (remove_file link (path_join path (dn_name e)) w)"
        obtain m1 w1 where l: "?first = Some (m1, w1)"
          using unfolded Some Cons by (cases ?first) auto
        show ?thesis
          using unfolded Some Cons l ih by (cases m1) auto
      qed
    qed
  qed
  then show ?thesis using assms(2) by simp
qed

text \<open>
  C14. A directory reported deleted is gone: when \<open>remove_dir_all\<close> succeeds, the last thing the server
  said of the path, asked after the delete and its close, was that nothing is there.
\<close>

theorem remove_dir_all_confirmed:
  assumes "remove_dir_all os link queue path w = Some (Inr (), w')"
  shows "\<exists>p. share_path_new path = Inr p \<and> gone os link p w'"
  using assms remove_from_Inr [of os link queue _ None w "Inr ()" w']
  by (auto simp: remove_dir_all_def split: sum.splits)

section \<open>No handle is leaked\<close>

text \<open>
  The handles the server has given out and not been asked to close, read off the wire.
\<close>

definition handles_after :: "request \<Rightarrow> conn_error + reply \<Rightarrow> u16 list \<Rightarrow> u16 list" where
  "handles_after r m fids =
     (if rq_command r = CMD_CLOSE then
        filter (\<lambda>fid. close_request_encode_body \<lparr>cl_fid = fid, cl_last_time_modified = CLOSE_LEAVES_THE_TIME_ALONE\<rparr>
                       \<noteq> Inr (rq_body r)) fids
      else if rq_command r = CMD_NT_CREATE_ANDX then
        (case m of
           Inl _ \<Rightarrow> fids
         | Inr reply \<Rightarrow>
             if reply_status reply \<noteq> SUCCESS then fids
             else (case nt_create_response_decode (rp_message reply) of Inl _ \<Rightarrow> fids | Inr c \<Rightarrow> cr_fid c # fids))
      else fids)"

definition holding :: "'s link \<Rightarrow> ('s \<times> u16 list) link" where
  "holding link w r = (case w of (s, fids) \<Rightarrow> let (m, s) = link s r in (m, s, handles_after r m fids))"

abbreviation handles :: "tree_inner \<times> 's \<times> u16 list \<Rightarrow> u16 list" where
  "handles w \<equiv> snd (snd w)"

text \<open>A verb that leaves the handles as they are.\<close>

definition keeps :: "('s \<times> u16 list, 'a) verb \<Rightarrow> bool" where
  "keeps m \<longleftrightarrow> (\<forall>w. handles (snd (m w)) = handles w)"

lemma keeps_pure [intro]: "keeps (pure r)"
  by (simp add: keeps_def pure_def)

lemma obind_keeps:
  assumes "\<And>x. keeps (f x)"
  shows "handles (snd (obind m f w)) = handles (snd (m w))"
proof -
  obtain r w1 where m: "m w = (r, w1)" by (cases "m w")
  show ?thesis using assms [unfolded keeps_def, rule_format] by (cases r) (simp_all add: obind_def m)
qed

lemma keeps_obind [intro]: "keeps m \<Longrightarrow> (\<And>x. keeps (f x)) \<Longrightarrow> keeps (obind m f)"
  unfolding keeps_def [of "obind m f"] by (auto simp: obind_keeps) (simp add: keeps_def)

lemma keeps_refused [intro]: "keeps (tree_refused status)"
  by (simp add: keeps_def tree_refused_def split: prod.splits)

lemma keeps_if_refused: "keeps (if P then tree_refused status else pure r)"
  by auto

text \<open>What one request does to the handles.\<close>

lemma tree_request_Inl: "tree_request link command (Inl e) (t, s) = (Inl (from_wire e), t, s)"
  by (simp add: tree_request_def send_def)

lemma tree_request_handles:
  "tree_request (holding link) command (Inr b) (t, s, fids) =
     (let r = request_new command (te_tid t) (te_uid t) b; (m, s') = link s r in
      (map_sum from_connection id m, t, s', handles_after r m fids))"
  by (simp add: tree_request_def send_def holding_def Let_def split: prod.splits)

lemma keeps_request:
  assumes "command \<noteq> CMD_CLOSE" "command \<noteq> CMD_NT_CREATE_ANDX"
  shows "keeps (tree_request (holding link) command encoded)"
  unfolding keeps_def
proof
  fix w :: "tree_inner \<times> 'a \<times> u16 list"
  obtain t s fids where w: "w = (t, s, fids)" by (metis prod.exhaust)
  show "handles (snd (tree_request (holding link) command encoded w)) = handles w"
  proof (cases encoded)
    case (Inl e)
    then show ?thesis by (simp add: w tree_request_Inl)
  next
    case (Inr b)
    have "handles_after (request_new command (te_tid t) (te_uid t) b) m fids = fids" for m
      using assms by (simp add: handles_after_def request_new_def)
    then show ?thesis by (simp add: w Inr tree_request_handles Let_def split: prod.splits)
  qed
qed

lemma keeps_checked:
  "command \<noteq> CMD_CLOSE \<Longrightarrow> command \<noteq> CMD_NT_CREATE_ANDX \<Longrightarrow> keeps (checked (holding link) command b)"
  unfolding checked_def by (intro keeps_obind keeps_request) auto

lemma keeps_transaction: "tr_command r = CMD_TRANSACTION2 \<Longrightarrow> keeps (tree_transaction (holding link) r what)"
  by (auto simp: keeps_def tree_transaction_def holding_def handles_after_def request_transaction_def
      command_defs Let_def split: prod.splits sum.splits)

lemma keeps_info: "tr_command r = CMD_TRANSACTION2 \<Longrightarrow> keeps (info_transaction (holding link) r what)"
  unfolding info_transaction_def by (intro keeps_obind keeps_transaction) auto

lemma keeps_metadata: "keeps (metadata_of (holding link) path)"
  unfolding metadata_of_def query_path_def by (intro keeps_obind keeps_pure keeps_info) simp_all

text \<open>An open adds the handle it returns, and nothing where it fails; a close takes it away.\<close>

lemma close_handle_handles:
  "handles (snd (close_handle (holding link) fid w)) = filter (\<lambda>f. f \<noteq> fid) (handles w)"
proof -
  obtain t s fids where w: "w = (t, s, fids)" by (metis prod.exhaust)
  have inj: "wr_close_request_words x = wr_close_request_words y \<Longrightarrow> x = y" for x y
    using close_words.rd_wr [of x "[]"] close_words.rd_wr [of y "[]"] by simp
  have enc: "(close_request_encode_body \<lparr>cl_fid = f, cl_last_time_modified = CLOSE_LEAVES_THE_TIME_ALONE\<rparr>
      = close_request_encode_body \<lparr>cl_fid = fid, cl_last_time_modified = CLOSE_LEAVES_THE_TIME_ALONE\<rparr>) \<longleftrightarrow> f = fid" for f
    by (auto simp: close_request_encode_body_def body_def close_words.length_wr dest!: inj)
  obtain b where b: "close_request_encode_body \<lparr>cl_fid = fid, cl_last_time_modified = CLOSE_LEAVES_THE_TIME_ALONE\<rparr> = Inr b"
    by (simp add: close_request_encode_body_def)
  have enc: "close_request_encode_body \<lparr>cl_fid = f, cl_last_time_modified = CLOSE_LEAVES_THE_TIME_ALONE\<rparr> = Inr b \<longleftrightarrow> f = fid" for f
    using enc [of f] b by simp
  have req: "handles (snd (tree_request (holding link) CMD_CLOSE (Inr b) (t, s, fids))) = filter (\<lambda>f. f \<noteq> fid) fids"
    using enc by (simp add: tree_request_handles handles_after_def request_new_def b Let_def split: prod.splits)
  show ?thesis
    unfolding close_handle_def checked_def w b
    by (simp only: obind_keeps [OF keeps_pure] obind_keeps [OF keeps_if_refused] req snd_conv)
qed

lemma create_andx_handles:
  "case create_andx (holding link) r w of
     (Inl e, w') \<Rightarrow> handles w' = handles w
   | (Inr c, w') \<Rightarrow> handles w' = cr_fid c # handles w"
proof -
  obtain t s fids where w: "w = (t, s, fids)" by (metis prod.exhaust)
  have cmd: "CMD_NT_CREATE_ANDX \<noteq> CMD_CLOSE" by (simp add: command_defs)
  show ?thesis
  proof (cases "nt_create_request_encode_body r")
    case (Inl e)
    then show ?thesis by (simp add: create_andx_def checked_def w tree_request_Inl obind_def)
  next
    case (Inr b)
    obtain m s' where l: "link s (request_new CMD_NT_CREATE_ANDX (te_tid t) (te_uid t) b) = (m, s')"
      by (metis prod.exhaust)
    have req: "tree_request (holding link) CMD_NT_CREATE_ANDX (Inr b) (t, s, fids) =
        (map_sum from_connection id m, t, s',
         handles_after (request_new CMD_NT_CREATE_ANDX (te_tid t) (te_uid t) b) m fids)"
      by (simp add: tree_request_handles l)
    note unfolded = create_andx_def checked_def w Inr req obind_def handles_after_def request_new_def cmd pure_def
    show ?thesis
    proof (cases m)
      case (Inl e)
      then show ?thesis by (simp add: unfolded)
    next
      case (Inr reply)
      then show ?thesis
        by (cases "reply_status reply = SUCCESS"; cases "nt_create_response_decode (rp_message reply)")
           (simp_all add: unfolded tree_refused_def)
    qed
  qed
qed

text \<open>An open followed by what closes its handle, whatever came between, leaves none.\<close>

lemma opened_then_closed:
  assumes "\<And>c w. handles w = [cr_fid c] \<Longrightarrow> handles (snd (f c w)) = []" and "handles w = []"
  shows "handles (snd (obind (create_andx (holding link) r) f w)) = []"
  using create_andx_handles [where link = link and r = r and w = w] assms by (auto simp: obind_def split: prod.splits sum.splits)

lemma close_only: "handles w = [fid] \<Longrightarrow> handles (snd (close_handle (holding link) fid w)) = []"
  by (simp add: close_handle_handles)

lemma delete_path_handles: "handles w = [] \<Longrightarrow> handles (snd (delete_path (holding link) path kind w)) = []"
  unfolding delete_path_def
  by (cases "share_path_new path") (auto simp: pure_def obind_def [of "pure _"] intro!: opened_then_closed close_only)

lemma create_dir_handles: "handles w = [] \<Longrightarrow> handles (snd (create_dir (holding link) path w)) = []"
  unfolding create_dir_def
  by (cases "share_path_new path") (auto simp: pure_def obind_def [of "pure _"] intro!: opened_then_closed close_only)

lemma remove_dir_handles:
  assumes "handles w = []"
  shows "handles (snd (remove_dir os (holding link) path w)) = []"
proof -
  obtain r w1 where d: "delete_path (holding link) path FILE_DIRECTORY_FILE w = (r, w1)" by (metis prod.exhaust)
  obtain m w2 where m: "metadata_of (holding link) path w1 = (m, w2)" by (metis prod.exhaust)
  have "handles w1 = []" using delete_path_handles [OF assms, of link path FILE_DIRECTORY_FILE] d by simp
  moreover have "handles w2 = handles w1"
    using keeps_metadata [of link path] m unfolding keeps_def by (metis snd_conv)
  ultimately show ?thesis
    by (cases r; cases m) (simp_all add: remove_dir_def obind_def d m)
qed

lemma closing_handles:
  assumes "keeps transfer" "handles w = [fh_fid f]"
  shows "handles (snd (closing (holding link) f transfer w)) = []"
proof -
  obtain m w1 where m: "transfer w = (m, w1)" by (metis prod.exhaust)
  have "handles w1 = [fh_fid f]" using assms m unfolding keeps_def by (metis snd_conv)
  then show ?thesis by (simp add: closing_def m file_close_def close_only split: prod.splits) (metis close_only snd_conv)
qed

lemma open_closing_handles:
  assumes "\<And>f. keeps (transfer f)" "handles w = []"
  shows "handles (snd (obind (open_with (holding link) path o') (\<lambda>f. closing (holding link) f (transfer f)) w)) = []"
proof (cases "share_path_new path")
  case (Inl e)
  then show ?thesis using assms by (simp add: open_with_def obind_def pure_def)
next
  case (Inr p)
  have "handles (snd (obind (create_andx (holding link) (open_request o' p)) (\<lambda>c.
      closing (holding link) (file_new (cr_fid c) (cr_end_of_file c) (oo_append o'))
        (transfer (file_new (cr_fid c) (cr_end_of_file c) (oo_append o')))) w)) = []"
    by (rule opened_then_closed [OF _ assms(2)]) (auto intro!: closing_handles assms(1) simp: file_new_def)
  then show ?thesis
    by (auto simp: open_with_def obind_def pure_def Inr split: prod.splits sum.splits)
qed

text \<open>
  C13. No verb leaks a handle, whatever the server answers and wherever it fails: with every handle
  closed before it, every handle the server gave out has been asked closed when creating a directory,
  deleting a file or a directory, or reading or writing a whole file returns, the transfer's own
  failure included.
\<close>

theorem no_handle_leaked:
  assumes "handles w = []"
    and "\<And>f. keeps (reading f)" and "\<And>f. keeps (writing f contents 0)"
  shows "handles (snd (create_dir (holding link) path w)) = []
    \<and> handles (snd (remove_file (holding link) path w)) = []
    \<and> handles (snd (remove_dir os (holding link) path w)) = []
    \<and> handles (snd (read_file (holding link) reading path w)) = []
    \<and> handles (snd (write_file (holding link) writing path contents w)) = []"
  using assms
  by (simp add: create_dir_handles delete_path_handles remove_dir_handles open_closing_handles
      remove_file_def read_file_def write_file_def open_file_def create_file_def)

section \<open>A scripted server\<close>

definition script :: "(conn_error + reply) list link" where
  "script w r = (case w of [] \<Rightarrow> (Inl Timeout, []) | m # rest \<Rightarrow> (m, rest))"

definition plain :: "u8 \<Rightarrow> nt_status \<Rightarrow> reply" where
  "plain command status =
     \<lparr>rp_message = \<lparr>header = (header_request command)\<lparr>h_status := status\<rparr>, m_bytes = [], word_count = 0, byte_count = 0\<rparr>,
      rp_transaction = None\<rparr>"

definition grant :: "u16 \<Rightarrow> nt_create_response" where
  "grant fid =
     \<lparr>cr_andx = ANDX_NONE, cr_oplock_level = 0, cr_fid = fid, cr_create_action = 1, cr_creation_time = 0,
      cr_last_access_time = 0, cr_last_write_time = 0, cr_change_time = 0, cr_ext_file_attributes = 0,
      cr_allocation_size = 0, cr_end_of_file = 0, cr_resource_type = 0, cr_nm_pipe_status = 0, cr_directory = 0\<rparr>"

definition granted :: "u16 \<Rightarrow> reply" where
  "granted fid =
     \<lparr>rp_message = built (header_request CMD_NT_CREATE_ANDX)
        (case nt_create_response_encode_body (grant fid) of Inr b \<Rightarrow> take 68 (drop 1 b)) [],
      rp_transaction = None\<rparr>"

lemma plain_status [simp]: "reply_status (plain command status) = status"
  by (simp add: plain_def reply_status_def)

lemma granted_simps [simp]:
  "reply_status (granted fid) = SUCCESS"
  "nt_create_response_decode (rp_message (granted fid)) = Inr (grant fid)"
proof -
  let ?h = "header_request CMD_NT_CREATE_ANDX"
  show "reply_status (granted fid) = SUCCESS"
    by (simp add: granted_def reply_status_def)
  obtain ws where ws: "nt_create_response_encode_body (grant fid) = Inr (body (wr_create_response_words ws) [])"
    by (simp add: nt_create_response_encode_body_def Let_def)
  have "delivered ?h (nt_create_response_encode_body (grant fid)) nt_create_response_decode = Inr (grant fid)"
    by (rule create_response_roundtrip) (simp_all add: grant_def ANDX_NONE_def)
  moreover have "wf_words (wr_create_response_words ws)"
    by (simp add: wf_words_def create_response.length_wr)
  ultimately show "nt_create_response_decode (rp_message (granted fid)) = Inr (grant fid)"
    by (simp only: ws delivered_body [OF wf_header_request])
       (simp add: granted_def ws body_def create_response.length_wr le8_def)
qed

lemma script_request:
  "tree_request script command (Inr b) (t, m # ms) = (map_sum from_connection id m, t, ms)"
  by (simp add: tree_request_def send_def script_def)

lemma script_transaction:
  assumes "length ps \<le> 3000"
  shows "tree_transaction script (trans2_request c ps []) what (t, m # ms) = (map_sum from_connection id m, t, ms)"
  using trans2_sent [OF assms, of script c what t "m # ms"] by (auto simp: script_def)

lemma script_opened:
  "create_andx script (delete_request kind (lit ''a'')) (demo_tree, Inr (granted fid) # ms)
     = (Inr (grant fid), demo_tree, ms)"
  by (simp add: create_andx_def checked_def obind_def pure_def script_request delete_request_def
      nt_create_request_encode_body_def Let_def lit_def align_to_2 file_word_counts area_offset_def
      require_word_aligned_def HEADER_LEN_def NAME_ALIGNMENT_def)

lemma share_path_a: "share_path_new (lit ''a'') = Inr (lit ''a'')"
  by code_simp

lemma script_deleted:
  "delete_path script (lit ''a'') kind (demo_tree, Inr (granted fid) # Inr (plain CMD_CLOSE SUCCESS) # ms)
     = (Inr (), demo_tree, ms)"
  by (simp add: delete_path_def script_opened obind_def pure_def close_handle_def checked_def share_path_a
      close_request_encode_body_def Let_def script_request grant_def)

lemma script_missing:
  "metadata_of script (lit ''a'') (demo_tree, Inr (plain CMD_TRANSACTION2 OBJECT_NAME_NOT_FOUND) # ms)
     = (Inl (StatusError OBJECT_NAME_NOT_FOUND), demo_tree, ms)"
proof -
  have "length (query_path_parameters l (lit ''a'')) \<le> 3000" for l
    by (simp add: query_path_parameters_def utf16z_def lit_def utf16_char_def)
  then show ?thesis
    by (simp add: metadata_of_def query_path_def info_transaction_def obind_def pure_def share_path_a
        script_transaction tree_refused_def refused_def OBJECT_NAME_NOT_FOUND_def SUCCESS_def
        INSUFF_SERVER_RESOURCES_def NETWORK_NAME_DELETED_def USER_SESSION_DELETED_def)
qed

lemma script_empty_level:
  "level_entries script queue (lit ''a'') (demo_tree, Inr (plain CMD_TRANSACTION2 NO_MORE_FILES) # ms)
     = Some (Inr [], demo_tree, ms)"
proof -
  define ps where "ps = wr_find_first2_words
    \<lparr>ff_search_attributes = SEARCH_ATTRIBUTES, ff_search_count = BATCH, ff_flags = FIRST_FLAGS,
     ff_information_level = INFO_LEVEL_BOTH_DIRECTORY_INFO, ff_search_storage_type = 0\<rparr>
    @ utf16z (search_pattern (lit ''a''))"
  let ?d = "(listing_new (search_pattern (lit ''a'')))\<lparr>rl_finished := True\<rparr>"
  have "length ps \<le> 3000"
    by (simp add: ps_def find_first2.length_wr utf16z_def lit_def utf16_char_def search_pattern_def BACKSLASH_def)
  then have "page_in script (trans2_request SUBCOMMAND_FIND_FIRST2 ps []) ''TRANS2_FIND_FIRST2'' True
      (listing_new (search_pattern (lit ''a'')), demo_tree, Inr (plain CMD_TRANSACTION2 NO_MORE_FILES) # ms)
      = (Inr (), ?d, demo_tree, ms)"
    by (simp add: page_in_def script_transaction)
  then have "listing_start script queue (search_pattern (lit ''a''))
      (demo_tree, Inr (plain CMD_TRANSACTION2 NO_MORE_FILES) # ms) = (Inr ?d, demo_tree, ms)"
    unfolding listing_start_def find_first2_params_encode_def ps_def by simp
  then have "start_read_dir script queue (lit ''a'') (demo_tree, Inr (plain CMD_TRANSACTION2 NO_MORE_FILES) # ms)
      = (Inr ?d, demo_tree, ms)"
    by (simp add: start_read_dir_def share_path_a)
  then show ?thesis
    by (simp add: level_entries_def drain_finished listing_close_def listing_new_def pure_def)
qed

theorem remove_dir_all_confirmed_witness:
  "\<exists>w'. remove_dir_all (\<lambda>_. KOther) script (\<lambda>s r. s) (lit ''a'')
      (demo_tree, [Inr (plain CMD_TRANSACTION2 NO_MORE_FILES), Inr (granted 7), Inr (plain CMD_CLOSE SUCCESS),
                   Inr (plain CMD_TRANSACTION2 OBJECT_NAME_NOT_FOUND)]) = Some (Inr (), w')
    \<and> gone (\<lambda>_. KOther) script (lit ''a'') w'"
proof -
  have k: "status_kind OBJECT_NAME_NOT_FOUND = KNotFound" by (simp add: status_kind_def)
  have "remove_dir_all (\<lambda>_. KOther) script (\<lambda>s r. s) (lit ''a'')
      (demo_tree, [Inr (plain CMD_TRANSACTION2 NO_MORE_FILES), Inr (granted 7), Inr (plain CMD_CLOSE SUCCESS),
                   Inr (plain CMD_TRANSACTION2 OBJECT_NAME_NOT_FOUND)]) = Some (Inr (), demo_tree, [])"
    by (simp add: remove_dir_all_def share_path_a remove_from.simps [of _ _ _ _ None]
        remove_from.simps [of _ _ _ _ "Some []"] script_empty_level remove_dir_def script_deleted obind_def
        script_missing k)
  from remove_dir_all_confirmed [OF this] this show ?thesis by (auto simp: share_path_a)
qed

text \<open>A file opened for deleting whose close the connection loses.\<close>

theorem no_handle_leaked_witness:
  "remove_file script (lit ''a'') (demo_tree, [Inr (granted 7), Inl Timeout]) = (Inl RequestTimeout, demo_tree, [])
   \<and> handles (snd (remove_file (holding script) (lit ''a'') (demo_tree, [Inr (granted 7), Inl Timeout], []))) = []"
proof -
  have "remove_file script (lit ''a'') (demo_tree, [Inr (granted 7), Inl Timeout]) = (Inl RequestTimeout, demo_tree, [])"
    by (simp add: remove_file_def delete_path_def script_opened obind_def pure_def close_handle_def checked_def
        share_path_a close_request_encode_body_def Let_def script_request grant_def from_connection_def)
  with no_handle_leaked [of "(demo_tree, [Inr (granted 7), Inl Timeout], [])" "\<lambda>_. pure (Inr [])"
      "\<lambda>_ _ _. pure (Inr ())" "[]" script "lit ''a''" "\<lambda>_. KOther"]
  show ?thesis by (simp add: keeps_pure)
qed

section \<open>Where the code and its documentation part\<close>

text \<open>A modern volume reply too short to read is an error, not a reason to try the legacy level.\<close>

lemma short_volume_no_fallback:
  assumes "query_fs link FS_SIZE_INFO w = (Inr data, w')" and "length data < 24"
  shows "statistics link w = (Inl (from_wire (Truncated ''SMB_QUERY_FS_SIZE_INFO'' 24 (length data))), w')"
  using assms by (simp add: statistics_def decode_size_info_def slice_at_def)

text \<open>
  The recursive delete joins an entry's name to its directory and normalizes the result as a caller's
  path, which trims it: an entry whose name ends in a no-break space is deleted as its sibling.
\<close>

lemma trim_no_break_space: "trim (p @ [0xA0]) = trim p"
proof (cases "dropWhile is_whitespace p")
  case Nil
  then have "\<forall>c \<in> set p. is_whitespace c" by simp
  moreover have "is_whitespace 0xA0" by (simp add: is_whitespace_def)
  ultimately have "dropWhile is_whitespace (p @ [0xA0]) = []" by (auto dest: set_dropWhileD)
  then show ?thesis by (simp only: trim_def Nil)
next
  case (Cons c cs)
  then have "\<not> (\<forall>c \<in> set p. is_whitespace c)" by (metis dropWhile_eq_Nil_conv list.distinct(1))
  then have "dropWhile is_whitespace (p @ [0xA0]) = dropWhile is_whitespace p @ [0xA0]"
    by (auto simp: dropWhile_append1)
  then show ?thesis by (simp add: trim_def is_whitespace_def)
qed

lemma sibling_deleted:
  "delete_path link (p @ [0xA0]) kind = delete_path link p kind"
  by (simp add: delete_path_def share_path_new_def trim_no_break_space)

text \<open>1601-01-01 as a modification time asks for nothing to be changed.\<close>

lemma epoch_not_set:
  "set_times link path None None (Some (- (FILETIME_EPOCH_TICKS * 100))) None w
     = set_times link path None None None None w"
  by (simp add: set_times_def set_path_def basic_info_encode_def epoch_is_no_change)

end
