(* ===== verification/Adapter.thy ===== *)
theory Adapter
  imports Verbs
begin

text \<open>
  The stream adapters (\<open>resource/adapter.rs\<close>).  A future is what it was started with; polling it asks a
  parameter, which may say it is not ready yet (\<open>None\<close>).  A fill gives the contiguous prefix of the span
  it read and whether it saw the far end.  The reader delivers a file's bytes in order and reports its end
  only there; the writer hands over what it accepted, at consecutive offsets, losing nothing.
\<close>

section \<open>The reader\<close>

type_synonym 's filler = "'s \<Rightarrow> u64 \<Rightarrow> nat \<Rightarrow> (error + bytes \<times> bool) option \<times> 's"

record file_reader =
  rdr_cursor :: u64
  rdr_depth :: nat
  rdr_buffer :: bytes
  rdr_taken :: nat
  rdr_at_end :: bool
  rdr_filling :: "(u64 \<times> nat) option"

definition file_reader_new :: "nat \<Rightarrow> file_reader" where
  "file_reader_new depth =
     \<lparr>rdr_cursor = 0, rdr_depth = depth, rdr_buffer = [], rdr_taken = 0, rdr_at_end = False, rdr_filling = None\<rparr>"

definition rdr_held :: "file_reader \<Rightarrow> nat" where
  "rdr_held r = length (rdr_buffer r) - rdr_taken r"

text \<open>\<open>poll_read\<close> with \<open>spare\<close> bytes left in the caller's buffer: what it puts there, or pending.\<close>

function poll_read ::
  "'s filler \<Rightarrow> nat \<Rightarrow> file_reader \<Rightarrow> 's \<Rightarrow> (error + bytes) option \<times> file_reader \<times> 's" where
  "poll_read fill spare r s =
     (if 0 < rdr_held r then
        let taking = min (rdr_held r) spare in
        (Some (Inr (take taking (drop (rdr_taken r) (rdr_buffer r)))), r\<lparr>rdr_taken := rdr_taken r + taking\<rparr>, s)
      else if rdr_at_end r then (Some (Inr []), r, s)
      else
        let asked = unwrap_or (rdr_filling r) (rdr_cursor r, rdr_depth r) in
        (case fill s (fst asked) (snd asked) of
           (None, s) \<Rightarrow> (None, r\<lparr>rdr_filling := Some asked\<rparr>, s)
         | (Some (Inl e), s) \<Rightarrow> (Some (Inl e), r\<lparr>rdr_filling := None\<rparr>, s)
         | (Some (Inr (span, at_end)), s) \<Rightarrow>
             poll_read fill spare
               (r\<lparr>rdr_filling := None, rdr_cursor := rdr_cursor r + of_nat (length span), rdr_buffer := span,
                  rdr_taken := 0, rdr_at_end := (at_end \<or> length span = 0)\<rparr>) s))"
  by pat_completeness auto
termination
  by (relation "measure (\<lambda>(_, _, r, _). if 0 < rdr_held r then 0 else if rdr_at_end r then 1 else (2 :: nat))")
     (auto simp: rdr_held_def split: if_splits)

declare poll_read.simps [simp del]

section \<open>The writer\<close>

type_synonym 's flusher = "'s \<Rightarrow> u64 \<Rightarrow> bytes \<Rightarrow> (error + unit) option \<times> 's"

record file_writer =
  fw_file :: file_handle
  fw_issuing :: bool
  fw_cursor :: u64
  fw_capacity :: nat
  fw_buffer :: bytes
  fw_flushing :: "(u64 \<times> bytes) option"
  fw_pending_length :: "u64 option"

text \<open>\<open>registered\<close> is what registering the progress handle at the cursor returned.\<close>

definition file_writer_new :: "connection \<Rightarrow> nat \<Rightarrow> (u64 \<Rightarrow> error + unit) \<Rightarrow> file_handle \<Rightarrow> error + file_writer" where
  "file_writer_new c depth registered f =
     (let cursor = start_of_writes f in
      rbind (registered cursor) (\<lambda>_.
      Inr \<lparr>fw_file = f, fw_issuing = True, fw_cursor = cursor, fw_capacity = max (write_chunk_size c) 1 * depth,
           fw_buffer = [], fw_flushing = None, fw_pending_length = None\<rparr>))"

definition fw_settle :: "error + unit \<Rightarrow> file_writer \<Rightarrow> file_writer" where
  "fw_settle outcome w =
     (case (outcome, fw_pending_length w) of
        (Inr _, Some len) \<Rightarrow> w\<lparr>fw_pending_length := None, fw_file := grew_to len (fw_file w)\<rparr>
      | _ \<Rightarrow> w\<lparr>fw_pending_length := None\<rparr>)"

definition start_flush :: "file_writer \<Rightarrow> file_writer" where
  "start_flush w =
     (if fw_buffer w = [] \<or> fw_flushing w \<noteq> None then w
      else
        let span = fw_buffer w; at' = fw_cursor w; cursor = fw_cursor w + of_nat (length span) in
        w\<lparr>fw_buffer := [], fw_cursor := cursor, fw_pending_length := Some cursor, fw_flushing := Some (at', span)\<rparr>)"

definition poll_flushing :: "'s flusher \<Rightarrow> file_writer \<Rightarrow> 's \<Rightarrow> (error + unit) option \<times> file_writer \<times> 's" where
  "poll_flushing flush w s =
     (case fw_flushing w of
        None \<Rightarrow> (Some (Inr ()), w, s)
      | Some (at', span) \<Rightarrow>
          (case flush s at' span of
             (None, s) \<Rightarrow> (None, w, s)
           | (Some outcome, s) \<Rightarrow> (Some outcome, fw_settle outcome (w\<lparr>fw_flushing := None, fw_buffer := []\<rparr>), s)))"

definition poll_write :: "'s flusher \<Rightarrow> bytes \<Rightarrow> file_writer \<Rightarrow> 's \<Rightarrow> (error + nat) option \<times> file_writer \<times> 's" where
  "poll_write flush data w s =
     (case poll_flushing flush w s of
        (None, w, s) \<Rightarrow> (None, w, s)
      | (Some (Inl e), w, s) \<Rightarrow> (Some (Inl e), w, s)
      | (Some (Inr _), w, s) \<Rightarrow>
          if data = [] then (Some (Inr 0), w, s)
          else
            let taking = min (fw_capacity w - length (fw_buffer w)) (length data);
                w = w\<lparr>fw_buffer := fw_buffer w @ take taking data\<rparr>;
                w = (if fw_capacity w \<le> length (fw_buffer w) then start_flush w else w)
            in (Some (Inr taking), w, s))"

function poll_flush :: "'s flusher \<Rightarrow> file_writer \<Rightarrow> 's \<Rightarrow> (error + unit) option \<times> file_writer \<times> 's" where
  "poll_flush flush w s =
     (case poll_flushing flush w s of
        (None, w, s) \<Rightarrow> (None, w, s)
      | (Some (Inl e), w, s) \<Rightarrow> (Some (Inl e), w, s)
      | (Some (Inr _), w', s) \<Rightarrow>
          if fw_buffer w' = [] then (Some (Inr ()), w', s) else poll_flush flush (start_flush w') s)"
  by pat_completeness auto
termination
  by (relation "measure (\<lambda>(_, w, _). if fw_flushing w = None then 1 else (0 :: nat))")
     (auto simp: poll_flushing_def start_flush_def fw_settle_def Let_def split: option.splits prod.splits sum.splits)

declare poll_flush.simps [simp del]

text \<open>\<open>into_inner\<close>: both writes are awaited, so \<open>written\<close> answers for good.\<close>

definition flush_buffered ::
  "('s \<Rightarrow> u64 \<Rightarrow> bytes \<Rightarrow> (error + unit) \<times> 's) \<Rightarrow> file_writer \<Rightarrow> 's \<Rightarrow> (error + unit) \<times> file_writer \<times> 's" where
  "flush_buffered written w s =
     (let (earlier, w, s) =
        (case fw_flushing w of
           None \<Rightarrow> (Inr (), w, s)
         | Some (at', span) \<Rightarrow>
             (let (outcome, s) = written s at' span in
              (outcome, fw_settle outcome (w\<lparr>fw_flushing := None, fw_buffer := []\<rparr>), s)))
      in case earlier of
           Inl e \<Rightarrow> (Inl e, w, s)
         | Inr _ \<Rightarrow>
             if fw_buffer w = [] then (Inr (), w, s)
             else
               let span = fw_buffer w; (outcome, s) = written s (fw_cursor w) span;
                   cursor = fw_cursor w + of_nat (length span);
                   w = fw_settle outcome (w\<lparr>fw_cursor := cursor, fw_pending_length := Some cursor\<rparr>)
               in (outcome, w\<lparr>fw_buffer := []\<rparr>, s))"

definition writer_into_inner ::
  "('s \<Rightarrow> u64 \<Rightarrow> bytes \<Rightarrow> (error + unit) \<times> 's) \<Rightarrow> file_writer \<Rightarrow> 's \<Rightarrow> (error + file_handle) \<times> 's" where
  "writer_into_inner written w s =
     (case flush_buffered written w s of
        (Inl e, _, s) \<Rightarrow> (Inl e, s)
      | (Inr _, w, s) \<Rightarrow> (Inr (fw_file w), s))"

section \<open>What is read is the file\<close>

text \<open>Fills of a file holding \<open>contents\<close>, whatever they leave pending and however they fail.\<close>

definition honest_fill :: "bytes \<Rightarrow> 's filler \<Rightarrow> bool" where
  "honest_fill contents fill \<longleftrightarrow>
     (\<forall>s at' depth span far s'. fill s at' depth = (Some (Inr (span, far)), s') \<longrightarrow>
        (\<exists>rest. drop (unat at') contents = span @ rest \<and> (far \<or> span = [] \<longrightarrow> rest = [])))"

text \<open>Polls with so much room each, and what they returned.\<close>

fun poll_reads :: "'s filler \<Rightarrow> nat list \<Rightarrow> file_reader \<Rightarrow> 's \<Rightarrow> (error + bytes) option list \<times> file_reader \<times> 's" where
  "poll_reads fill [] r s = ([], r, s)"
| "poll_reads fill (n # ns) r s =
     (let (m, r, s) = poll_read fill n r s; (ms, r, s) = poll_reads fill ns r s in (m # ms, r, s))"

definition delivered_by :: "(error + bytes) option \<Rightarrow> bytes" where
  "delivered_by m = (case m of Some (Inr bs) \<Rightarrow> bs | _ \<Rightarrow> [])"

definition stream_at :: "bytes \<Rightarrow> bytes \<Rightarrow> file_reader \<Rightarrow> bool" where
  "stream_at contents out r \<longleftrightarrow>
     out @ drop (rdr_taken r) (rdr_buffer r) = take (unat (rdr_cursor r)) contents
     \<and> rdr_taken r \<le> length (rdr_buffer r) \<and> unat (rdr_cursor r) \<le> length contents
     \<and> (rdr_at_end r \<longrightarrow> unat (rdr_cursor r) = length contents)
     \<and> (\<forall>asked. rdr_filling r = Some asked \<longrightarrow> asked = (rdr_cursor r, rdr_depth r))"

text \<open>A poll answered without a fill, and one that fills first.\<close>

lemma poll_ready:
  assumes at': "stream_at contents out r" and ready: "0 < rdr_held r \<or> rdr_at_end r"
    and poll: "poll_read fill n r s = (m, r', s')"
  shows "stream_at contents (out @ delivered_by m) r' \<and> (m = Some (Inr []) \<longrightarrow> 0 < n \<longrightarrow> out = contents)"
proof (cases "0 < rdr_held r")
  case True
  let ?k = "min (rdr_held r) n" and ?left = "drop (rdr_taken r) (rdr_buffer r)"
  have m: "m = Some (Inr (take ?k ?left))" "r' = r\<lparr>rdr_taken := rdr_taken r + ?k\<rparr>"
    using poll True by (simp_all add: poll_read.simps [of fill n r s] Let_def)
  have "take ?k ?left @ drop (rdr_taken r + ?k) (rdr_buffer r) = ?left"
    using append_take_drop_id [of ?k ?left] by (simp add: add.commute)
  then have "(out @ take ?k ?left) @ drop (rdr_taken r + ?k) (rdr_buffer r) = out @ ?left" by simp
  moreover have "min (rdr_held r) n = 0 \<longrightarrow> n = 0" "\<not> length (rdr_buffer r) \<le> rdr_taken r"
    using True by (auto simp: rdr_held_def)
  moreover have "rdr_taken r + ?k \<le> length (rdr_buffer r)" using True by (simp add: rdr_held_def)
  ultimately show ?thesis
    using at' unfolding stream_at_def delivered_by_def m by auto
next
  case False
  then have "m = Some (Inr [])" "r' = r" using ready poll by (simp_all add: poll_read.simps [of fill n r s])
  then show ?thesis using at' ready False by (simp add: stream_at_def delivered_by_def rdr_held_def)
qed

lemma poll_read_at:
  assumes "honest_fill contents fill" "length contents < 2 ^ 64"
    and poll: "poll_read fill n r s = (m, r', s')" and at': "stream_at contents out r"
  shows "stream_at contents (out @ delivered_by m) r' \<and> (m = Some (Inr []) \<longrightarrow> 0 < n \<longrightarrow> out = contents)"
proof (cases "0 < rdr_held r \<or> rdr_at_end r")
  case True
  show ?thesis by (rule poll_ready [OF at' True poll])
next
  case False
  then have held: "\<not> 0 < rdr_held r" "\<not> rdr_at_end r" by simp_all
  have asked: "unwrap_or (rdr_filling r) (rdr_cursor r, rdr_depth r) = (rdr_cursor r, rdr_depth r)"
    using at' by (cases "rdr_filling r") (auto simp: stream_at_def)
  obtain f s1 where f: "fill s (rdr_cursor r) (rdr_depth r) = (f, s1)" by (metis prod.exhaust)
  have out: "out = take (unat (rdr_cursor r)) contents" "length (rdr_buffer r) \<le> rdr_taken r"
    using at' held by (simp_all add: stream_at_def rdr_held_def)
  have unfolded: "(case f of
           None \<Rightarrow> (None, r\<lparr>rdr_filling := Some (rdr_cursor r, rdr_depth r)\<rparr>, s1)
         | Some (Inl e) \<Rightarrow> (Some (Inl e), r\<lparr>rdr_filling := None\<rparr>, s1)
         | Some (Inr (span, at_end)) \<Rightarrow>
             poll_read fill n
               (r\<lparr>rdr_filling := None, rdr_cursor := rdr_cursor r + of_nat (length span), rdr_buffer := span,
                  rdr_taken := 0, rdr_at_end := (at_end \<or> length span = 0)\<rparr>) s1) = (m, r', s')"
    by (rule trans [OF _ poll], subst poll_read.simps)
       (simp only: held asked Let_def fst_conv snd_conv f if_False prod.case)
  consider "f = None" | e where "f = Some (Inl e)" | span far where "f = Some (Inr (span, far))"
  proof (cases f)
    case (Some g)
    then show thesis using that(2,3) by (cases g) auto
  qed (use that(1) in blast)
  then show ?thesis
  proof cases
    case 1
    then show ?thesis using unfolded at' unfolding stream_at_def delivered_by_def by auto
  next
    case 2
    then show ?thesis using unfolded at' unfolding stream_at_def delivered_by_def by auto
  next
    case 3
    let ?r = "r\<lparr>rdr_filling := None, rdr_cursor := rdr_cursor r + of_nat (length span), rdr_buffer := span,
            rdr_taken := 0, rdr_at_end := (far \<or> length span = 0)\<rparr>"
    obtain rest where rest: "drop (unat (rdr_cursor r)) contents = span @ rest" "far \<or> span = [] \<longrightarrow> rest = []"
      using assms(1) [unfolded honest_fill_def, rule_format, OF f [unfolded 3]] by blast
    have le: "unat (rdr_cursor r) \<le> length contents" using at' by (simp add: stream_at_def)
    have sum: "length contents = unat (rdr_cursor r) + length span + length rest"
      using arg_cong [OF rest(1), of length] le by simp
    have cur: "unat (rdr_cursor r + of_nat (length span)) = unat (rdr_cursor r) + length span"
      using assms(2) sum by (simp add: unat_word_ariths unat_of_nat)
    have "take (unat (rdr_cursor r) + length span) contents = out @ span"
      using rest(1) by (simp add: take_add out)
    moreover have "far \<or> length span = 0 \<longrightarrow> unat (rdr_cursor r) + length span = length contents"
      using rest(2) sum by auto
    ultimately have at1: "stream_at contents out ?r"
      using sum unfolding stream_at_def by (simp add: cur)
    have again: "poll_read fill n ?r s1 = (m, r', s')"
      using unfolded by (simp only: 3 option.case sum.case prod.case)
    have ready: "0 < rdr_held ?r \<or> rdr_at_end ?r" by (cases span) (simp_all add: rdr_held_def)
    show ?thesis by (rule poll_ready [OF at1 ready again])
  qed
qed

lemma stream_at_length: "stream_at contents out r \<Longrightarrow> length out \<le> length contents"
  by (drule arg_cong [of _ _ length, OF conjunct1 [OF iffD1 [OF stream_at_def]]]) simp

lemma poll_reads_at:
  assumes "honest_fill contents fill" "length contents < 2 ^ 64"
  shows "poll_reads fill ns r s = (ms, r', s') \<Longrightarrow> stream_at contents out r \<Longrightarrow>
    stream_at contents (out @ concat (map delivered_by ms)) r'
    \<and> (\<forall>i < length ns. ms ! i = Some (Inr []) \<longrightarrow> 0 < ns ! i \<longrightarrow> out @ concat (map delivered_by ms) = contents)"
proof (induction ns arbitrary: r s ms out)
  case Nil
  then show ?case by simp
next
  case (Cons n ns)
  obtain m r1 s1 where p: "poll_read fill n r s = (m, r1, s1)" by (metis prod.exhaust)
  obtain ms1 where ps: "poll_reads fill ns r1 s1 = (ms1, r', s')" and ms: "ms = m # ms1"
    using Cons.prems(1) p by (auto split: prod.splits)
  note one = poll_read_at [OF assms p Cons.prems(2)]
  note rest = Cons.IH [OF ps conjunct1 [OF one]]
  have after: "concat (map delivered_by (m # ms1)) = []" if "out = contents"
  proof -
    have "stream_at contents (out @ concat (map delivered_by ms)) r'" using rest by (simp add: ms)
    then have "length (out @ concat (map delivered_by ms)) \<le> length contents"
      by (rule stream_at_length)
    then show ?thesis using that by (simp add: ms)
  qed
  show ?case
  proof (intro conjI allI impI)
    show "stream_at contents (out @ concat (map delivered_by ms)) r'" using rest by (simp add: ms)
  next
    fix i assume i: "i < length (n # ns)" "ms ! i = Some (Inr [])" "0 < (n # ns) ! i"
    show "out @ concat (map delivered_by ms) = contents"
    proof (cases i)
      case 0
      then have "out = contents" using one i by (simp add: ms)
      then show ?thesis using after by (simp add: ms)
    next
      case (Suc j)
      then show ?thesis using rest i by (simp add: ms)
    qed
  qed
qed


text \<open>Three bytes read two at a time by one-byte polls, the first fill failing.\<close>

definition flaky_fill :: "bool filler" where
  "flaky_fill ok at' depth =
     (if \<not> ok then (Some (Inl RequestTimeout), True)
      else (Some (Inr (take 2 (drop (unat at') [10, 20, 30]), 2 < unat at')), True))"


section \<open>What is written is what was accepted\<close>

text \<open>The spans handed over and acknowledged, in order; \<open>placed\<close> says they are consecutive.\<close>

type_synonym spans_done = "(u64 \<times> bytes) list"

definition log_done :: "u64 \<Rightarrow> bytes \<Rightarrow> (error + unit) option \<Rightarrow> spans_done \<Rightarrow> spans_done" where
  "log_done at' span m done' = (case m of Some (Inr _) \<Rightarrow> done' @ [(at', span)] | _ \<Rightarrow> done')"

definition log_flush :: "'s flusher \<Rightarrow> ('s \<times> spans_done) flusher" where
  "log_flush flush w at' span = (let (m, s) = flush (fst w) at' span in (m, s, log_done at' span m (snd w)))"

definition log_written ::
  "('s \<Rightarrow> u64 \<Rightarrow> bytes \<Rightarrow> (error + unit) \<times> 's) \<Rightarrow> 's \<times> spans_done \<Rightarrow> u64 \<Rightarrow> bytes \<Rightarrow> (error + unit) \<times> 's \<times> spans_done"
  where
  "log_written written w at' span =
     (let (m, s) = written (fst w) at' span in (m, s, log_done at' span (Some m) (snd w)))"

fun placed :: "u64 \<Rightarrow> spans_done \<Rightarrow> bool" where
  "placed start [] = True"
| "placed start ((at', span) # rest) = (at' = start \<and> placed (start + of_nat (length span)) rest)"

definition bytes_done :: "spans_done \<Rightarrow> bytes" where
  "bytes_done done' = concat (map snd done')"

lemma bytes_done_snoc [simp]: "bytes_done (done' @ [(at', span)]) = bytes_done done' @ span"
  by (simp add: bytes_done_def)

lemma placed_snoc [simp]:
  "placed start (done' @ [(at', span)]) \<longleftrightarrow> placed start done' \<and> at' = start + of_nat (length (bytes_done done'))"
  by (induction start done' rule: placed.induct) (auto simp: bytes_done_def add.assoc)

datatype write_op = OpWrite bytes | OpFlush

text \<open>A run of polls up to its first error: the bytes accepted.\<close>

fun run_writes :: "'s flusher \<Rightarrow> write_op list \<Rightarrow> file_writer \<Rightarrow> 's \<Rightarrow> (error + bytes) \<times> file_writer \<times> 's" where
  "run_writes flush [] w s = (Inr [], w, s)"
| "run_writes flush (OpWrite data # ops) w s =
     (case poll_write flush data w s of
        (Some (Inl e), w, s) \<Rightarrow> (Inl e, w, s)
      | (Some (Inr n), w, s) \<Rightarrow> apfst (map_sum id (\<lambda>acc. take n data @ acc)) (run_writes flush ops w s)
      | (None, w, s) \<Rightarrow> run_writes flush ops w s)"
| "run_writes flush (OpFlush # ops) w s =
     (case poll_flush flush w s of
        (Some (Inl e), w, s) \<Rightarrow> (Inl e, w, s)
      | (_, w, s) \<Rightarrow> run_writes flush ops w s)"

definition in_flight :: "file_writer \<Rightarrow> bytes" where
  "in_flight w = (case fw_flushing w of None \<Rightarrow> [] | Some (_, span) \<Rightarrow> span)"

definition writer_at :: "u64 \<Rightarrow> bytes \<Rightarrow> spans_done \<Rightarrow> file_writer \<Rightarrow> bool" where
  "writer_at start acc done' w \<longleftrightarrow>
     acc = bytes_done done' @ in_flight w @ fw_buffer w
     \<and> placed start done'
     \<and> fw_cursor w = start + of_nat (length (bytes_done done' @ in_flight w))
     \<and> (\<forall>at' span. fw_flushing w = Some (at', span) \<longrightarrow>
          fw_buffer w = [] \<and> at' = start + of_nat (length (bytes_done done')) \<and> fw_pending_length w = Some (fw_cursor w))
     \<and> (done' \<noteq> [] \<longrightarrow> start + of_nat (length (bytes_done done')) \<le> fh_len (fw_file w))"

lemma settle_Inr:
  "fw_pending_length w = Some len \<Longrightarrow>
   fw_settle (Inr u) w = w\<lparr>fw_pending_length := None, fw_file := grew_to len (fw_file w)\<rparr>"
  by (simp add: fw_settle_def)

lemma poll_flushing_at:
  assumes "writer_at start acc done' w" "poll_flushing (log_flush flush) w (s, done') = (m, w', s', done'')"
  shows "m = None \<Longrightarrow> writer_at start acc done'' w'"
    and "m = Some (Inr u) \<Longrightarrow> writer_at start acc done'' w' \<and> fw_flushing w' = None"
proof -
  consider "fw_flushing w = None" | at' span where "fw_flushing w = Some (at', span)" by force
  then have "(m = None \<longrightarrow> writer_at start acc done'' w') \<and>
      (m = Some (Inr u) \<longrightarrow> writer_at start acc done'' w' \<and> fw_flushing w' = None)"
  proof cases
    case 1
    then show ?thesis using assms by (auto simp: poll_flushing_def)
  next
    case 2
    obtain m1 s1 where f: "flush s at' span = (m1, s1)" by (metis prod.exhaust)
    have w: "fw_buffer w = []" "at' = start + of_nat (length (bytes_done done'))" "fw_pending_length w = Some (fw_cursor w)"
        "in_flight w = span"
      using assms(1) 2 by (auto simp: writer_at_def in_flight_def)
    show ?thesis
    proof (cases m1)
      case None
      then show ?thesis using assms 2 f by (auto simp: poll_flushing_def log_flush_def log_done_def)
    next
      case (Some outcome)
      have eq: "m = Some outcome" "w' = fw_settle outcome (w\<lparr>fw_flushing := None, fw_buffer := []\<rparr>)"
          "done'' = log_done at' span (Some outcome) done'"
        using assms(2) 2 f Some by (auto simp: poll_flushing_def log_flush_def)
      show ?thesis
        using assms(1) 2 w unfolding eq
        by (cases outcome)
           (auto simp: settle_Inr log_done_def writer_at_def in_flight_def grew_to_def add.assoc)
    qed
  qed
  then show "m = None \<Longrightarrow> writer_at start acc done'' w'"
    and "m = Some (Inr u) \<Longrightarrow> writer_at start acc done'' w' \<and> fw_flushing w' = None" by blast+
qed

lemma start_flush_at: "writer_at start acc done' w \<Longrightarrow> writer_at start acc done' (start_flush w)"
  by (cases "fw_flushing w") (auto simp: start_flush_def writer_at_def in_flight_def Let_def)

lemma buffered_at:
  "writer_at start acc done' w \<Longrightarrow> fw_flushing w = None \<Longrightarrow>
   writer_at start (acc @ extra) done' (w\<lparr>fw_buffer := fw_buffer w @ extra\<rparr>)"
  by (auto simp: writer_at_def in_flight_def)

lemma poll_write_at:
  assumes "writer_at start acc done' w" "poll_write (log_flush flush) data w (s, done') = (m, w', s', done'')"
  shows "case m of None \<Rightarrow> writer_at start acc done'' w' | Some (Inl e) \<Rightarrow> True
    | Some (Inr n) \<Rightarrow> writer_at start (acc @ take n data) done'' w'"
proof -
  obtain m1 w1 s1 d1 where p: "poll_flushing (log_flush flush) w (s, done') = (m1, w1, s1, d1)" by (metis prod.exhaust)
  note at' = poll_flushing_at [OF assms(1) p]
  consider "m1 = None" | e where "m1 = Some (Inl e)" | "m1 = Some (Inr ())"
    by (metis (full_types) old.unit.exhaust option.exhaust sum.exhaust)
  then show ?thesis
  proof cases
    case 1
    then show ?thesis using assms(2) at' p by (auto simp: poll_write_def)
  next
    case 2
    then show ?thesis using assms(2) p by (auto simp: poll_write_def)
  next
    case 3
    then have w1: "writer_at start acc d1 w1" "fw_flushing w1 = None" using at' by auto
    show ?thesis
      using assms(2) p 3 w1 start_flush_at [OF buffered_at [OF w1]] buffered_at [OF w1]
      by (auto simp: poll_write_def Let_def split: if_splits)
  qed
qed

lemma poll_flush_at:
  "poll_flush fl w s = (m, w', s') \<Longrightarrow> fl = log_flush flush \<Longrightarrow> writer_at start acc (snd s) w \<Longrightarrow>
   m = None \<or> m = Some (Inr ()) \<Longrightarrow> writer_at start acc (snd s') w'"
proof (induction fl w s arbitrary: m w' s' rule: poll_flush.induct)
  case (1 fl w s)
  obtain s0 d0 where s: "s = (s0, d0)" by (cases s)
  obtain m1 w1 s1 d1 where p: "poll_flushing (log_flush flush) w (s0, d0) = (m1, w1, s1, d1)" by (metis prod.exhaust)
  have "writer_at start acc d0 w" using "1.prems"(3) by (simp add: s)
  note at' = poll_flushing_at [OF this p]
  have unfolded: "(case (m1, w1, s1, d1) of
        (None, w, s) \<Rightarrow> (None, w, s)
      | (Some (Inl e), w, s) \<Rightarrow> (Some (Inl e), w, s)
      | (Some (Inr _), w', s) \<Rightarrow>
          if fw_buffer w' = [] then (Some (Inr ()), w', s) else poll_flush (log_flush flush) (start_flush w') s) = (m, w', s')"
    by (rule trans [OF _ "1.prems"(1)], subst poll_flush.simps) (simp only: "1.prems"(2) s p)
  consider "m1 = None" | e where "m1 = Some (Inl e)" | "m1 = Some (Inr ())"
    by (metis (full_types) old.unit.exhaust option.exhaust sum.exhaust)
  then show ?case
  proof cases
    case 1
    then show ?thesis using unfolded at' by auto
  next
    case 2
    then show ?thesis using unfolded "1.prems"(4) by auto
  next
    case 3
    then have w1: "writer_at start acc d1 w1" using at' by auto
    show ?thesis
    proof (cases "fw_buffer w1 = []")
      case True
      then show ?thesis using unfolded 3 w1 by auto
    next
      case False
      have again: "poll_flush fl (start_flush w1) (s1, d1) = (m, w', s')"
        using unfolded False by (simp only: "1.prems"(2) 3 option.case sum.case prod.case if_False)
      have "poll_flushing fl w s = (Some (Inr ()), w1, s1, d1)" using p 3 by (simp only: "1.prems"(2) s)
      from "1.IH" [OF this [symmetric] refl refl refl False again "1.prems"(2)] start_flush_at [OF w1] "1.prems"(4)
      show ?thesis by simp
    qed
  qed
qed

lemma run_writes_at:
  "run_writes (log_flush flush) ops w s = (Inr accepted, w', s') \<Longrightarrow> writer_at start acc (snd s) w \<Longrightarrow>
   writer_at start (acc @ accepted) (snd s') w'"
proof (induction ops arbitrary: w s acc accepted)
  case Nil
  then show ?case by auto
next
  case (Cons op' ops)
  obtain s0 d0 where s: "s = (s0, d0)" by (cases s)
  have w: "writer_at start acc d0 w" using Cons.prems(2) by (simp add: s)
  show ?case
  proof (cases op')
    case (OpWrite data)
    obtain m w1 s1 d1 where p: "poll_write (log_flush flush) data w (s0, d0) = (m, w1, s1, d1)" by (metis prod.exhaust)
    note at' = poll_write_at [OF w p]
    obtain r w2 s2 where q: "run_writes (log_flush flush) ops w1 (s1, d1) = (r, w2, s2)" by (metis prod.exhaust)
    consider "m = None" | e where "m = Some (Inl e)" | n where "m = Some (Inr n)"
      by (metis option.exhaust sum.exhaust)
    then show ?thesis
    proof cases
      case 1
      then show ?thesis using Cons.IH [of w1 "(s1, d1)"] Cons.prems(1) at' p by (simp add: s OpWrite)
    next
      case 2
      then show ?thesis using Cons.prems(1) p by (simp add: s OpWrite)
    next
      case 3
      then obtain rest where "r = Inr rest" "accepted = take n data @ rest" "w2 = w'" "s2 = s'"
        using Cons.prems(1) p q by (cases r) (auto simp: s OpWrite)
      then show ?thesis using Cons.IH [of w1 "(s1, d1)" rest "acc @ take n data"] q at' 3 by simp
    qed
  next
    case OpFlush
    obtain m w1 s1 where p: "poll_flush (log_flush flush) w s = (m, w1, s1)" by (metis prod.exhaust)
    have "m = None \<or> m = Some (Inr ())"
      using Cons.prems(1) p by (cases m; cases "the m") (auto simp: OpFlush)
    then have "writer_at start acc (snd s1) w1" using poll_flush_at [OF p refl Cons.prems(2)] by blast
    moreover have "run_writes (log_flush flush) ops w1 s1 = (Inr accepted, w', s')"
      using Cons.prems(1) p \<open>m = None \<or> m = Some (Inr ())\<close> by (auto simp: OpFlush)
    ultimately show ?thesis using Cons.IH by blast
  qed
qed

text \<open>The span of the buffer handed over on the way out.\<close>

lemma last_span_at:
  assumes "writer_at start acc done' w" "fw_flushing w = None"
    and "written s (fw_cursor w) (fw_buffer w) = (Inr (), s')" and "c = fw_cursor w + of_nat (length (fw_buffer w))"
  shows "writer_at start acc (done' @ [(fw_cursor w, fw_buffer w)])
    ((fw_settle (Inr ()) (w\<lparr>fw_cursor := c, fw_pending_length := Some c\<rparr>))\<lparr>fw_buffer := []\<rparr>)"
  using assms by (auto simp: writer_at_def in_flight_def fw_settle_def grew_to_def add.assoc)

lemma flush_buffered_at:
  assumes at': "writer_at start acc done' w"
    and fb: "flush_buffered (log_written written) w (s, done') = (Inr u, w', s', done'')"
  shows "writer_at start acc done'' w' \<and> fw_buffer w' = [] \<and> fw_flushing w' = None"
proof -
  define fl where "fl = (\<lambda>s at' span. let (m, s) = written s at' span in (Some m, s))"
  define E where "E = (case fw_flushing w of
           None \<Rightarrow> (Inr (), w, s, done')
         | Some (at', span) \<Rightarrow>
             (let (outcome, s) = log_written written (s, done') at' span in
              (outcome, fw_settle outcome (w\<lparr>fw_flushing := None, fw_buffer := []\<rparr>), s)))"
  obtain m w1 s1 d1 where E: "E = (m, w1, s1, d1)" by (metis prod.exhaust)
  note early = E [unfolded E_def]
  have "poll_flushing (log_flush fl) w (s, done') = (Some m, w1, s1, d1)"
  proof (cases "fw_flushing w")
    case None
    then show ?thesis using early by (simp add: poll_flushing_def)
  next
    case (Some q)
    obtain at' span where q: "q = (at', span)" by (cases q)
    obtain r s2 where wr: "written s at' span = (r, s2)" by (metis prod.exhaust)
    show ?thesis
      using early by (auto simp: Some q wr poll_flushing_def log_flush_def fl_def log_written_def)
  qed
  note at1 = poll_flushing_at(2) [OF at' this]
  have step: "(case m of
           Inl e \<Rightarrow> (Inl e, w1, s1, d1)
         | Inr _ \<Rightarrow>
             if fw_buffer w1 = [] then (Inr (), w1, s1, d1)
             else
               let span = fw_buffer w1; (outcome, s) = log_written written (s1, d1) (fw_cursor w1) span;
                   cursor = fw_cursor w1 + of_nat (length span);
                   w = fw_settle outcome (w1\<lparr>fw_cursor := cursor, fw_pending_length := Some cursor\<rparr>)
               in (outcome, w\<lparr>fw_buffer := []\<rparr>, s)) = (Inr u, w', s', done'')"
    by (rule trans [OF _ fb], subst flush_buffered_def, subst early) (simp only: Let_def prod.case)
  show ?thesis
  proof (cases m)
    case (Inl e)
    then show ?thesis using step by simp
  next
    case (Inr v)
    then have w1: "writer_at start acc d1 w1" "fw_flushing w1 = None" using at1 by auto
    show ?thesis
    proof (cases "fw_buffer w1 = []")
      case True
      then show ?thesis using step Inr w1 by simp
    next
      case False
      obtain r s2 where wr: "written s1 (fw_cursor w1) (fw_buffer w1) = (r, s2)" by (metis prod.exhaust)
      let ?c = "fw_cursor w1 + of_nat (length (fw_buffer w1))"
      have lw: "log_written written (s1, d1) (fw_cursor w1) (fw_buffer w1)
          = (r, s2, log_done (fw_cursor w1) (fw_buffer w1) (Some r) d1)"
        by (simp add: log_written_def wr)
      have out: "(r, (fw_settle r (w1\<lparr>fw_cursor := ?c, fw_pending_length := Some ?c\<rparr>))\<lparr>fw_buffer := []\<rparr>, s2,
          log_done (fw_cursor w1) (fw_buffer w1) (Some r) d1) = (Inr u, w', s', done'')"
        using step by (simp only: Inr sum.case False if_False Let_def lw prod.case)
      have r: "r = Inr ()" using out by (cases r) simp_all
      have "log_done (fw_cursor w1) (fw_buffer w1) (Some r) d1 = d1 @ [(fw_cursor w1, fw_buffer w1)]"
        by (simp add: log_done_def r)
      then have "w' = (fw_settle (Inr ()) (w1\<lparr>fw_cursor := ?c, fw_pending_length := Some ?c\<rparr>))\<lparr>fw_buffer := []\<rparr>"
          "done'' = d1 @ [(fw_cursor w1, fw_buffer w1)]"
        using out by (simp_all add: r)
      moreover from this have "fw_buffer w' = []" "fw_flushing w' = None"
        using w1(2) by (simp_all add: fw_settle_def)
      ultimately show ?thesis
        using last_span_at [of start acc d1 w1 written s1 s2 ?c] w1 wr r by simp
    qed
  qed
qed

text \<open>
  C22. A stream written through the adapter loses nothing: after any run of polls without an error, with
  any flushes left pending on the way, giving the file back hands over what is left, and then the spans
  the server acknowledged are consecutive from where the writer started and hold exactly the bytes the
  polls accepted, in order; and the length the handle reports reaches their end.
\<close>

theorem writer_streams:
  assumes "file_writer_new c depth registered f = Inr w"
    and "run_writes (log_flush flush) ops w (s, []) = (Inr accepted, w1, s1)"
    and "writer_into_inner (log_written written) w1 s1 = (Inr f', s2)"
  shows "placed (start_of_writes f) (snd s2) \<and> bytes_done (snd s2) = accepted
    \<and> (accepted \<noteq> [] \<longrightarrow> start_of_writes f + of_nat (length accepted) \<le> fh_len f')"
proof -
  have "writer_at (start_of_writes f) [] [] w"
    using assms(1) by (auto simp: file_writer_new_def Let_def rbind_Inr_iff writer_at_def in_flight_def bytes_done_def)
  with run_writes_at [OF assms(2), of "start_of_writes f" "[]"]
  have at1: "writer_at (start_of_writes f) accepted (snd s1) w1" by simp
  obtain s0 d0 where s1: "s1 = (s0, d0)" by (cases s1)
  obtain r w2 s3 d2 where fb0: "flush_buffered (log_written written) w1 (s0, d0) = (r, w2, s3, d2)"
    by (metis prod.exhaust)
  obtain u where r: "r = Inr u" using assms(3) fb0 by (cases r) (simp_all add: writer_into_inner_def s1)
  then have s2: "s2 = (s3, d2)" "f' = fw_file w2"
    using assms(3) fb0 by (simp_all add: writer_into_inner_def s1)
  note fb = fb0 [unfolded r]
  from flush_buffered_at [OF _ fb] at1
  have "writer_at (start_of_writes f) accepted d2 w2" "fw_buffer w2 = []" "fw_flushing w2 = None"
    by (auto simp: s1)
  then show ?thesis by (auto simp: writer_at_def in_flight_def s2 bytes_done_def)
qed

text \<open>Three writes of two bytes into a buffer of four, each flush pending once.\<close>

definition slow_flush :: "bool flusher" where
  "slow_flush ready' at' span = (if ready' then (Some (Inr ()), False) else (None, True))"

definition demo_writer :: file_writer where
  "demo_writer =
     \<lparr>fw_file = file_new 7 10 True, fw_issuing = True, fw_cursor = 10, fw_capacity = 4, fw_buffer = [],
      fw_flushing = None, fw_pending_length = None\<rparr>"

definition demo_connection :: connection where
  "demo_connection = \<lparr>cn_negotiated = \<lparr>max_mpx_count = 1, max_buffer_size = 1028, capabilities = 0\<rparr>,
     cn_downgraded = True\<rparr>"

theorem writer_streams_witness:
  "\<exists>w1 s1 f' s2.
     run_writes (log_flush slow_flush) [OpWrite [1, 2, 3], OpWrite [4, 5], OpWrite [5, 6], OpWrite [5, 6]] demo_writer (False, [])
       = (Inr [1, 2, 3, 4, 5, 6], w1, s1)
     \<and> writer_into_inner (log_written (\<lambda>s _ _. (Inr (), s))) w1 s1 = (Inr f', s2)
     \<and> snd s2 = [(10, [1, 2, 3, 4]), (14, [5, 6])] \<and> bytes_done (snd s2) = [1, 2, 3, 4, 5, 6]"
proof -
  have new: "file_writer_new demo_connection 1 (\<lambda>_. Inr ()) (file_new 7 10 True) = Inr demo_writer"
    by code_simp
  let ?run = "run_writes (log_flush slow_flush) [OpWrite [1, 2, 3], OpWrite [4, 5], OpWrite [5, 6], OpWrite [5, 6]] demo_writer (False, [])"
  obtain r w1 s1 where rw: "?run = (r, w1, s1)" by (metis prod.exhaust)
  have "fst ?run = Inr [1, 2, 3, 4, 5, 6]" by code_simp
  then have run: "?run = (Inr [1, 2, 3, 4, 5, 6], w1, s1)" using rw by simp
  let ?inner = "writer_into_inner (log_written (\<lambda>s _ _. (Inr (), s))) (fst (snd ?run)) (snd (snd ?run))"
  have "snd (snd ?inner) = [(10, [1, 2, 3, 4]), (14, [5, 6])]" "\<not> isl (fst ?inner)" by code_simp+
  then obtain f' s2 where inner: "writer_into_inner (log_written (\<lambda>s _ _. (Inr (), s))) w1 s1 = (Inr f', s2)"
      and s2: "snd s2 = [(10, [1, 2, 3, 4]), (14, [5, 6])]"
    using rw by (cases "writer_into_inner (log_written (\<lambda>s _ _. (Inr (), s))) w1 s1"; cases "fst ?inner") auto
  from writer_streams [OF new run inner] have "bytes_done (snd s2) = [1, 2, 3, 4, 5, 6]" by blast
  with run inner s2 show ?thesis by blast
qed

end
